(* ===== verification/Prelude.thy ===== *)
theory Prelude
  imports Main "HOL-Library.AList"
begin

text \<open>
  The vocabulary every component shares: Go's 64-bit and narrower integers on
  \<open>int\<close> with their wrap-around, Go's error values, the lemma collections, and the
  generic facts on association lists, folds and searches the component proofs use.

  Go's maps are association lists with distinct keys: a Go map has no order of its own, so
  the list order stands for one iteration order of the map, and a statement about every
  list is a statement about every order. Tables of the database are association lists from
  their primary key for the same reason.
\<close>

section \<open>Collections\<close>

named_theorems model_defs \<open>the definitions of operations that proofs open\<close>
named_theorems range_simps \<open>conversions between wrapped and unbounded integers\<close>

section \<open>Machine integers\<close>

text \<open>
  A Go \<open>int\<close> and \<open>int64\<close> has 64 bits and wraps in two's complement.
  \<open>wrap w\<close> reads an unbounded result back at width \<open>w\<close>.
\<close>

definition wrap :: "nat \<Rightarrow> int \<Rightarrow> int" where
  "wrap w n = (n + 2 ^ (w - 1)) mod 2 ^ w - 2 ^ (w - 1)"

abbreviation wrap64 :: "int \<Rightarrow> int" where
  "wrap64 \<equiv> wrap 64"

abbreviation wrap16 :: "int \<Rightarrow> int" where
  "wrap16 \<equiv> wrap 16"

definition in_range :: "nat \<Rightarrow> int \<Rightarrow> bool" where
  "in_range w n \<longleftrightarrow> - (2 ^ (w - 1)) \<le> n \<and> n < 2 ^ (w - 1)"

lemma wrap_id [range_simps]:
  assumes "0 < w" and "in_range w n"
  shows "wrap w n = n"
proof -
  obtain k where w: "w = Suc k" using assms(1) by (cases w) auto
  have "0 \<le> n + 2 ^ k" and "n + 2 ^ k < 2 ^ w"
    using assms(2) by (simp_all add: in_range_def w)
  then show ?thesis by (simp add: wrap_def w)
qed

lemma wrap_in_range: "0 < w \<Longrightarrow> in_range w (wrap w n)"
proof -
  assume "0 < w"
  then obtain k where w: "w = Suc k" by (cases w) auto
  have "0 \<le> (n + 2 ^ k) mod 2 ^ w" "(n + 2 ^ k) mod 2 ^ w < (2 :: int) ^ w"
    by simp_all
  then show ?thesis by (simp add: wrap_def in_range_def w)
qed

lemma wrap64_id: "- 9223372036854775808 \<le> n \<Longrightarrow> n < 9223372036854775808 \<Longrightarrow> wrap64 n = n"
  by (rule wrap_id) (simp_all add: in_range_def)

text \<open>Division of Go integers truncates towards zero, and the remainder has the dividend's sign.\<close>

definition go_div :: "int \<Rightarrow> int \<Rightarrow> int" where
  "go_div a b = sgn a * sgn b * (\<bar>a\<bar> div \<bar>b\<bar>)"

definition go_mod :: "int \<Rightarrow> int \<Rightarrow> int" where
  "go_mod a b = a - go_div a b * b"

lemma go_div_nonneg [simp]: "0 \<le> a \<Longrightarrow> 0 < b \<Longrightarrow> go_div a b = a div b"
  by (cases "a = 0") (simp_all add: go_div_def sgn_if)

lemma go_mod_nonneg [simp]: "0 \<le> a \<Longrightarrow> 0 < b \<Longrightarrow> go_mod a b = a mod b"
  by (simp add: go_mod_def minus_div_mult_eq_mod)

lemma go_div_exact: "0 < b \<Longrightarrow> go_div (k * b) b = k"
  by (simp add: go_div_def abs_mult sgn_mult sgn_mult_abs)

section \<open>Errors\<close>

text \<open>
  The sentinel errors of the program, errors that only carry a message, and errors
  wrapped with \<open>%w\<close>. \<open>errors_is\<close> is \<open>errors.Is\<close>: it looks through
  the wrapping.
\<close>

datatype sentinel = Not_found | Version_exists | Tx_closed | Ctx_canceled | Eof

datatype go_error = Sentinel sentinel | Message string | Wrapped string go_error

fun errors_is :: "go_error \<Rightarrow> sentinel \<Rightarrow> bool" where
  "errors_is (Sentinel s) t = (s = t)"
| "errors_is (Message m) t = False"
| "errors_is (Wrapped m e) t = errors_is e t"

text \<open>\<open>Error()\<close>.\<close>

fun error_text :: "go_error \<Rightarrow> string" where
  "error_text (Sentinel s) =
     (case s of Not_found \<Rightarrow> ''not found'' | Version_exists \<Rightarrow> ''schedule version already loaded''
      | Tx_closed \<Rightarrow> ''tx is closed'' | Ctx_canceled \<Rightarrow> ''context canceled'' | Eof \<Rightarrow> ''EOF'')"
| "error_text (Message m) = m"
| "error_text (Wrapped m e) = m @ '': '' @ error_text e"

type_synonym 'a result = "go_error + 'a"

section \<open>Association lists\<close>

abbreviation al_put :: "'k \<Rightarrow> 'v \<Rightarrow> ('k \<times> 'v) list \<Rightarrow> ('k \<times> 'v) list" where
  "al_put \<equiv> AList.update"

abbreviation al_del :: "'k \<Rightarrow> ('k \<times> 'v) list \<Rightarrow> ('k \<times> 'v) list" where
  "al_del \<equiv> AList.delete"

abbreviation al_keys :: "('k \<times> 'v) list \<Rightarrow> 'k list" where
  "al_keys xs \<equiv> map fst xs"

definition al_wf :: "('k \<times> 'v) list \<Rightarrow> bool" where
  "al_wf xs \<longleftrightarrow> distinct (al_keys xs)"

lemma al_wf_Nil [simp, intro]: "al_wf []"
  by (simp add: al_wf_def)

lemma al_wf_put [simp, intro]: "al_wf xs \<Longrightarrow> al_wf (al_put k v xs)"
  by (simp add: al_wf_def AList.distinct_update)

lemma al_wf_del [simp, intro]: "al_wf xs \<Longrightarrow> al_wf (al_del k xs)"
  by (simp add: al_wf_def AList.distinct_delete)

lemma al_wf_filter [simp, intro]: "al_wf xs \<Longrightarrow> al_wf (filter P xs)"
  by (simp add: al_wf_def distinct_map_filter)

lemma al_wf_map_snd [simp]: "al_wf (map (\<lambda>(k, v). (k, f k v)) xs) = al_wf xs"
  by (simp add: al_wf_def comp_def split_def)

lemma map_of_put [simp]: "map_of (al_put k v xs) = (map_of xs)(k \<mapsto> v)"
  by (rule AList.update_conv')

lemma map_of_del [simp]: "map_of (al_del k xs) = (map_of xs)(k := None)"
  by (rule AList.delete_conv')

lemma map_of_map_snd: "map_of (map (\<lambda>(k, v). (k, f k v)) xs) k = map_option (f k) (map_of xs k)"
  by (induction xs) auto

lemma al_wf_mem: "al_wf xs \<Longrightarrow> (k, v) \<in> set xs \<longleftrightarrow> map_of xs k = Some v"
  by (simp add: al_wf_def)

lemma map_of_filter_al:
  "al_wf xs \<Longrightarrow> map_of (filter P xs) k =
     (case map_of xs k of None \<Rightarrow> None | Some v \<Rightarrow> if P (k, v) then Some v else None)"
proof (induction xs)
  case Nil
  then show ?case by simp
next
  case (Cons x xs)
  obtain a b where x: "x = (a, b)" by force
  have wf: "al_wf xs" and a: "map_of xs a = None"
    using Cons.prems by (auto simp: al_wf_def x map_of_eq_None_iff image_iff)
  show ?case
    using Cons.IH [OF wf] a by (auto simp: x split: option.splits)
qed

lemma length_put: "length (al_put k v xs) \<le> Suc (length xs)"
  by (induction xs) auto

lemma length_put_present: "k \<in> fst ` set xs \<Longrightarrow> length (al_put k v xs) = length xs"
  by (induction xs) auto

lemma length_del_present: "k \<in> fst ` set xs \<Longrightarrow> length (al_del k xs) < length xs"
  by (force simp: AList.delete_eq intro!: length_filter_less)

section \<open>First match in a list\<close>

fun index_where :: "('a \<Rightarrow> bool) \<Rightarrow> 'a list \<Rightarrow> nat option" where
  "index_where p [] = None"
| "index_where p (x # xs) = (if p x then Some 0 else map_option Suc (index_where p xs))"

lemma index_where_Some:
  "index_where p xs = Some i \<Longrightarrow> i < length xs \<and> p (xs ! i) \<and> (\<forall>j < i. \<not> p (xs ! j))"
proof (induction xs arbitrary: i)
  case Nil
  then show ?case by simp
next
  case (Cons x xs)
  show ?case
  proof (cases "p x")
    case True
    with Cons.prems show ?thesis by simp
  next
    case False
    with Cons.prems obtain k where k: "index_where p xs = Some k" "i = Suc k" by auto
    with Cons.IH [OF k(1)] False show ?thesis by (auto simp: less_Suc_eq_0_disj)
  qed
qed

lemma index_where_None: "index_where p xs = None \<longleftrightarrow> (\<forall>x \<in> set xs. \<not> p x)"
  by (induction xs) auto

section \<open>Sequences of fallible steps\<close>

fun first_error :: "('a \<Rightarrow> 's \<Rightarrow> 's result) \<Rightarrow> 'a list \<Rightarrow> 's \<Rightarrow> 's result" where
  "first_error f [] s = Inr s"
| "first_error f (x # xs) s = (case f x s of Inl e \<Rightarrow> Inl e | Inr s' \<Rightarrow> first_error f xs s')"

lemma fold_inv: "P s \<Longrightarrow> (\<And>x s. x \<in> set xs \<Longrightarrow> P s \<Longrightarrow> P (f x s)) \<Longrightarrow> P (fold f xs s)"
  by (induction xs arbitrary: s) auto

end
