(* ===== verification/Go_Strings.thy ===== *)
theory Go_Strings
  imports Prelude "HOL-Library.Char_ord"
begin

text \<open>
  Go strings are byte sequences, here \<open>string\<close> (a \<open>char\<close> is a byte). This theory
  models what the program uses of the standard library's text functions: white space and
  \<open>strings.TrimSpace\<close>, \<open>strings.Split\<close> on one byte, \<open>strings.HasPrefix\<close>, decimal
  output (\<open>%d\<close>, \<open>%0wd\<close>), \<open>strconv.Atoi\<close>/\<open>ParseInt\<close> in base 10, and the
  \<open>%d\<close>/\<open>%wd\<close> verbs of \<open>fmt.Sscanf\<close>. The lemmas are the round trips between
  output and input.
\<close>

section \<open>White space\<close>

text \<open>
  The length in bytes of the white-space rune a string starts with, 0 if it starts with
  none: the ASCII spaces and the UTF-8 encodings of U+0085, U+00A0, U+1680, U+2000 to
  U+200A, U+2028, U+2029, U+202F, U+205F and U+3000.
\<close>

definition byte :: "char \<Rightarrow> nat" where
  "byte c = of_char c"

definition ascii_space :: "nat \<Rightarrow> bool" where
  "ascii_space b \<longleftrightarrow> (9 \<le> b \<and> b \<le> 13) \<or> b = 32"

definition space2 :: "nat \<Rightarrow> nat \<Rightarrow> bool" where
  "space2 a b \<longleftrightarrow> a = 194 \<and> (b = 133 \<or> b = 160)"

definition space3 :: "nat \<Rightarrow> nat \<Rightarrow> nat \<Rightarrow> bool" where
  "space3 a b c \<longleftrightarrow>
     (a = 225 \<and> b = 154 \<and> c = 128) \<or>
     (a = 226 \<and> b = 128 \<and> ((128 \<le> c \<and> c \<le> 138) \<or> c = 168 \<or> c = 169 \<or> c = 175)) \<or>
     (a = 226 \<and> b = 129 \<and> c = 159) \<or>
     (a = 227 \<and> b = 128 \<and> c = 128)"

definition space_len :: "string \<Rightarrow> nat" where
  "space_len s = (case map byte (take 3 s) of
      [] \<Rightarrow> 0
    | [a] \<Rightarrow> if ascii_space a then 1 else 0
    | [a, b] \<Rightarrow> if ascii_space a then 1 else if space2 a b then 2 else 0
    | a # b # c # _ \<Rightarrow>
        if ascii_space a then 1 else if space2 a b then 2 else if space3 a b c then 3 else 0)"

definition space_len_end :: "string \<Rightarrow> nat" where
  "space_len_end s = (case map byte (take 3 (rev s)) of
      [] \<Rightarrow> 0
    | [a] \<Rightarrow> if ascii_space a then 1 else 0
    | [b, a] \<Rightarrow> if ascii_space b then 1 else if space2 a b then 2 else 0
    | c # b # a # _ \<Rightarrow>
        if ascii_space c then 1 else if space2 b c then 2 else if space3 a b c then 3 else 0)"

lemma space_len_le: "space_len s \<le> length s"
  by (auto simp: space_len_def take_Cons' split: list.splits dest!: arg_cong [where f = length])

lemma space_len_end_le: "space_len_end s \<le> length s"
  by (auto simp: space_len_end_def split: list.splits dest!: arg_cong [where f = length])

function trim_left :: "string \<Rightarrow> string" where
  "trim_left s = (if space_len s = 0 then s else trim_left (drop (space_len s) s))"
  by pat_completeness auto
termination
proof (relation "measure length")
  fix s
  assume "space_len s \<noteq> 0"
  then show "(drop (space_len s) s, s) \<in> measure length"
    using space_len_le [of s] by auto
qed simp

function trim_right :: "string \<Rightarrow> string" where
  "trim_right s =
     (if space_len_end s = 0 then s else trim_right (take (length s - space_len_end s) s))"
  by pat_completeness auto
termination
proof (relation "measure length")
  fix s
  assume "space_len_end s \<noteq> 0"
  then show "(take (length s - space_len_end s) s, s) \<in> measure length"
    using space_len_end_le [of s] by auto
qed simp

declare trim_left.simps [simp del] trim_right.simps [simp del]

text \<open>\<open>strings.TrimSpace\<close>.\<close>

definition trim_space :: "string \<Rightarrow> string" where
  "trim_space s = trim_right (trim_left s)"

section \<open>Splitting and prefixes\<close>

text \<open>\<open>strings.Split(s, sep)\<close> for a one-byte separator: always at least one part.\<close>

fun split_on :: "char \<Rightarrow> string \<Rightarrow> string list" where
  "split_on c [] = [[]]"
| "split_on c (x # xs) =
     (if x = c then [] # split_on c xs
      else case split_on c xs of [] \<Rightarrow> [[x]] | p # ps \<Rightarrow> (x # p) # ps)"

lemma split_on_nonempty [simp]: "split_on c s \<noteq> []"
  by (cases s) (auto split: list.splits)

lemma split_on_parts: "p \<in> set (split_on c s) \<Longrightarrow> c \<notin> set p"
  by (induction s arbitrary: p) (auto split: if_splits list.splits)

lemma split_on_single: "c \<notin> set s \<Longrightarrow> split_on c s = [s]"
  by (induction s) auto

lemma split_on_append: "c \<notin> set s \<Longrightarrow> split_on c (s @ c # t) = s # split_on c t"
  by (induction s) auto

fun has_prefix :: "string \<Rightarrow> string \<Rightarrow> bool" where
  "has_prefix s [] = True"
| "has_prefix [] (p # ps) = False"
| "has_prefix (x # xs) (p # ps) = (x = p \<and> has_prefix xs ps)"

lemma has_prefix_append [simp]: "has_prefix (p @ s) p"
  by (induction p) auto

lemma has_prefix_iff: "has_prefix s p \<longleftrightarrow> (\<exists>t. s = p @ t)"
  by (induction s p rule: has_prefix.induct) auto

text \<open>\<open>path.Base\<close> of a slash-separated path without trailing slashes: what follows the last slash.\<close>

definition last_part :: "char \<Rightarrow> string \<Rightarrow> string" where
  "last_part c s = last (split_on c s)"

lemma split_on_app: "split_on c (s @ c # t) = split_on c s @ split_on c t"
  by (induction s) (auto split: list.splits)

lemma last_part_append: "c \<notin> set t \<Longrightarrow> last_part c (s @ c # t) = t"
  by (simp add: last_part_def split_on_app split_on_single)

section \<open>Decimal digits\<close>

definition digit_char :: "nat \<Rightarrow> char" where
  "digit_char d = char_of (48 + d)"

definition is_digit :: "char \<Rightarrow> bool" where
  "is_digit c \<longleftrightarrow> 48 \<le> byte c \<and> byte c \<le> 57"

definition digit_val :: "char \<Rightarrow> nat" where
  "digit_val c = byte c - 48"

lemma byte_digit_char [simp]: "d < 10 \<Longrightarrow> byte (digit_char d) = 48 + d"
  by (simp add: byte_def digit_char_def of_char_of)

lemma is_digit_char [simp]: "d < 10 \<Longrightarrow> is_digit (digit_char d)"
  by (simp add: is_digit_def)

lemma digit_val_char [simp]: "d < 10 \<Longrightarrow> digit_val (digit_char d) = d"
  by (simp add: digit_val_def)

definition digits_val :: "string \<Rightarrow> nat" where
  "digits_val s = foldl (\<lambda>n c. 10 * n + digit_val c) 0 s"

lemma digits_val_snoc [simp]: "digits_val (s @ [c]) = 10 * digits_val s + digit_val c"
  by (simp add: digits_val_def)

lemma digits_val_Nil [simp]: "digits_val [] = 0"
  by (simp add: digits_val_def)

fun nat_dec :: "nat \<Rightarrow> string" where
  "nat_dec n = (if n < 10 then [digit_char n] else nat_dec (n div 10) @ [digit_char (n mod 10)])"

declare nat_dec.simps [simp del]

lemma nat_dec_digits: "c \<in> set (nat_dec n) \<Longrightarrow> is_digit c"
proof (induction n rule: nat_dec.induct)
  case (1 n)
  then show ?case
    by (cases "n < 10") (auto simp: nat_dec.simps [of n])
qed

lemma digits_val_nat_dec [simp]: "digits_val (nat_dec n) = n"
proof (induction n rule: nat_dec.induct)
  case (1 n)
  then show ?case
    by (cases "n < 10") (simp_all add: nat_dec.simps [of n] digits_val_def)
qed

lemma nat_dec_nonempty [simp]: "nat_dec n \<noteq> []"
  by (simp add: nat_dec.simps [of n])

lemma nat_dec_length_le: "0 < w \<Longrightarrow> n < 10 ^ w \<Longrightarrow> length (nat_dec n) \<le> w"
proof (induction n arbitrary: w rule: nat_dec.induct)
  case (1 n)
  show ?case
  proof (cases "n < 10")
    case True
    then show ?thesis using "1.prems" by (simp add: nat_dec.simps [of n])
  next
    case False
    with "1.prems" obtain v where v: "w = Suc v" "0 < v"
      by (cases w; cases "w - 1") auto
    with False "1.IH" [of v] "1.prems" show ?thesis
      by (simp add: nat_dec.simps [of n] less_mult_imp_div_less mult.commute)
  qed
qed

text \<open>\<open>fmt\<close>'s \<open>%0wd\<close>: the sign counts towards the width, zeros fill up to it.\<close>

definition zeros :: "nat \<Rightarrow> string" where
  "zeros n = replicate n (CHR ''0'')"

definition fmt_d :: "int \<Rightarrow> string" where
  "fmt_d n = (if n < 0 then CHR ''-'' # nat_dec (nat (- n)) else nat_dec (nat n))"

definition fmt_0d :: "nat \<Rightarrow> int \<Rightarrow> string" where
  "fmt_0d w n =
     (if n < 0
      then CHR ''-'' # zeros (w - 1 - length (nat_dec (nat (- n)))) @ nat_dec (nat (- n))
      else zeros (w - length (nat_dec (nat n))) @ nat_dec (nat n))"

text \<open>\<open>time\<close>'s \<open>appendInt\<close>: the zeros fill the digits to the width, after the sign.\<close>

definition append_int :: "int \<Rightarrow> nat \<Rightarrow> string" where
  "append_int n w =
     (if n < 0 then CHR ''-'' # zeros (w - length (nat_dec (nat (- n)))) @ nat_dec (nat (- n))
      else zeros (w - length (nat_dec (nat n))) @ nat_dec (nat n))"

lemma is_digit_zero [simp]: "is_digit (CHR ''0'')"
  by (simp add: is_digit_def byte_def)

lemma digit_val_zero [simp]: "digit_val (CHR ''0'') = 0"
  by (simp add: digit_val_def byte_def)

lemma digits_val_zeros [simp]: "digits_val (zeros k @ s) = digits_val s"
  by (induction k) (simp_all add: zeros_def digits_val_def)

lemma append_int_fmt_0d: "0 \<le> n \<Longrightarrow> append_int n w = fmt_0d w n"
  by (simp add: append_int_def fmt_0d_def)

lemma fmt_0d_digits: "0 \<le> n \<Longrightarrow> c \<in> set (fmt_0d w n) \<Longrightarrow> is_digit c"
  by (auto simp: fmt_0d_def zeros_def dest: nat_dec_digits)

lemma fmt_0d_val: "0 \<le> n \<Longrightarrow> int (digits_val (fmt_0d w n)) = n"
  by (simp add: fmt_0d_def)

lemma fmt_0d_nonempty [simp]: "fmt_0d w n \<noteq> []"
  by (simp add: fmt_0d_def)

lemma fmt_0d_length: "0 < w \<Longrightarrow> 0 \<le> n \<Longrightarrow> n < 10 ^ w \<Longrightarrow> length (fmt_0d w n) = w"
  using nat_dec_length_le [of w "nat n"] by (simp add: fmt_0d_def zeros_def nat_less_iff)

lemma fmt_d_digits: "0 \<le> n \<Longrightarrow> c \<in> set (fmt_d n) \<Longrightarrow> is_digit c"
  by (auto simp: fmt_d_def dest: nat_dec_digits)

lemma fmt_d_val: "0 \<le> n \<Longrightarrow> int (digits_val (fmt_d n)) = n"
  by (simp add: fmt_d_def)

section \<open>Reading integers\<close>

text \<open>
  \<open>strconv.ParseInt(s, 10, 64)\<close> and \<open>strconv.Atoi\<close>: an optional sign, then one or more
  digits and nothing else, in the range of an \<open>int64\<close>.
\<close>

definition signed_val :: "bool \<Rightarrow> string \<Rightarrow> int option" where
  "signed_val neg ds =
     (let v = (if neg then - int (digits_val ds) else int (digits_val ds))
      in if ds \<noteq> [] \<and> list_all is_digit ds \<and> in_range 64 v then Some v else None)"

definition parse_int :: "string \<Rightarrow> int option" where
  "parse_int s = (case s of
      [] \<Rightarrow> None
    | c # ds \<Rightarrow>
        if c = CHR ''-'' then signed_val True ds
        else if c = CHR ''+'' then signed_val False ds
        else signed_val False s)"

abbreviation atoi :: "string \<Rightarrow> int option" where
  "atoi \<equiv> parse_int"

lemma digit_not_sign: "is_digit c \<Longrightarrow> c \<noteq> CHR ''-'' \<and> c \<noteq> CHR ''+''"
  by (auto simp: is_digit_def byte_def)

lemma parse_int_digits:
  assumes "s \<noteq> []" and "list_all is_digit s"
  shows "parse_int s = (if in_range 64 (int (digits_val s)) then Some (int (digits_val s)) else None)"
proof -
  obtain c ds where s: "s = c # ds" using assms(1) by (cases s) auto
  with assms(2) have "c \<noteq> CHR ''-''" "c \<noteq> CHR ''+''"
    using digit_not_sign by auto
  with assms show ?thesis by (simp add: parse_int_def s signed_val_def Let_def)
qed

lemma parse_int_fmt_d:
  assumes "in_range 64 n" and "0 \<le> n"
  shows "parse_int (fmt_d n) = Some n"
proof -
  have "fmt_d n \<noteq> []" using assms(2) by (simp add: fmt_d_def)
  moreover have "list_all is_digit (fmt_d n)"
    using assms(2) fmt_d_digits by (auto simp: list_all_iff)
  ultimately show ?thesis using assms by (simp add: parse_int_digits fmt_d_val)
qed

text \<open>
  \<open>fmt\<close>'s scanner for one \<open>%wd\<close>: leading white space is skipped outside the width
  and a newline there is an error, then an optional sign and at least one digit are read,
  both inside the width. The result is the value and the rest of the input. \<open>%d\<close> has
  the width \<open>huge_wid\<close>.
\<close>

definition huge_wid :: nat where
  "huge_wid = 1073741824"

function skip_space :: "string \<Rightarrow> string option" where
  "skip_space s =
     (if space_len s = 0 then Some s
      else if s \<noteq> [] \<and> hd s = CHR ''\<newline>'' then None
      else skip_space (drop (space_len s) s))"
  by pat_completeness auto
termination
proof (relation "measure length")
  fix s
  assume "space_len s \<noteq> 0"
  then show "(drop (space_len s) s, s) \<in> measure length"
    using space_len_le [of s] by auto
qed simp

declare skip_space.simps [simp del]

fun take_digits :: "nat \<Rightarrow> string \<Rightarrow> string" where
  "take_digits 0 s = []"
| "take_digits (Suc w) [] = []"
| "take_digits (Suc w) (c # s) = (if is_digit c then c # take_digits w s else [])"

definition scan_d :: "nat \<Rightarrow> string \<Rightarrow> (int \<times> string) option" where
  "scan_d w s = (case skip_space s of
      None \<Rightarrow> None
    | Some t \<Rightarrow>
        let signed = (t \<noteq> [] \<and> 0 < w \<and> (hd t = CHR ''+'' \<or> hd t = CHR ''-''));
            neg = (signed \<and> hd t = CHR ''-'');
            u = (if signed then tl t else t);
            ds = take_digits (if signed then w - 1 else w) u
        in case signed_val neg ds of None \<Rightarrow> None | Some v \<Rightarrow> Some (v, drop (length ds) u))"

text \<open>A literal of a scan format: it must be the next byte.\<close>

definition scan_lit :: "char \<Rightarrow> string \<Rightarrow> string option" where
  "scan_lit c s = (case s of [] \<Rightarrow> None | x # t \<Rightarrow> if x = c then Some t else None)"

lemma ascii_space_digit: "is_digit c \<Longrightarrow> \<not> ascii_space (byte c)"
  by (auto simp: is_digit_def ascii_space_def)

lemma space_len_digit: "is_digit c \<Longrightarrow> space_len (c # s) = 0"
  by (auto simp: space_len_def ascii_space_digit is_digit_def space2_def space3_def
      ascii_space_def numeral_3_eq_3 split: list.splits)

lemma skip_space_digit: "is_digit c \<Longrightarrow> skip_space (c # s) = Some (c # s)"
  by (simp add: skip_space.simps space_len_digit)

lemma take_digits_all:
  "list_all is_digit ds \<Longrightarrow> length ds \<le> w \<Longrightarrow>
     (rest = [] \<or> length ds = w \<or> \<not> is_digit (hd rest)) \<Longrightarrow> take_digits w (ds @ rest) = ds"
proof (induction ds arbitrary: w)
  case Nil
  then show ?case by (cases w; cases rest) auto
next
  case (Cons d ds)
  then show ?case by (cases w) auto
qed

lemma scan_d_digits:
  assumes "ds \<noteq> []" and "list_all is_digit ds" and "length ds \<le> w"
    and "rest = [] \<or> length ds = w \<or> \<not> is_digit (hd rest)"
    and "in_range 64 (int (digits_val ds))"
  shows "scan_d w (ds @ rest) = Some (int (digits_val ds), rest)"
proof -
  obtain c cs where ds: "ds = c # cs" using assms(1) by (cases ds) auto
  with assms(2) have c: "is_digit c" by simp
  have skip: "skip_space (ds @ rest) = Some (ds @ rest)"
    using c by (simp add: ds skip_space_digit)
  have nosign: "hd ds \<noteq> CHR ''+''" "hd ds \<noteq> CHR ''-''"
    using digit_not_sign [OF c] by (simp_all add: ds)
  have tk: "take_digits w (ds @ rest) = ds"
    using assms(2-4) by (rule take_digits_all)
  show ?thesis
    using assms(1,2,5) by (simp add: scan_d_def skip nosign tk Let_def signed_val_def)
qed

end
