(* ===== verification/Go_Time.thy ===== *)
theory Go_Time
  imports Go_Strings
begin

text \<open>
  Go's \<open>time\<close> package, as far as the program uses it. An instant is the number of
  nanoseconds since 1 January of the year 1, 00:00 UTC, so that the zero \<open>time.Time\<close>
  is 0; a duration is a number of nanoseconds. Overflow is written out: \<open>Add\<close> saturates
  the seconds, \<open>Sub\<close> saturates the duration, \<open>time.Unix\<close> and the product of a
  duration wrap.

  A \<open>time.Location\<close> is its list of zone transitions: the contents of the time-zone
  database are data, and every statement is about an arbitrary list. The rule that follows
  the last transition of a database entry is taken as unrolled into the list.

  The second half is the proleptic Gregorian calendar (\<open>time.Date\<close>, \<open>Time.Date\<close>,
  \<open>Weekday\<close>, \<open>Format\<close>) with the round trips between day numbers and civil dates.
\<close>

section \<open>Instants and durations\<close>

type_synonym instant = int
type_synonym duration = int

definition second :: duration where
  "second = 1000000000"

definition minute :: duration where
  "minute = 60 * second"

definition hour :: duration where
  "hour = 60 * minute"

definition zero_time :: instant where
  "zero_time = 0"

definition is_zero :: "instant \<Rightarrow> bool" where
  "is_zero t \<longleftrightarrow> t = zero_time"

text \<open>Seconds between 1 January of the year 1 and the Unix epoch.\<close>

definition unix_to_internal :: int where
  "unix_to_internal = 62135596800"

definition unix_time :: "int \<Rightarrow> instant" where
  "unix_time s = wrap64 (s + unix_to_internal) * second"

definition to_unix :: "instant \<Rightarrow> int" where
  "to_unix t = wrap64 (t div second - unix_to_internal)"

definition clamp :: "int \<Rightarrow> int \<Rightarrow> int \<Rightarrow> int" where
  "clamp lo hi n = max lo (min hi n)"

text \<open>\<open>Time.Add\<close> and \<open>Time.Sub\<close>.\<close>

definition go_add :: "instant \<Rightarrow> duration \<Rightarrow> instant" where
  "go_add t d =
     clamp (- 9223372036854775807) 9223372036854775807 ((t + d) div second) * second
       + (t + d) mod second"

definition go_sub :: "instant \<Rightarrow> instant \<Rightarrow> duration" where
  "go_sub t u = clamp (- 9223372036854775808) 9223372036854775807 (t - u)"

text \<open>\<open>time.Duration(n) * time.Second\<close>.\<close>

definition secs_dur :: "int \<Rightarrow> duration" where
  "secs_dur n = wrap64 (n * second)"

definition sane_time :: "instant \<Rightarrow> bool" where
  "sane_time t \<longleftrightarrow> \<bar>t\<bar> \<le> 4611686018427387904 * second"

lemma second_pos [simp]: "0 < second"
  by (simp add: second_def)

lemma go_add_sane:
  assumes "\<bar>t + d\<bar> \<le> 9223372036854775806 * second"
  shows "go_add t d = t + d"
proof -
  have "(t + d) div second \<le> 9223372036854775806 * second div second"
    using assms by (intro zdiv_mono1) (auto simp: abs_le_iff)
  moreover have "- (9223372036854775806 * second) div second \<le> (t + d) div second"
    using assms by (intro zdiv_mono1) (auto simp: abs_le_iff)
  ultimately show ?thesis
    by (simp add: go_add_def clamp_def second_def div_mult_mod_eq)
qed

lemma go_sub_small: "\<bar>t - u\<bar> \<le> 9223372036854775807 \<Longrightarrow> go_sub t u = t - u"
  by (simp add: go_sub_def clamp_def)

lemma go_sub_mono: "t - u \<le> t' - u' \<Longrightarrow> go_sub t u \<le> go_sub t' u'"
  by (simp add: go_sub_def clamp_def)

lemma secs_dur_small: "\<bar>n\<bar> \<le> 9223372036 \<Longrightarrow> secs_dur n = n * second"
  by (simp add: secs_dur_def second_def wrap64_id abs_le_iff)

lemma unix_time_small:
  "\<bar>s\<bar> \<le> 9000000000000000000 \<Longrightarrow> unix_time s = (s + unix_to_internal) * second"
  by (simp add: unix_time_def unix_to_internal_def wrap64_id abs_le_iff)

lemma to_unix_small:
  "\<bar>t\<bar> \<le> 9000000000000000000 * second \<Longrightarrow> to_unix t = t div second - unix_to_internal"
proof -
  assume "\<bar>t\<bar> \<le> 9000000000000000000 * second"
  then have "- 9000000000000000000 * second div second \<le> t div second"
    and "t div second \<le> 9000000000000000000 * second div second"
    by (intro zdiv_mono1; simp add: abs_le_iff)+
  then show ?thesis
    by (simp add: to_unix_def unix_to_internal_def second_def wrap64_id)
qed

lemma to_unix_unix_time:
  "\<bar>s\<bar> \<le> 8000000000000000000 \<Longrightarrow> to_unix (unix_time s) = s"
  by (simp add: unix_time_small to_unix_def unix_to_internal_def wrap64_id abs_le_iff second_def)

section \<open>The calendar\<close>

definition leap :: "int \<Rightarrow> bool" where
  "leap y \<longleftrightarrow> y mod 4 = 0 \<and> (y mod 100 \<noteq> 0 \<or> y mod 400 = 0)"

definition days_in_month :: "int \<Rightarrow> int \<Rightarrow> int" where
  "days_in_month y m =
     (if m = 2 then (if leap y then 29 else 28)
      else if m = 4 \<or> m = 6 \<or> m = 9 \<or> m = 11 then 30 else 31)"

text \<open>Days from 1 January of the year 1 to 1 January of year \<open>y\<close>.\<close>

definition days_before_year :: "int \<Rightarrow> int" where
  "days_before_year y = 365 * (y - 1) + (y - 1) div 4 - (y - 1) div 100 + (y - 1) div 400"

text \<open>Days of the year before the first of month \<open>m\<close>.\<close>

definition days_before_month :: "bool \<Rightarrow> int \<Rightarrow> int" where
  "days_before_month lp m =
     (if m \<le> 1 then 0 else if m = 2 then 31
      else (if lp then 1 else 0)
        + (if m = 3 then 59 else if m = 4 then 90 else if m = 5 then 120 else if m = 6 then 151
           else if m = 7 then 181 else if m = 8 then 212 else if m = 9 then 243
           else if m = 10 then 273 else if m = 11 then 304 else 334))"

definition days_of_civil :: "int \<Rightarrow> int \<Rightarrow> int \<Rightarrow> int" where
  "days_of_civil y m d = days_before_year y + days_before_month (leap y) m + (d - 1)"

text \<open>
  Back from a day number: cut off 400-, 100-, 4- and 1-year cycles, the fourth of each
  short cycle keeping the leap day, then find the month.
\<close>

definition year_split :: "int \<Rightarrow> int \<times> int" where
  "year_split n =
     (let c = n div 146097; r = n mod 146097;
          h = min 3 (r div 36524); r1 = r - 36524 * h;
          q = r1 div 1461; r2 = r1 - 1461 * q;
          a = min 3 (r2 div 365)
      in (400 * c + 100 * h + 4 * q + a + 1, r2 - 365 * a))"

definition month_of :: "bool \<Rightarrow> int \<Rightarrow> int" where
  "month_of lp yd =
     (if yd < 31 then 1
      else let e = yd - (if lp then 1 else 0)
        in if e < 59 then 2 else if e < 90 then 3 else if e < 120 then 4 else if e < 151 then 5
           else if e < 181 then 6 else if e < 212 then 7 else if e < 243 then 8
           else if e < 273 then 9 else if e < 304 then 10 else if e < 334 then 11 else 12)"

definition civil_of_days :: "int \<Rightarrow> int \<times> int \<times> int" where
  "civil_of_days n =
     (let (y, yd) = year_split n; m = month_of (leap y) yd
      in (y, m, yd - days_before_month (leap y) m + 1))"

definition valid_civil :: "int \<Rightarrow> int \<Rightarrow> int \<Rightarrow> bool" where
  "valid_civil y m d \<longleftrightarrow> 1 \<le> m \<and> m \<le> 12 \<and> 1 \<le> d \<and> d \<le> days_in_month y m"

text \<open>\<open>Weekday\<close>: Sunday is 0; day 0 was a Monday.\<close>

definition weekday :: "int \<Rightarrow> int" where
  "weekday n = (n + 1) mod 7"

lemma div_pred: "0 < (k::int) \<Longrightarrow> y div k = (y - 1) div k + (if k dvd y then 1 else 0)"
proof -
  assume k: "0 < k"
  show ?thesis
  proof (cases "k dvd y")
    case True
    then obtain q where y: "y = k * q" by (auto elim: dvdE)
    have "(y - 1) div k = q - 1"
      using k by (intro int_div_pos_eq [where r = "k - 1"]) (auto simp: y algebra_simps)
    with True k show ?thesis by (simp add: y)
  next
    case False
    then have "0 < y mod k" using k by (simp add: dvd_eq_mod_eq_0 order_less_le)
    moreover have "y mod k < k" using k by simp
    ultimately have "(y - 1) div k = y div k"
      by (intro int_div_pos_eq [where r = "y mod k - 1"]) (simp_all add: algebra_simps)
    with False show ?thesis by simp
  qed
qed

lemma leap_count:
  fixes a b c y a' b' c' :: int
  assumes "a' = a + (if P then 1 else 0)" and "b' = b + (if Q then 1 else 0)"
    and "c' = c + (if R then 1 else 0)" and "R \<Longrightarrow> Q" and "Q \<Longrightarrow> P"
  shows "365 * y + a' - b' + c' = 365 * (y - 1) + a - b + c + (if P \<and> (\<not> Q \<or> R) then 366 else 365)"
  using assms by (cases P; cases Q; cases R) simp_all

lemma days_before_year_Suc:
  "days_before_year (y + 1) = days_before_year y + (if leap y then 366 else 365)"
proof -
  have "(400 :: int) dvd y \<Longrightarrow> 100 dvd y" and "(100 :: int) dvd y \<Longrightarrow> 4 dvd y"
    by (rule dvd_trans [rotated], assumption, simp)+
  then show ?thesis
    unfolding days_before_year_def leap_def mod_eq_0_iff_dvd add_diff_cancel_right'
    by (intro leap_count div_pred) simp_all
qed

lemma days_before_year_mono: "y \<le> z \<Longrightarrow> days_before_year y \<le> days_before_year z"
proof (induction z rule: int_ge_induct)
  case base
  show ?case by simp
next
  case (step z)
  then show ?case by (simp add: days_before_year_Suc)
qed

lemma year_unique:
  assumes "days_before_year y \<le> n" "n < days_before_year (y + 1)"
    and "days_before_year z \<le> n" "n < days_before_year (z + 1)"
  shows "y = z"
proof (rule ccontr)
  assume "y \<noteq> z"
  then consider "y + 1 \<le> z" | "z + 1 \<le> y" by linarith
  then show False
  proof cases
    case 1
    then have "days_before_year (y + 1) \<le> days_before_year z" by (rule days_before_year_mono)
    with assms show False by simp
  next
    case 2
    then have "days_before_year (z + 1) \<le> days_before_year y" by (rule days_before_year_mono)
    with assms show False by simp
  qed
qed

lemma year_cycle:
  fixes a c h q :: int
  assumes "0 \<le> h" "h \<le> 3" "0 \<le> q" "q \<le> 24" "0 \<le> a" "a \<le> 3"
  defines "y \<equiv> 400 * c + 100 * h + 4 * q + a + 1"
  shows "days_before_year y = 146097 * c + 36524 * h + 1461 * q + 365 * a"
    and "leap y \<longleftrightarrow> a = 3 \<and> (q \<noteq> 24 \<or> h = 3)"
proof -
  have d4: "(y - 1) div 4 = 100 * c + 25 * h + q"
    using assms by (intro int_div_pos_eq [where r = a]) (auto simp: y_def)
  have d100: "(y - 1) div 100 = 4 * c + h"
    using assms by (intro int_div_pos_eq [where r = "4 * q + a"]) (auto simp: y_def)
  have d400: "(y - 1) div 400 = c"
    using assms by (intro int_div_pos_eq [where r = "100 * h + 4 * q + a"]) (auto simp: y_def)
  show "days_before_year y = 146097 * c + 36524 * h + 1461 * q + 365 * a"
    by (simp add: days_before_year_def d4 d100 d400) (simp add: y_def)
  have m4: "y mod 4 = (if a = 3 then 0 else a + 1)"
    using assms by (intro int_mod_pos_eq [where q = "if a = 3 then 100 * c + 25 * h + q + 1 else 100 * c + 25 * h + q"])
      (auto simp: y_def)
  have m100: "y mod 100 = (if q = 24 \<and> a = 3 then 0 else 4 * q + a + 1)"
    using assms by (intro int_mod_pos_eq [where q = "if q = 24 \<and> a = 3 then 4 * c + h + 1 else 4 * c + h"])
      (auto simp: y_def)
  have m400: "y mod 400 = (if h = 3 \<and> q = 24 \<and> a = 3 then 0 else 100 * h + 4 * q + a + 1)"
    using assms by (intro int_mod_pos_eq [where q = "if h = 3 \<and> q = 24 \<and> a = 3 then c + 1 else c"])
      (auto simp: y_def)
  show "leap y \<longleftrightarrow> a = 3 \<and> (q \<noteq> 24 \<or> h = 3)"
    using assms(1-6) unfolding leap_def m4 m100 m400 by auto
qed

lemma year_split:
  assumes "year_split n = (y, yd)"
  shows "n = days_before_year y + yd" and "0 \<le> yd" and "yd < (if leap y then 366 else 365)"
proof -
  define c where "c = n div 146097"
  define r where "r = n mod 146097"
  define h where "h = min 3 (r div 36524)"
  define r1 where "r1 = r - 36524 * h"
  define q where "q = r1 div 1461"
  define r2 where "r2 = r1 - 1461 * q"
  define a where "a = min 3 (r2 div 365)"
  have y: "y = 400 * c + 100 * h + 4 * q + a + 1" and yd: "yd = r2 - 365 * a"
    using assms
    unfolding year_split_def Let_def c_def [symmetric] r_def [symmetric] h_def [symmetric]
      r1_def [symmetric] q_def [symmetric] r2_def [symmetric] a_def [symmetric]
    by simp_all
  have n: "n = 146097 * c + r" by (simp add: c_def r_def)
  have r: "0 \<le> r" "r < 146097" by (simp_all add: r_def)
  have h: "0 \<le> h" "h \<le> 3" using r by (simp_all add: h_def pos_imp_zdiv_nonneg_iff)
  have r1: "0 \<le> r1" "r1 < 36525" "h < 3 \<Longrightarrow> r1 < 36524"
    using r by (simp_all add: r1_def h_def min_def split: if_splits; linarith)+
  have q: "0 \<le> q" "q \<le> 24" using r1 by (simp_all add: q_def pos_imp_zdiv_nonneg_iff; linarith)+
  have r2: "0 \<le> r2" "r2 < 1461" by (simp_all add: r2_def q_def; linarith)+
  have r2b: "q = 24 \<Longrightarrow> h < 3 \<Longrightarrow> r2 < 1460" using r1(3) by (simp add: r2_def)
  have a: "0 \<le> a" "a \<le> 3" using r2 by (simp_all add: a_def pos_imp_zdiv_nonneg_iff)
  have ydb: "0 \<le> yd" "yd < 366" "a < 3 \<Longrightarrow> yd < 365"
    using r2 by (simp_all add: yd a_def min_def split: if_splits; linarith)+
  have dby: "days_before_year y = 146097 * c + 36524 * h + 1461 * q + 365 * a"
    and lp: "leap y \<longleftrightarrow> a = 3 \<and> (q \<noteq> 24 \<or> h = 3)"
    unfolding y using year_cycle h q a by blast+
  show "n = days_before_year y + yd" by (simp add: n dby yd r2_def r1_def)
  show "0 \<le> yd" by (rule ydb)
  show "yd < (if leap y then 366 else 365)"
  proof (cases "leap y")
    case True
    then show ?thesis using ydb by simp
  next
    case False
    then consider "a < 3" | "a = 3" "q = 24" "h < 3" using lp a h by fastforce
    then show ?thesis
      using False ydb r2b yd by cases auto
  qed
qed

lemma month_of_bounds:
  assumes "0 \<le> yd" "yd < (if leap y then 366 else 365)"
  defines "m \<equiv> month_of (leap y) yd"
  shows "1 \<le> m \<and> m \<le> 12 \<and> days_before_month (leap y) m \<le> yd \<and>
    yd < days_before_month (leap y) m + days_in_month y m"
proof -
  define e where "e = yd - (if leap y then 1 else 0)"
  have m: "m = (if yd < 31 then 1
      else if e < 59 then 2 else if e < 90 then 3 else if e < 120 then 4 else if e < 151 then 5
      else if e < 181 then 6 else if e < 212 then 7 else if e < 243 then 8
      else if e < 273 then 9 else if e < 304 then 10 else if e < 334 then 11 else 12)"
    by (simp add: m_def month_of_def e_def Let_def)
  have e: "yd - 1 \<le> e" "e \<le> yd" "e < 365" using assms(2) by (simp_all add: e_def split: if_splits)
  consider "yd < 31" | "31 \<le> yd" "e < 59" | "59 \<le> e" "e < 90"
    | "90 \<le> e" "e < 120" | "120 \<le> e" "e < 151" | "151 \<le> e" "e < 181"
    | "181 \<le> e" "e < 212" | "212 \<le> e" "e < 243" | "243 \<le> e" "e < 273"
    | "273 \<le> e" "e < 304" | "304 \<le> e" "e < 334" | "334 \<le> e" by linarith
  then show ?thesis
    using assms(1) e
    by cases (simp_all add: m days_before_month_def days_in_month_def,
        simp_all add: e_def split: if_splits)
qed

lemma month_of_unique:
  assumes "1 \<le> m" "m \<le> 12" "0 \<le> k" "k < days_in_month y m"
  shows "month_of (leap y) (days_before_month (leap y) m + k) = m"
proof -
  from assms(1,2) have "m = 1 \<or> m = 2 \<or> m = 3 \<or> m = 4 \<or> m = 5 \<or> m = 6 \<or>
    m = 7 \<or> m = 8 \<or> m = 9 \<or> m = 10 \<or> m = 11 \<or> m = 12" by presburger
  then consider "m = 1" | "m = 2" | "m = 3" | "m = 4" | "m = 5" | "m = 6"
    | "m = 7" | "m = 8" | "m = 9" | "m = 10" | "m = 11" | "m = 12" by blast
  then show ?thesis
    using assms(3,4)
    by cases (simp_all add: month_of_def days_before_month_def days_in_month_def Let_def split: if_splits)
qed

lemma days_of_civil_inverse:
  assumes "civil_of_days n = (y, m, d)"
  shows "days_of_civil y m d = n" and "valid_civil y m d"
proof -
  obtain yd where s: "year_split n = (y, yd)" and m: "m = month_of (leap y) yd"
    and d: "d = yd - days_before_month (leap y) m + 1"
    using assms by (auto simp: civil_of_days_def Let_def split: prod.splits)
  show "days_of_civil y m d = n"
    using year_split(1) [OF s] by (simp add: days_of_civil_def d)
  show "valid_civil y m d"
    using month_of_bounds [OF year_split(2,3) [OF s]] by (auto simp: valid_civil_def m d)
qed

lemma days_in_month_fit:
  fixes m y :: int
  shows "1 \<le> m \<Longrightarrow> m \<le> 12 \<Longrightarrow>
     days_before_month (leap y) m + days_in_month y m \<le> (if leap y then 366 else 365)"
    and "0 \<le> days_before_month lp m"
  by (auto simp: days_before_month_def days_in_month_def)

lemma civil_of_days_inverse:
  assumes "valid_civil y m d"
  shows "civil_of_days (days_of_civil y m d) = (y, m, d)"
proof -
  define n where "n = days_of_civil y m d"
  obtain z yd where s: "year_split n = (z, yd)" by force
  have v: "1 \<le> m" "m \<le> 12" "1 \<le> d" "d \<le> days_in_month y m"
    using assms by (auto simp: valid_civil_def)
  have "days_before_year y \<le> n" and "n < days_before_year (y + 1)"
    using v days_in_month_fit(1) [of m y] days_in_month_fit(2) [where lp = "leap y" and m = m]
    by (auto simp: n_def days_of_civil_def days_before_year_Suc)
  moreover have "days_before_year z \<le> n" and "n < days_before_year (z + 1)"
    using year_split [OF s] by (auto simp: days_before_year_Suc)
  ultimately have z: "z = y" using year_unique by blast
  have yd: "yd = days_before_month (leap y) m + (d - 1)"
    using year_split(1) [OF s] by (simp add: n_def days_of_civil_def z)
  have "month_of (leap y) yd = m"
    unfolding yd using v by (intro month_of_unique) auto
  then show ?thesis
    unfolding n_def [symmetric] by (simp add: civil_of_days_def s z yd)
qed

lemma weekday_range: "0 \<le> weekday n \<and> weekday n < 7"
  by (simp add: weekday_def)

section \<open>Locations\<close>

text \<open>
  The offset in force before the first transition, and the transitions in ascending
  order: the Unix second of the transition and the offset east of UTC from then on.
\<close>

record location =
  loc_base :: int
  loc_txs :: "(int \<times> int) list"

definition utc :: location where
  "utc = \<lparr>loc_base = 0, loc_txs = []\<rparr>"

text \<open>\<open>Location.lookup\<close>: the offset at a Unix second and the bounds of its zone.\<close>

fun zone_at :: "int \<Rightarrow> int \<Rightarrow> (int \<times> int) list \<Rightarrow> int \<Rightarrow> int \<times> int \<times> int" where
  "zone_at off start [] s = (off, start, 9223372036854775807)"
| "zone_at off start ((w, off') # txs) s =
     (if s < w then (off, start, w) else zone_at off' w txs s)"

definition zone_lookup :: "location \<Rightarrow> int \<Rightarrow> int \<times> int \<times> int" where
  "zone_lookup loc s = zone_at (loc_base loc) (- 9223372036854775808) (loc_txs loc) s"

definition offset_at :: "location \<Rightarrow> int \<Rightarrow> int" where
  "offset_at loc s = fst (zone_lookup loc s)"

text \<open>
  \<open>time.Date\<close>: the wall clock read as if it were UTC, corrected by the offset found
  there, or, when the corrected instant lies in another zone, by that zone's offset. The
  month is already 1 to 12; the day may lie outside its month and then overflows.
\<close>

definition go_date :: "int \<Rightarrow> int \<Rightarrow> int \<Rightarrow> int \<Rightarrow> location \<Rightarrow> instant" where
  "go_date y m d secs loc =
     (let u = days_of_civil y m d * 86400 + secs - unix_to_internal;
          (off, start, stop) = zone_lookup loc u;
          v = u - off;
          off' = (if off = 0 then 0 else if v < start \<or> stop \<le> v then offset_at loc v else off)
      in (u - off' + unix_to_internal) * second)"

text \<open>Seconds on the wall clock of a location, counted from 1 January of the year 1.\<close>

definition local_secs :: "location \<Rightarrow> instant \<Rightarrow> int" where
  "local_secs loc t = t div second + offset_at loc (t div second - unix_to_internal)"

definition local_day :: "location \<Rightarrow> instant \<Rightarrow> int" where
  "local_day loc t = local_secs loc t div 86400"

definition local_hour :: "location \<Rightarrow> instant \<Rightarrow> int" where
  "local_hour loc t = local_secs loc t mod 86400 div 3600"

definition local_minute :: "location \<Rightarrow> instant \<Rightarrow> int" where
  "local_minute loc t = local_secs loc t mod 3600 div 60"

text \<open>\<open>Format("20060102")\<close> and \<open>Format("2006-01-02")\<close>.\<close>

definition format_date :: "int \<times> int \<times> int \<Rightarrow> string" where
  "format_date ymd = (case ymd of (y, m, d) \<Rightarrow> append_int y 4 @ append_int m 2 @ append_int d 2)"

definition format_iso :: "int \<times> int \<times> int \<Rightarrow> string" where
  "format_iso ymd = (case ymd of (y, m, d) \<Rightarrow>
     append_int y 4 @ ''-'' @ append_int m 2 @ ''-'' @ append_int d 2)"

lemma offset_utc [simp]: "offset_at utc s = 0"
  by (simp add: offset_at_def zone_lookup_def utc_def)

lemma local_secs_utc [simp]: "local_secs utc t = t div second"
  by (simp add: local_secs_def)

lemma go_date_utc: "go_date y m d secs utc = (days_of_civil y m d * 86400 + secs) * second"
  by (simp add: go_date_def zone_lookup_def utc_def)

lemma local_day_utc_date:
  "0 \<le> secs \<Longrightarrow> secs < 86400 \<Longrightarrow> local_day utc (go_date y m d secs utc) = days_of_civil y m d"
  by (simp add: local_day_def go_date_utc second_def)

lemma local_hour_range: "0 \<le> local_hour loc t \<and> local_hour loc t \<le> 23"
proof -
  have "local_secs loc t mod 86400 < 86400" "0 \<le> local_secs loc t mod 86400" by simp_all
  then show ?thesis unfolding local_hour_def by linarith
qed

lemma format_date_inject_len:
  assumes "valid_civil y m d" and "0 \<le> y" and "y \<le> 9999"
  shows "length (format_date (y, m, d)) = 8"
proof -
  have "d < 100" using assms(1) by (auto simp: valid_civil_def days_in_month_def split: if_splits)
  with assms show ?thesis
    by (simp add: format_date_def append_int_fmt_0d fmt_0d_length valid_civil_def)
qed

end
