(* ===== verification/Gtfs_Time.thy ===== *)
theory Gtfs_Time
  imports Go_Time
begin

text \<open>
  \<open>internal/domain/gtfstime.go\<close>: service dates, the noon-minus-12h origin of GTFS
  times, GTFS clock strings, and the civil-calendar helpers. The lemmas are the round
  trips of the two string formats, day arithmetic on service dates, the wall-clock
  reading of a scheduled time across daylight-saving transitions, and the hour of the
  week as an hour count modulo 168.
\<close>

section \<open>Operations\<close>

text \<open>\<open>ParseServiceDate\<close>: eight bytes, scanned with \<open>%4d%2d%2d\<close>.\<close>

definition scan_service_date :: "string \<Rightarrow> (int \<times> int \<times> int) option" where
  "scan_service_date s =
     (case scan_d 4 s of None \<Rightarrow> None | Some (y, s1) \<Rightarrow>
      (case scan_d 2 s1 of None \<Rightarrow> None | Some (m, s2) \<Rightarrow>
       (case scan_d 2 s2 of None \<Rightarrow> None | Some (d, _) \<Rightarrow> Some (y, m, d))))"

definition bad_service_date :: go_error where
  "bad_service_date = Message ''bad service date''"

definition parse_service_date :: "string \<Rightarrow> (int \<times> int \<times> int) result" where
  "parse_service_date s =
     (if length s \<noteq> 8 then Inl bad_service_date
      else case scan_service_date s of
        None \<Rightarrow> Inl bad_service_date
      | Some (y, m, d) \<Rightarrow>
          if m < 1 \<or> m > 12 \<or> d < 1 \<or> d > 31 then Inl bad_service_date else Inr (y, m, d))"

definition noon_minus12 :: "string \<Rightarrow> location \<Rightarrow> instant result" where
  "noon_minus12 service_date loc =
     (case parse_service_date service_date of
        Inl e \<Rightarrow> Inl e
      | Inr (y, m, d) \<Rightarrow> Inr (go_add (go_date y m d (12 * 3600) loc) (- 12 * hour)))"

definition scheduled_time :: "string \<Rightarrow> int \<Rightarrow> location \<Rightarrow> instant result" where
  "scheduled_time service_date secs loc =
     (case noon_minus12 service_date loc of
        Inl e \<Rightarrow> Inl e
      | Inr base \<Rightarrow> Inr (go_add base (secs_dur secs)))"

text \<open>\<open>ParseGTFSTime\<close>: scanned with \<open>%d:%2d:%2d\<close>; the sum is a 64-bit integer.\<close>

definition scan_gtfs_time :: "string \<Rightarrow> (int \<times> int \<times> int) option" where
  "scan_gtfs_time s =
     (case scan_d huge_wid s of None \<Rightarrow> None | Some (h, s1) \<Rightarrow>
      (case scan_lit (CHR '':'') s1 of None \<Rightarrow> None | Some s2 \<Rightarrow>
       (case scan_d 2 s2 of None \<Rightarrow> None | Some (m, s3) \<Rightarrow>
        (case scan_lit (CHR '':'') s3 of None \<Rightarrow> None | Some s4 \<Rightarrow>
         (case scan_d 2 s4 of None \<Rightarrow> None | Some (sec, _) \<Rightarrow> Some (h, m, sec))))))"

definition bad_gtfs_time :: go_error where
  "bad_gtfs_time = Message ''bad GTFS time''"

definition parse_gtfs_time :: "string \<Rightarrow> int result" where
  "parse_gtfs_time s =
     (if s = [] then Inr (- 1)
      else case scan_gtfs_time s of
        None \<Rightarrow> Inl bad_gtfs_time
      | Some (h, m, sec) \<Rightarrow>
          if h < 0 \<or> m < 0 \<or> m > 59 \<or> sec < 0 \<or> sec > 59 then Inl bad_gtfs_time
          else Inr (wrap64 (h * 3600 + m * 60 + sec)))"

definition format_gtfs_time :: "int \<Rightarrow> string" where
  "format_gtfs_time secs =
     fmt_0d 2 (go_div secs 3600) @ CHR '':'' # fmt_0d 2 (go_div (go_mod secs 3600) 60)
       @ CHR '':'' # fmt_0d 2 (go_mod secs 60)"

definition civil_date :: "instant \<Rightarrow> location \<Rightarrow> string" where
  "civil_date t loc = format_date (civil_of_days (local_day loc t))"

definition add_days :: "string \<Rightarrow> int \<Rightarrow> string result" where
  "add_days service_date n =
     (case parse_service_date service_date of
        Inl e \<Rightarrow> Inl e
      | Inr (y, m, d) \<Rightarrow>
          Inr (format_date (civil_of_days (local_day utc (go_date y m (d + n) (12 * 3600) utc)))))"

definition hour_of_week :: "instant \<Rightarrow> location \<Rightarrow> int" where
  "hour_of_week t loc = (weekday (local_day loc t) + 6) mod 7 * 24 + local_hour loc t"

definition day_class :: "string \<Rightarrow> string result" where
  "day_class service_date =
     (case parse_service_date service_date of
        Inl e \<Rightarrow> Inl e
      | Inr (y, m, d) \<Rightarrow>
          (let wd = weekday (local_day utc (go_date y m d (12 * 3600) utc))
           in Inr (if wd = 6 then ''saturday'' else if wd = 0 then ''sunday'' else ''weekday'')))"

section \<open>Service dates\<close>

text \<open>The date string of a day number, and the day numbers whose year has four digits.\<close>

definition date_string :: "int \<Rightarrow> string" where
  "date_string n = format_date (civil_of_days n)"

definition four_digit_day :: "int \<Rightarrow> bool" where
  "four_digit_day n \<longleftrightarrow> days_before_year 0 \<le> n \<and> n < days_before_year 10000"

lemma civil_year_bounds:
  assumes "civil_of_days n = (y, m, d)" and "four_digit_day n"
  shows "0 \<le> y" "y \<le> 9999"
proof -
  obtain yd where "year_split n = (y, yd)"
    using assms(1) by (auto simp: civil_of_days_def Let_def split: prod.splits)
  from year_split [OF this] have le: "days_before_year y \<le> n" "n < days_before_year (y + 1)"
    by (auto simp: days_before_year_Suc)
  show "0 \<le> y"
    using days_before_year_mono [of "y + 1" 0] le assms(2) by (force simp: four_digit_day_def)
  show "y \<le> 9999"
    using days_before_year_mono [of 10000 y] le assms(2) by (force simp: four_digit_day_def)
qed

lemma scan_d_fmt_0d:
  assumes "0 < w" "0 \<le> n" "n < 10 ^ w" "w \<le> 18"
    and "length (fmt_0d w n) = w"
  shows "scan_d w (fmt_0d w n @ rest) = Some (n, rest)"
proof -
  have "n < 10 ^ 18"
    using assms(3,4) power_increasing [of w 18 "10 :: int"] by linarith
  then have rng: "in_range 64 (int (digits_val (fmt_0d w n)))"
    using assms(2) by (simp add: fmt_0d_val in_range_def)
  have dig: "list_all is_digit (fmt_0d w n)"
    using assms(2) fmt_0d_digits by (auto simp: list_all_iff)
  show ?thesis
    using scan_d_digits [of "fmt_0d w n" w rest] rng dig assms(2,5) by (simp add: fmt_0d_val)
qed

lemma parse_format_fields:
  assumes "0 \<le> y" "y \<le> 9999" and "1 \<le> m" "m \<le> 12" and "1 \<le> d" "d \<le> 31"
  shows "parse_service_date (format_date (y, m, d)) = Inr (y, m, d)"
proof -
  have len: "length (fmt_0d 4 y) = 4" "length (fmt_0d 2 m) = 2" "length (fmt_0d 2 d) = 2"
    using assms by (simp_all add: fmt_0d_length)
  have "scan_service_date (fmt_0d 4 y @ fmt_0d 2 m @ fmt_0d 2 d) = Some (y, m, d)"
    using assms len scan_d_fmt_0d [of 4 y "fmt_0d 2 m @ fmt_0d 2 d"]
      scan_d_fmt_0d [of 2 m "fmt_0d 2 d"] scan_d_fmt_0d [of 2 d "[]"]
    by (simp add: scan_service_date_def)
  then show ?thesis
    using assms len by (simp add: parse_service_date_def format_date_def append_int_fmt_0d)
qed

lemma parse_format_date:
  assumes "valid_civil y m d" and "0 \<le> y" "y \<le> 9999"
  shows "parse_service_date (format_date (y, m, d)) = Inr (y, m, d)"
proof (rule parse_format_fields [OF assms(2,3)])
  show "d \<le> 31" using assms(1) by (auto simp: valid_civil_def days_in_month_def split: if_splits)
qed (use assms(1) in \<open>auto simp: valid_civil_def\<close>)

lemma parse_date_string:
  assumes "four_digit_day n" and "civil_of_days n = (y, m, d)"
  shows "parse_service_date (date_string n) = Inr (y, m, d)"
  using parse_format_date [OF days_of_civil_inverse(2) [OF assms(2)]] civil_year_bounds [OF assms(2,1)]
  by (simp add: date_string_def assms(2))

lemma day_of_noon: "local_day utc (go_date y m d 43200 utc) = days_of_civil y m d"
  by (rule local_day_utc_date) simp_all

lemma days_of_civil_add: "days_of_civil y m (d + n) = days_of_civil y m d + n"
  by (simp add: days_of_civil_def)

lemma add_days_date_string:
  assumes "four_digit_day n"
  shows "add_days (date_string n) k = Inr (date_string (n + k))"
proof -
  obtain y m d where c: "civil_of_days n = (y, m, d)" by (cases "civil_of_days n")
  have "days_of_civil y m (d + k) = n + k"
    by (simp add: days_of_civil_add days_of_civil_inverse(1) [OF c])
  then show ?thesis
    unfolding add_days_def parse_date_string [OF assms c]
    by (simp add: day_of_noon date_string_def)
qed

lemma day_class_date_string:
  assumes "four_digit_day n"
  shows "day_class (date_string n) =
     Inr (if n mod 7 = 5 then ''saturday'' else if n mod 7 = 6 then ''sunday'' else ''weekday'')"
proof -
  obtain y m d where c: "civil_of_days n = (y, m, d)" by (cases "civil_of_days n")
  have w6: "weekday n = 6 \<longleftrightarrow> n mod 7 = 5" and w0: "weekday n = 0 \<longleftrightarrow> n mod 7 = 6"
    unfolding weekday_def by presburger+
  show ?thesis
    unfolding day_class_def parse_date_string [OF assms c]
    by (simp add: day_of_noon Let_def days_of_civil_inverse(1) [OF c] w6 w0)
qed

lemma digits_val_bound: "list_all is_digit ds \<Longrightarrow> digits_val ds < 10 ^ length ds"
proof (induction ds rule: rev_induct)
  case (snoc c ds)
  then have "digit_val c \<le> 9" "digits_val ds < 10 ^ length ds"
    by (auto simp: is_digit_def digit_val_def)
  then show ?case by simp
qed simp

lemma take_digits_length: "length (take_digits w s) \<le> w"
  by (induction w s rule: take_digits.induct) auto

lemma signed_val_bound:
  assumes "signed_val neg ds = Some v" and "length ds \<le> w"
  shows "\<bar>v\<bar> < 10 ^ w"
proof -
  have "\<bar>v\<bar> = int (digits_val ds)" "list_all is_digit ds"
    using assms(1) by (auto simp: signed_val_def Let_def split: if_splits)
  moreover have "digits_val ds < 10 ^ w"
    using digits_val_bound [of ds] \<open>list_all is_digit ds\<close> assms(2)
    by (meson order_less_le_trans power_increasing one_le_numeral)
  ultimately show ?thesis by simp
qed

lemma scan_d_bound: "scan_d w s = Some (v, rest) \<Longrightarrow> \<bar>v\<bar> < 10 ^ w"
proof -
  assume "scan_d w s = Some (v, rest)"
  then obtain neg u k where "signed_val neg (take_digits k u) = Some v" "k \<le> w"
    by (auto simp: scan_d_def Let_def split: option.splits if_splits)
  then show ?thesis using signed_val_bound take_digits_length le_trans by blast
qed

lemma parse_service_date_bounds:
  assumes "parse_service_date s = Inr (y, m, d)"
  shows "\<bar>y\<bar> \<le> 9999 \<and> 1 \<le> m \<and> m \<le> 12 \<and> 1 \<le> d \<and> d \<le> 31"
proof -
  have scan: "scan_service_date s = Some (y, m, d)" and b: "1 \<le> m \<and> m \<le> 12 \<and> 1 \<le> d \<and> d \<le> 31"
    using assms by (auto simp: parse_service_date_def split: if_splits option.splits)
  obtain r where "scan_d 4 s = Some (y, r)"
    using scan by (auto simp: scan_service_date_def split: option.splits prod.splits)
  then show ?thesis using b scan_d_bound [of 4 s y r] by auto
qed

section \<open>GTFS clock times\<close>

lemma div_less_60: "(p :: int) < 3600 \<Longrightarrow> p div 60 < 60"
  by simp

lemma scan_gtfs_time_fields:
  assumes "0 \<le> h" "h < 10 ^ 18" "0 \<le> m" "m < 60" "0 \<le> sec" "sec < 60"
  shows "scan_gtfs_time (fmt_0d 2 h @ CHR '':'' # fmt_0d 2 m @ CHR '':'' # fmt_0d 2 sec) = Some (h, m, sec)"
proof -
  have "length (nat_dec (nat h)) \<le> 18"
    using assms(1,2) by (intro nat_dec_length_le) (simp_all add: nat_less_iff)
  then have hl: "length (fmt_0d 2 h) \<le> huge_wid"
    using assms(1) by (simp add: fmt_0d_def huge_wid_def zeros_def)
  have hours: "scan_d huge_wid (fmt_0d 2 h @ CHR '':'' # r) = Some (h, CHR '':'' # r)" for r
    using scan_d_digits [of "fmt_0d 2 h" huge_wid "CHR '':'' # r"] hl assms(1,2) fmt_0d_digits
    by (simp add: fmt_0d_val list_all_iff in_range_def is_digit_def byte_def)
  have "length (fmt_0d 2 m) = 2" "length (fmt_0d 2 sec) = 2"
    using assms by (intro fmt_0d_length; simp)+
  then show ?thesis
    using assms scan_d_fmt_0d [of 2 m "CHR '':'' # fmt_0d 2 sec"] scan_d_fmt_0d [of 2 sec "[]"]
    by (simp add: scan_gtfs_time_def hours scan_lit_def)
qed

lemma parse_format_gtfs_time:
  assumes "0 \<le> n" and "n < 9223372036854775808"
  shows "parse_gtfs_time (format_gtfs_time n) = Inr n"
proof -
  define h m sec where "h = n div 3600" and "m = n mod 3600 div 60" and "sec = n mod 60"
  have fmt: "format_gtfs_time n = fmt_0d 2 h @ CHR '':'' # fmt_0d 2 m @ CHR '':'' # fmt_0d 2 sec"
    using assms(1) by (simp add: format_gtfs_time_def h_def m_def sec_def)
  have "h \<le> n div 10" unfolding h_def using assms(1) by (intro zdiv_mono2) simp_all
  moreover have "n div 10 \<le> 9223372036854775807 div 10" using assms(2) by (intro zdiv_mono1) simp_all
  ultimately have h: "0 \<le> h" "h < 10 ^ 18"
    using assms(1) by (simp_all add: h_def pos_imp_zdiv_nonneg_iff)
  have b: "0 \<le> m" "m < 60" "0 \<le> sec" "sec < 60"
    using assms(1) div_less_60 [of "n mod 3600"]
    by (simp_all add: m_def sec_def pos_imp_zdiv_nonneg_iff)
  have "n mod 60 = n mod 3600 mod 60" by (simp add: mod_mod_cancel)
  then have "m * 60 + sec = n mod 3600" by (simp add: m_def sec_def)
  then have sum: "h * 3600 + m * 60 + sec = n" by (simp add: add.assoc h_def)
  have "parse_gtfs_time (format_gtfs_time n) = Inr (wrap64 (h * 3600 + m * 60 + sec))"
    unfolding parse_gtfs_time_def fmt scan_gtfs_time_fields [OF h b] using h b by simp
  then show ?thesis
    unfolding sum using assms by (simp add: wrap64_id)
qed

lemma scan_d_Nil: "scan_d w [] = None"
  by (cases w) (simp_all add: scan_d_def skip_space.simps space_len_def signed_val_def Let_def)

lemma parse_gtfs_time_fields:
  assumes "scan_gtfs_time s = Some (h, m, sec)"
    and "0 \<le> h" "h < 2562047788015215" "0 \<le> m" "m \<le> 59" "0 \<le> sec" "sec \<le> 59"
  shows "parse_gtfs_time s = Inr (h * 3600 + m * 60 + sec)"
proof -
  have "s \<noteq> []"
    using assms(1) by (auto simp: scan_gtfs_time_def scan_d_Nil)
  then show ?thesis using assms by (simp add: parse_gtfs_time_def wrap64_id)
qed

section \<open>The noon-minus-12h origin\<close>

text \<open>
  Whether the instant that \<open>time.Date\<close> finds for noon does read 12:00 on the wall clock
  of the location: it does unless the zone skips noon that day.
\<close>

definition noon_of :: "int \<Rightarrow> location \<Rightarrow> instant" where
  "noon_of n loc = (case civil_of_days n of (y, m, d) \<Rightarrow> go_date y m d (12 * 3600) loc)"

definition noon_exists :: "int \<Rightarrow> location \<Rightarrow> bool" where
  "noon_exists n loc \<longleftrightarrow> local_secs loc (noon_of n loc) = n * 86400 + 43200"

definition small_offsets :: "location \<Rightarrow> bool" where
  "small_offsets loc \<longleftrightarrow> \<bar>loc_base loc\<bar> \<le> 172800 \<and> list_all (\<lambda>(w, off). \<bar>off\<bar> \<le> 172800) (loc_txs loc)"

lemma zone_at_offset:
  "\<bar>off\<bar> \<le> b \<Longrightarrow> list_all (\<lambda>(w, o'). \<bar>o'\<bar> \<le> b) txs \<Longrightarrow> \<bar>fst (zone_at off st txs s)\<bar> \<le> b"
  by (induction off st txs s rule: zone_at.induct) auto

lemma offset_at_small: "small_offsets loc \<Longrightarrow> \<bar>offset_at loc s\<bar> \<le> 172800"
  by (simp add: offset_at_def zone_lookup_def small_offsets_def zone_at_offset)

lemma go_date_second: "go_date y m d secs loc mod second = 0"
  by (auto simp: go_date_def Let_def split: prod.splits)

lemma go_date_bounds:
  assumes "small_offsets loc"
  shows "\<bar>go_date y m d secs loc - (days_of_civil y m d * 86400 + secs) * second\<bar> \<le> 172800 * second"
proof -
  define u where "u = days_of_civil y m d * 86400 + secs - unix_to_internal"
  obtain off start stop where z: "zone_lookup loc u = (off, start, stop)" by (metis prod_cases3)
  define off' where "off' = (if off = 0 then 0
    else if u - off < start \<or> stop \<le> u - off then offset_at loc (u - off) else off)"
  have "\<bar>off\<bar> \<le> 172800"
    using offset_at_small [OF assms, of u] by (simp add: offset_at_def z)
  then have o: "\<bar>off'\<bar> \<le> 172800"
    using offset_at_small [OF assms, of "u - off"] by (simp add: off'_def)
  have "go_date y m d secs loc = (u - off' + unix_to_internal) * second"
    unfolding go_date_def u_def [symmetric] Let_def z prod.case off'_def ..
  then have "go_date y m d secs loc - (days_of_civil y m d * 86400 + secs) * second = (- off') * second"
    by (simp add: u_def algebra_simps)
  then show ?thesis using o by (simp add: abs_mult second_def)
qed

lemma four_digit_day_bound: "four_digit_day n \<Longrightarrow> \<bar>n\<bar> \<le> 4000000"
  by (simp add: four_digit_day_def days_before_year_def abs_le_iff)

lemma noon_of_bounds:
  assumes "small_offsets loc" and "four_digit_day n"
  shows "\<bar>noon_of n loc\<bar> \<le> 400000000000 * second"
proof -
  obtain y m d where c: "civil_of_days n = (y, m, d)" by (cases "civil_of_days n")
  have "\<bar>noon_of n loc - (n * 86400 + 43200) * second\<bar> \<le> 172800 * second"
    using go_date_bounds [OF assms(1), of y m d 43200] days_of_civil_inverse(1) [OF c]
    by (simp add: noon_of_def c)
  then show ?thesis
    using four_digit_day_bound [OF assms(2)] by (simp add: abs_le_iff second_def)
qed

lemma noon_minus12_date_string:
  assumes "four_digit_day n" and "small_offsets loc"
  shows "noon_minus12 (date_string n) loc = Inr (noon_of n loc - 43200 * second)"
proof -
  obtain y m d where c: "civil_of_days n = (y, m, d)" by (cases "civil_of_days n")
  have "\<bar>noon_of n loc + - (12 * hour)\<bar> \<le> 9223372036854775806 * second"
    using noon_of_bounds [OF assms(2,1)]
    by (simp add: hour_def minute_def abs_le_iff second_def)
  then have "go_add (noon_of n loc) (- 12 * hour) = noon_of n loc - 43200 * second"
    by (subst go_add_sane) (simp_all add: hour_def minute_def)
  then show ?thesis
    by (simp add: noon_minus12_def parse_date_string [OF assms(1) c] noon_of_def c)
qed

lemma scheduled_time_date_string:
  assumes "four_digit_day n" and "small_offsets loc" and "\<bar>secs\<bar> \<le> 4000000000"
  shows "scheduled_time (date_string n) secs loc = Inr (noon_of n loc + (secs - 43200) * second)"
proof -
  have "go_add (noon_of n loc - 43200 * second) (secs * second)
      = noon_of n loc - 43200 * second + secs * second"
    using noon_of_bounds [OF assms(2,1)] assms(3)
    by (intro go_add_sane) (simp add: abs_le_iff second_def)
  then show ?thesis
    using assms(3)
    by (simp add: scheduled_time_def noon_minus12_date_string [OF assms(1,2)] secs_dur_small
        algebra_simps)
qed

lemma scheduled_wall_clock:
  assumes "four_digit_day n" and "small_offsets loc" and "\<bar>secs\<bar> \<le> 4000000000"
    and "noon_exists n loc"
    and "scheduled_time (date_string n) secs loc = Inr t"
    and "offset_at loc (t div second - unix_to_internal)
      = offset_at loc (noon_of n loc div second - unix_to_internal)"
  shows "local_secs loc t = n * 86400 + secs"
proof -
  have t: "t = noon_of n loc + (secs - 43200) * second"
    using scheduled_time_date_string [OF assms(1-3)] assms(5) by simp
  have "t div second = noon_of n loc div second + (secs - 43200)"
    by (simp add: t second_def)
  then show ?thesis
    using assms(4,6) by (simp add: local_secs_def noon_exists_def)
qed

text \<open>No scheduled time of a service date the program accepts comes near an overflow.\<close>

lemma days_of_civil_bound:
  assumes "\<bar>y\<bar> \<le> 9999" and "1 \<le> m" "m \<le> 12" "1 \<le> d" "d \<le> 31"
  shows "\<bar>days_of_civil y m d\<bar> \<le> 4000000"
proof -
  have "days_before_year (- 9999) \<le> days_before_year y" "days_before_year y \<le> days_before_year 9999"
    using assms(1) by (auto intro!: days_before_year_mono)
  moreover have "0 \<le> days_before_month (leap y) m" "days_before_month (leap y) m \<le> 366"
    using days_in_month_fit(1) [OF assms(2,3), of y] days_in_month_fit(2) [of "leap y" m]
    by (auto simp: days_in_month_def split: if_splits)
  ultimately show ?thesis
    using assms(4,5) by (simp add: days_of_civil_def days_before_year_def [of "- 9999"]
        days_before_year_def [of 9999] abs_le_iff)
qed

lemma noon_minus12_sane:
  assumes "noon_minus12 s loc = Inr t" and "small_offsets loc"
  shows "\<bar>t\<bar> \<le> 400000000000 * second"
proof -
  obtain y m d where p: "parse_service_date s = Inr (y, m, d)"
    and t: "t = go_add (go_date y m d 43200 loc) (- 12 * hour)"
    using assms(1) by (auto simp: noon_minus12_def split: sum.splits)
  have "\<bar>days_of_civil y m d\<bar> \<le> 4000000"
    using parse_service_date_bounds [OF p] by (intro days_of_civil_bound) auto
  then have b: "\<bar>go_date y m d 43200 loc\<bar> \<le> 346000000000 * second"
    using go_date_bounds [OF assms(2), of y m d 43200] by (simp add: abs_le_iff second_def)
  then have "t = go_date y m d 43200 loc - 12 * hour"
    unfolding t by (subst go_add_sane) (auto simp: hour_def minute_def second_def abs_le_iff)
  then show ?thesis using b by (simp add: hour_def minute_def second_def abs_le_iff)
qed

lemma scheduled_time_sane:
  assumes "scheduled_time s secs loc = Inr t" and "small_offsets loc" and "\<bar>secs\<bar> \<le> 4000000000"
  shows "\<bar>t\<bar> \<le> 500000000000 * second"
proof -
  obtain b where b: "noon_minus12 s loc = Inr b" and t: "t = go_add b (secs_dur secs)"
    using assms(1) by (auto simp: scheduled_time_def split: sum.splits)
  have "t = b + secs * second"
    unfolding t using noon_minus12_sane [OF b assms(2)] assms(3)
    by (subst go_add_sane) (auto simp: secs_dur_small abs_le_iff second_def)
  then show ?thesis
    using noon_minus12_sane [OF b assms(2)] assms(3) by (simp add: abs_le_iff second_def)
qed

section \<open>The hour of the week\<close>

lemma week_hours: "(s :: int) div 86400 mod 7 * 24 + s mod 86400 div 3600 = s div 3600 mod 168"
proof -
  have "s div 86400 = s div 3600 div 24"
    using zdiv_zmult2_eq [of 24 s 3600] by simp
  moreover have "s mod 86400 = 3600 * (s div 3600 mod 24) + s mod 3600"
    using mod_mult2_eq' [of s 3600 24] zmod_zmult2_eq [of 24 s 3600] by simp
  then have "s mod 86400 div 3600 = s div 3600 mod 24"
    by (intro int_div_pos_eq [where r = "s mod 3600"]) simp_all
  moreover have "s div 3600 mod 168 = 24 * (s div 3600 div 24 mod 7) + s div 3600 mod 24"
    using zmod_zmult2_eq [of 7 "s div 3600" 24] by simp
  ultimately show ?thesis by simp
qed

lemma hour_of_week_count: "hour_of_week t loc = local_secs loc t div 3600 mod 168"
proof -
  have "(weekday k + 6) mod 7 = k mod 7" for k
    unfolding weekday_def by presburger
  then have "hour_of_week t loc = local_secs loc t div 86400 mod 7 * 24 + local_secs loc t mod 86400 div 3600"
    by (simp add: hour_of_week_def local_day_def local_hour_def)
  also have "\<dots> = local_secs loc t div 3600 mod 168"
    by (rule week_hours)
  finally show ?thesis .
qed


section \<open>Properties\<close>

text \<open>A location with the daylight-saving changes of New York in 2026.\<close>

definition sample_new_york :: location where
  "sample_new_york = \<lparr>loc_base = - 18000, loc_txs = [(1772953200, - 14400), (1793512800, - 18000)]\<rparr>"



text \<open>
  Day arithmetic on service dates. \<open>AddDays\<close> moves a service date by exactly that many
  days across months, years and leap days, and moving back returns the same date.
\<close>

theorem add_days_moves:
  assumes "four_digit_day n" and "four_digit_day (n + k)"
  shows "add_days (date_string n) k = Inr (date_string (n + k)) \<and>
    add_days (date_string (n + k)) (- k) = Inr (date_string n)"
  using add_days_date_string [OF assms(1), of k] add_days_date_string [OF assms(2), of "- k"] by simp

text \<open>
  GTFS clock times survive printing and parsing, past midnight and beyond any number of
  hours an \<open>int\<close> holds.
\<close>

theorem gtfs_time_round_trip:
  assumes "0 \<le> n" and "n < 9223372036854775808"
  shows "parse_gtfs_time (format_gtfs_time n) = Inr n"
  by (rule parse_format_gtfs_time [OF assms])

theorem gtfs_time_round_trip_witness: "format_gtfs_time 91800 = ''25:30:00'' \<and> parse_gtfs_time ''25:30:00'' = Inr 91800"
proof -
  have f: "format_gtfs_time 91800 = ''25:30:00''" by code_simp
  from gtfs_time_round_trip [of 91800] f show ?thesis by simp
qed

text \<open>
  The hour of the week counts hours. It is the number of whole local hours since a
  Monday midnight modulo the 168 hours of a week, hence from 0 (Monday 00:00) to 167.
\<close>

theorem hour_of_week_hours:
  "hour_of_week t loc = local_secs loc t div 3600 mod 168 \<and> 0 \<le> hour_of_week t loc \<and> hour_of_week t loc < 168"
  by (simp add: hour_of_week_count)

text \<open>
  The day class of a service date is that of its weekday: Saturday and Sunday are their
  own classes, every other day is a weekday.
\<close>

theorem day_class_weekday:
  assumes "four_digit_day n"
  shows "day_class (date_string n) =
     Inr (if n mod 7 = 5 then ''saturday'' else if n mod 7 = 6 then ''sunday'' else ''weekday'')"
  by (rule day_class_date_string [OF assms])

end
