(* ===== verification/Domain_Types.thy ===== *)
theory Domain_Types
  imports Gtfs_Time "HOL-Library.Word"
begin

text \<open>
  \<open>internal/domain/domain.go\<close>, \<open>interfaces.go\<close> and the counters of
  \<open>internal/metrics/metrics.go\<close>: the records that flow between the components, the
  natural key of a stop event, and the interfaces of the schedule reader and the event
  store as records of functions, as a Go interface value carries its methods.

  Go integers are \<open>int\<close>, with the range of their type stated where it matters; floats
  are their IEEE bit patterns; \<open>*int\<close> is \<open>int option\<close>; a \<open>time.Time\<close> is an
  instant, the zero time meaning unknown.
\<close>

section \<open>Feeds and snapshots\<close>

type_synonym feed = string

definition feed_vehicle_positions :: feed where
  "feed_vehicle_positions = ''vehicle_positions''"

definition feed_trip_updates :: feed where
  "feed_trip_updates = ''trip_updates''"

lemma feeds_differ [simp]: "feed_trip_updates \<noteq> feed_vehicle_positions"
  "feed_vehicle_positions \<noteq> feed_trip_updates"
  by (simp_all add: feed_trip_updates_def feed_vehicle_positions_def)

record stop_time_update =
  stu_stop_sequence :: int
  stu_stop_id :: string
  stu_arrival_time :: int
  stu_arrival_delay :: int
  stu_arrival_delay_set :: bool
  stu_departure_time :: int
  stu_departure_delay :: int
  stu_departure_delay_set :: bool
  stu_relationship :: string

record trip_update =
  tu_trip_id :: string
  tu_route_id :: string
  tu_direction_id :: int
  tu_start_date :: string
  tu_start_time :: string
  tu_schedule_relationship :: string
  tu_vehicle_id :: string
  tu_timestamp :: int
  tu_delay_secs :: int
  tu_delay_set :: bool
  tu_stop_time_updates :: "stop_time_update list"

record vehicle_position =
  vp_vehicle_id :: string
  vp_label :: string
  vp_trip_id :: string
  vp_route_id :: string
  vp_start_date :: string
  vp_lat :: "64 word"
  vp_lon :: "64 word"
  vp_bearing :: "32 word"
  vp_speed_mps :: "32 word"
  vp_stop_sequence :: int
  vp_stop_id :: string
  vp_status :: string
  vp_timestamp :: int

record snapshot =
  sn_feed :: feed
  sn_polled_at :: instant
  sn_feed_timestamp :: int
  sn_raw_sha256 :: string
  sn_raw_path :: string
  sn_trip_updates :: "trip_update list"
  sn_vehicles :: "vehicle_position list"

section \<open>Stop events\<close>

record stop_event =
  se_service_date :: string
  se_trip_id :: string
  se_start_time :: string
  se_stop_sequence :: int
  se_stop_id :: string
  se_route_id :: string
  se_direction_id :: int
  se_schedule_version_id :: int
  se_vehicle_id :: string
  se_headsign :: string
  se_scheduled_arrival :: instant
  se_predicted_arrival :: instant
  se_actual_arrival :: instant
  se_delay_secs :: "int option"
  se_final :: bool
  se_skipped :: bool
  se_feed_timestamp :: int
  se_observed_at :: instant

datatype event_key = Event_key
  (ek_service_date: string) (ek_trip_id: string) (ek_start_time: string) (ek_stop_sequence: int)

definition event_key_of :: "stop_event \<Rightarrow> event_key" where
  "event_key_of e =
     Event_key (se_service_date e) (se_trip_id e) (se_start_time e) (se_stop_sequence e)"

section \<open>The static schedule\<close>

record schedule_version =
  sv_id :: int
  sv_sha256 :: string
  sv_feed_version :: string
  sv_agency_tz :: string
  sv_fetched_at :: instant
  sv_loaded_at :: instant
  sv_active :: bool

record scheduled_stop =
  ss_stop_sequence :: int
  ss_stop_id :: string
  ss_arrival_secs :: int
  ss_departure_secs :: int

record trip_schedule =
  ts_trip_id :: string
  ts_route_id :: string
  ts_service_id :: string
  ts_direction_id :: int
  ts_headsign :: string
  ts_stops :: "scheduled_stop list"

definition best_secs :: "scheduled_stop \<Rightarrow> int" where
  "best_secs s = (if ss_arrival_secs s \<ge> 0 then ss_arrival_secs s else ss_departure_secs s)"

text \<open>The trips the schedule store returns: stops ordered by strictly ascending sequence.\<close>

definition schedule_wf :: "trip_schedule \<Rightarrow> bool" where
  "schedule_wf ts \<longleftrightarrow> sorted_wrt (<) (map ss_stop_sequence (ts_stops ts))"

text \<open>
  The rows of a static feed, as the loader writes them and the read queries return them.
\<close>

record route =
  rou_route_id :: string
  rou_short_name :: string
  rou_long_name :: string
  rou_route_type :: int
  rou_color :: string
  rou_text_color :: string
  rou_sort_order :: int

record stop =
  sto_stop_id :: string
  sto_name :: string
  sto_lat :: "64 word"
  sto_lon :: "64 word"
  sto_parent_station :: string
  sto_location_type :: int
  sto_platform_code :: string

record trip =
  tri_trip_id :: string
  tri_route_id :: string
  tri_service_id :: string
  tri_headsign :: string
  tri_direction_id :: int
  tri_shape_id :: string

record stop_time =
  stt_trip_id :: string
  stt_stop_sequence :: int
  stt_stop_id :: string
  stt_arrival_secs :: int
  stt_departure_secs :: int

record calendar_entry =
  cal_service_id :: string
  cal_weekdays :: "bool list"
  cal_start_date :: string
  cal_end_date :: string

record calendar_date =
  cad_service_id :: string
  cad_date :: string
  cad_exception_type :: int

record live_vehicle =
  lv_position :: vehicle_position
  lv_route_short_name :: string
  lv_headsign :: string
  lv_delay_secs :: "int option"
  lv_updated_at :: instant

record subscription =
  sub_id :: int
  sub_endpoint :: string
  sub_p256dh :: string
  sub_auth :: string
  sub_stop_id :: string
  sub_route_id :: string
  sub_direction_id :: int
  sub_threshold_secs :: int
  sub_created_at :: instant
  sub_failure_count :: int

text \<open>The rows of the rollups, and how few observations are not shown.\<close>

record hourly_stat =
  hs_route_id :: string
  hs_stop_id :: string
  hs_direction_id :: int
  hs_hour_of_week :: int
  hs_n :: int
  hs_p50_delay_secs :: "int option"
  hs_p90_delay_secs :: "int option"
  hs_late5_pct :: "32 word"
  hs_early_pct :: "32 word"

record departure_stat =
  ds_route_id :: string
  ds_stop_id :: string
  ds_direction_id :: int
  ds_scheduled_secs :: int
  ds_day_class :: string
  ds_n :: int
  ds_p50_delay_secs :: "int option"
  ds_p90_delay_secs :: "int option"
  ds_late5_pct :: "32 word"

definition min_observations :: int where
  "min_observations = 10"

section \<open>Metrics\<close>

text \<open>The collectors of the package, as one global record. A labelled collector is the list
  of its labels, with the values observed or set, the latest first.\<close>

record metrics =
  mt_unmatched_trips :: int
  mt_stop_events_upserted :: int
  mt_stop_events_finalized :: int
  mt_vehicle_positions_written :: int
  mt_active_vehicles :: int
  mt_ingest_lag :: "(feed \<times> duration) list"
  mt_polls :: "(feed \<times> string) list"
  mt_feed_staleness :: "(feed \<times> duration) list"
  mt_push_sent :: "string list"
  mt_raw_archive_bytes :: int
  mt_schedule_loads :: "string list"
  mt_schedule_version_age :: "duration list"
  mt_rollup_runs :: "string list"

text \<open>
  The state outside a component: that of its stores and the metrics. Every operation of an
  interface takes it and returns it updated.
\<close>

record 's sys =
  sys_store :: 's
  sys_metrics :: metrics

definition on_metrics :: "(metrics \<Rightarrow> metrics) \<Rightarrow> 's sys \<Rightarrow> 's sys" where
  "on_metrics f w = w\<lparr>sys_metrics := f (sys_metrics w)\<rparr>"

abbreviation inc_unmatched :: "'s sys \<Rightarrow> 's sys" where
  "inc_unmatched \<equiv> on_metrics (\<lambda>m. m\<lparr>mt_unmatched_trips := mt_unmatched_trips m + 1\<rparr>)"

lemma sys_store_on_metrics [simp]: "sys_store (on_metrics f w) = sys_store w"
  by (simp add: on_metrics_def)

lemma sys_metrics_on_metrics [simp]: "sys_metrics (on_metrics f w) = f (sys_metrics w)"
  by (simp add: on_metrics_def)

section \<open>Interfaces\<close>

text \<open>\<open>ScheduleRepo\<close> and \<open>EventStore\<close>: the methods of an interface value.\<close>

record 's schedule_repo =
  sr_active_version :: "'s sys \<Rightarrow> schedule_version result \<times> 's sys"
  sr_trip_schedule :: "int \<Rightarrow> string \<Rightarrow> 's sys \<Rightarrow> trip_schedule result \<times> 's sys"

record 's event_store =
  es_upsert :: "stop_event list \<Rightarrow> 's sys \<Rightarrow> (int \<times> go_error option) \<times> 's sys"
  es_insert_positions :: "vehicle_position list \<Rightarrow> 's sys \<Rightarrow> (int \<times> go_error option) \<times> 's sys"
  es_finalize_due :: "instant \<Rightarrow> duration \<Rightarrow> 's sys \<Rightarrow> (int \<times> go_error option) \<times> 's sys"

text \<open>
  \<open>RawArchive\<close>, \<open>ScheduleWriter\<close>, \<open>SubscriptionStore\<close>, \<open>LiveSource\<close> and
  \<open>StopQueries\<close>. A writer's methods return its own
  state updated.
\<close>

record 's raw_archive =
  ra_record_raw_poll ::
    "feed \<Rightarrow> instant \<Rightarrow> int \<Rightarrow> string \<Rightarrow> string \<Rightarrow> int \<Rightarrow> int \<Rightarrow> 's sys \<Rightarrow> go_error option \<times> 's sys"
  ra_last_sha :: "feed \<Rightarrow> 's sys \<Rightarrow> string result \<times> 's sys"

record 'l schedule_writer =
  sw_meta :: "string \<Rightarrow> string \<Rightarrow> 'l \<Rightarrow> go_error option \<times> 'l"
  sw_route :: "route \<Rightarrow> 'l \<Rightarrow> go_error option \<times> 'l"
  sw_stop :: "stop \<Rightarrow> 'l \<Rightarrow> go_error option \<times> 'l"
  sw_trip :: "trip \<Rightarrow> 'l \<Rightarrow> go_error option \<times> 'l"
  sw_stop_time :: "stop_time \<Rightarrow> 'l \<Rightarrow> go_error option \<times> 'l"
  sw_calendar :: "calendar_entry \<Rightarrow> 'l \<Rightarrow> go_error option \<times> 'l"
  sw_calendar_date :: "calendar_date \<Rightarrow> 'l \<Rightarrow> go_error option \<times> 'l"

text \<open>The calls of a writer as data.\<close>

datatype load_call =
    Call_meta string string
  | Call_route route
  | Call_stop stop
  | Call_trip trip
  | Call_stop_time stop_time
  | Call_calendar calendar_entry
  | Call_calendar_date calendar_date

primrec writer_call :: "'l schedule_writer \<Rightarrow> load_call \<Rightarrow> 'l \<Rightarrow> go_error option \<times> 'l" where
  "writer_call sw (Call_meta fv tz) = sw_meta sw fv tz"
| "writer_call sw (Call_route r) = sw_route sw r"
| "writer_call sw (Call_stop s) = sw_stop sw s"
| "writer_call sw (Call_trip t) = sw_trip sw t"
| "writer_call sw (Call_stop_time s) = sw_stop_time sw s"
| "writer_call sw (Call_calendar c) = sw_calendar sw c"
| "writer_call sw (Call_calendar_date c) = sw_calendar_date sw c"

record 's subscription_store =
  ss_save :: "subscription \<Rightarrow> 's sys \<Rightarrow> int result \<times> 's sys"
  ss_delete :: "string \<Rightarrow> 's sys \<Rightarrow> go_error option \<times> 's sys"
  ss_all :: "'s sys \<Rightarrow> subscription list result \<times> 's sys"
  ss_mark_sent :: "int \<Rightarrow> event_key \<Rightarrow> 's sys \<Rightarrow> bool result \<times> 's sys"
  ss_record_result :: "int \<Rightarrow> bool \<Rightarrow> bool \<Rightarrow> 's sys \<Rightarrow> go_error option \<times> 's sys"

record 's live_source =
  ls_live_vehicles :: "'s sys \<Rightarrow> live_vehicle list"
  ls_upcoming :: "string \<Rightarrow> duration \<Rightarrow> 's sys \<Rightarrow> stop_event list"
  ls_feed_age :: "feed \<Rightarrow> 's sys \<Rightarrow> duration option"

record 's stop_queries =
  sq_search_stops :: "string \<Rightarrow> int \<Rightarrow> 's sys \<Rightarrow> stop list result \<times> 's sys"
  sq_stops_in_bbox :: "64 word \<Rightarrow> 64 word \<Rightarrow> 64 word \<Rightarrow> 64 word \<Rightarrow> int \<Rightarrow> 's sys \<Rightarrow> stop list result \<times> 's sys"
  sq_stop :: "string \<Rightarrow> 's sys \<Rightarrow> stop result \<times> 's sys"
  sq_routes :: "'s sys \<Rightarrow> route list result \<times> 's sys"
  sq_route :: "string \<Rightarrow> 's sys \<Rightarrow> route result \<times> 's sys"
  sq_routes_serving_stop :: "string \<Rightarrow> 's sys \<Rightarrow> route list result \<times> 's sys"
  sq_stop_hourly :: "string \<Rightarrow> 's sys \<Rightarrow> hourly_stat list result \<times> 's sys"
  sq_stop_departures :: "string \<Rightarrow> 's sys \<Rightarrow> departure_stat list result \<times> 's sys"
  sq_route_hourly :: "string \<Rightarrow> 's sys \<Rightarrow> hourly_stat list result \<times> 's sys"
  sq_recent_stop_events :: "string \<Rightarrow> int \<Rightarrow> 's sys \<Rightarrow> stop_event list result \<times> 's sys"

definition err_not_found :: go_error where
  "err_not_found = Sentinel Not_found"

lemma is_not_found [simp]: "errors_is err_not_found Not_found"
  by (simp add: err_not_found_def)

end
