(* ===== verification/Database.thy ===== *)
theory Database
  imports Domain_Types
begin

text \<open>
  The state of \<open>internal/store\<close>: the tables of \<open>db/migrations/0001_init.sql\<close> that the
  modelled statements touch, as association lists from their primary key (a row's position
  is the physical order, which no statement relies on), and the \<open>Store\<close> with its
  in-process trip cache.

  The database answers every call as SQL says or fails. Failures are a stream of faults,
  one entry per call: \<open>Fault i e c\<close> fails statement \<open>i\<close> of a batch with error \<open>e\<close>; with
  \<open>i\<close> past the end of the batch the statements ran and the reply was lost, and \<open>c\<close> says
  whether they were committed. Every statement about all streams is about every pattern of
  failures. Timestamps are kept at Go's precision (Postgres keeps microseconds), \<open>DATE\<close>
  values are day numbers.
\<close>

datatype fault = Fault nat go_error bool

type_synonym row_key = "int \<times> string \<times> string \<times> int"

record stop_event_row =
  re_stop_id :: string
  re_route_id :: string
  re_direction_id :: int
  re_schedule_version_id :: int
  re_vehicle_id :: string
  re_scheduled_arrival :: "instant option"
  re_predicted_arrival :: "instant option"
  re_actual_arrival :: "instant option"
  re_delay_secs :: "int option"
  re_final :: bool
  re_skipped :: bool
  re_feed_timestamp :: int
  re_first_seen :: instant
  re_last_updated :: instant
  re_update_count :: int

record position_row =
  rp_trip_id :: string
  rp_route_id :: string
  rp_lat :: "64 word"
  rp_lon :: "64 word"
  rp_bearing :: "32 word option"
  rp_speed_mps :: "32 word option"
  rp_stop_sequence :: "int option"
  rp_status :: string

record version_row =
  rv_sha256 :: string
  rv_feed_version :: string
  rv_agency_tz :: string
  rv_fetched_at :: instant
  rv_loaded_at :: "instant option"
  rv_active :: bool

record trip_row =
  rt_route_id :: string
  rt_service_id :: string
  rt_headsign :: string
  rt_direction_id :: int
  rt_shape_id :: string

record stop_time_row =
  rs_stop_id :: string
  rs_arrival_secs :: int
  rs_departure_secs :: int

record route_row =
  rw_short_name :: string
  rw_long_name :: string
  rw_route_type :: int
  rw_color :: string
  rw_text_color :: string
  rw_sort_order :: "int option"

record stop_row =
  ro_name :: string
  ro_lat :: "64 word option"
  ro_lon :: "64 word option"
  ro_parent_station :: string
  ro_location_type :: int
  ro_platform_code :: string

record calendar_row =
  rc_weekdays :: "bool list"
  rc_start_date :: int
  rc_end_date :: int

record stat_row =
  rx_n :: int
  rx_p50_delay_secs :: "int option"
  rx_p90_delay_secs :: "int option"
  rx_late5_pct :: "32 word"
  rx_early_pct :: "32 word"

record raw_poll_row =
  rr_feed :: feed
  rr_polled_at :: instant
  rr_feed_timestamp :: "int option"
  rr_sha256 :: string
  rr_path :: string
  rr_bytes :: int
  rr_entity_count :: int

record subscription_row =
  rb_endpoint :: string
  rb_p256dh :: string
  rb_auth :: string
  rb_stop_id :: string
  rb_route_id :: string
  rb_direction_id :: int
  rb_threshold_secs :: int
  rb_created_at :: instant
  rb_last_success :: "instant option"
  rb_failure_count :: int

record db =
  db_stop_events :: "(row_key \<times> stop_event_row) list"
  db_positions :: "((string \<times> instant) \<times> position_row) list"
  db_versions :: "(int \<times> version_row) list"
  db_trips :: "((int \<times> string) \<times> trip_row) list"
  db_stop_times :: "((int \<times> string \<times> int) \<times> stop_time_row) list"
  db_raw_polls :: "(int \<times> raw_poll_row) list"
  db_subscriptions :: "(int \<times> subscription_row) list"
  db_push_sent :: "(int \<times> row_key) list"
  db_routes :: "((int \<times> string) \<times> route_row) list"
  db_stops :: "((int \<times> string) \<times> stop_row) list"
  db_calendar :: "((int \<times> string) \<times> calendar_row) list"
  db_calendar_dates :: "((int \<times> string \<times> int) \<times> int) list"
  db_stop_hour :: "((string \<times> string \<times> int \<times> int) \<times> stat_row) list"
  db_departure :: "((string \<times> string \<times> int \<times> int \<times> string) \<times> stat_row) list"
  db_route_hour :: "((string \<times> int \<times> int) \<times> stat_row) list"
  db_partitions :: "((string \<times> string) \<times> int \<times> int) list"
  db_loose_tables :: "string list"
  db_migrations :: "int list"
  db_version_seq :: int
  db_poll_seq :: int
  db_subscription_seq :: int
  db_clock :: instant
  db_faults :: "fault option list"

record store =
  st_db :: db
  st_trip_cache :: "(string \<times> trip_schedule) list"
  st_trip_cache_version :: int
  st_evictions :: "nat list"

definition on_db :: "(db \<Rightarrow> db) \<Rightarrow> store sys \<Rightarrow> store sys" where
  "on_db f w = w\<lparr>sys_store := (sys_store w)\<lparr>st_db := f (st_db (sys_store w))\<rparr>\<rparr>"

abbreviation sys_db :: "store sys \<Rightarrow> db" where
  "sys_db w \<equiv> st_db (sys_store w)"

lemma on_db_simps [simp]:
  "sys_db (on_db f w) = f (sys_db w)" "sys_metrics (on_db f w) = sys_metrics w"
  "st_trip_cache (sys_store (on_db f w)) = st_trip_cache (sys_store w)"
  "st_trip_cache_version (sys_store (on_db f w)) = st_trip_cache_version (sys_store w)"
  by (simp_all add: on_db_def)

text \<open>The fault of the next call, if it has one.\<close>

definition next_fault :: "db \<Rightarrow> fault option" where
  "next_fault d = (case db_faults d of [] \<Rightarrow> None | f # _ \<Rightarrow> f)"

abbreviation drop_fault :: "db \<Rightarrow> db" where
  "drop_fault d \<equiv> d\<lparr>db_faults := tl (db_faults d)\<rparr>"

text \<open>
  \<open>pool.Exec\<close> of one statement: the effect on the tables with the rows affected, or the
  error.
\<close>

definition db_exec :: "(db \<Rightarrow> db \<times> int) \<Rightarrow> store sys \<Rightarrow> int result \<times> store sys" where
  "db_exec stmt w =
     (case next_fault (sys_db w) of
        None \<Rightarrow> (Inr (snd (stmt (sys_db w))), on_db (\<lambda>d. drop_fault (fst (stmt d))) w)
      | Some (Fault i e committed) \<Rightarrow>
          (Inl e, on_db (\<lambda>d. drop_fault (if 0 < i \<and> committed then fst (stmt d) else d)) w))"

text \<open>
  \<open>pool.QueryRow\<close> of a statement that writes and returns a value, or is rejected by a
  constraint and then changes nothing.
\<close>

definition db_run :: "(db \<Rightarrow> (db \<times> 'a) result) \<Rightarrow> store sys \<Rightarrow> 'a result \<times> store sys" where
  "db_run stmt w =
     (let effect = (\<lambda>d. case stmt d of Inl e \<Rightarrow> d | Inr (d', x) \<Rightarrow> d') in
      case next_fault (sys_db w) of
        None \<Rightarrow> ((case stmt (sys_db w) of Inl e \<Rightarrow> Inl e | Inr (d', x) \<Rightarrow> Inr x),
                 on_db (\<lambda>d. drop_fault (effect d)) w)
      | Some (Fault i e committed) \<Rightarrow>
          (Inl e, on_db (\<lambda>d. drop_fault (if 0 < i \<and> committed then effect d else d)) w))"

text \<open>\<open>pool.Query\<close> reads and changes nothing.\<close>

definition db_query :: "(db \<Rightarrow> 'a) \<Rightarrow> store sys \<Rightarrow> 'a result \<times> store sys" where
  "db_query q w =
     (case next_fault (sys_db w) of
        None \<Rightarrow> (Inr (q (sys_db w)), on_db drop_fault w)
      | Some (Fault i e committed) \<Rightarrow> (Inl e, on_db drop_fault w))"

text \<open>
  \<open>pool.SendBatch\<close>: one implicit transaction. The statements run in order; the first
  failure rolls all of them back. The result is what \<open>execBatch\<close> returns: the rows
  affected by the statements before the failure, and the error.
\<close>

fun run_batch :: "('a \<Rightarrow> 't \<Rightarrow> 't \<times> int) \<Rightarrow> 'a list \<Rightarrow> 't \<Rightarrow> 't \<times> int" where
  "run_batch stmt [] t = (t, 0)"
| "run_batch stmt (x # xs) t =
     (let (t1, n) = stmt x t; (t2, m) = run_batch stmt xs t1 in (t2, n + m))"

definition exec_batch :: "('a \<Rightarrow> 't \<Rightarrow> 't \<times> int) \<Rightarrow> 'a list \<Rightarrow> fault option \<Rightarrow> 't \<Rightarrow>
    't \<times> int \<times> go_error option" where
  "exec_batch stmt xs f t =
     (case f of
        None \<Rightarrow> (case run_batch stmt xs t of (t', n) \<Rightarrow> (t', n, None))
      | Some (Fault i e committed) \<Rightarrow>
          (if i < length xs then (t, snd (run_batch stmt (take i xs) t), Some e)
           else case run_batch stmt xs t of (t', n) \<Rightarrow> (if committed then t' else t, n, Some e)))"

lemma run_batch_append:
  "run_batch stmt (xs @ ys) t =
     (case run_batch stmt xs t of (t1, n) \<Rightarrow> case run_batch stmt ys t1 of (t2, m) \<Rightarrow> (t2, n + m))"
  by (induction xs arbitrary: t) (auto split: prod.splits)

lemma run_batch_table [simp]:
  "fst (run_batch stmt (x # xs) t) = fst (run_batch stmt xs (fst (stmt x t)))"
  by (simp split: prod.splits)

lemma run_batch_inv:
  "P t \<Longrightarrow> (\<And>x t. x \<in> set xs \<Longrightarrow> P t \<Longrightarrow> P (fst (stmt x t))) \<Longrightarrow> P (fst (run_batch stmt xs t))"
  by (induction xs arbitrary: t) (auto simp del: run_batch.simps(2))

text \<open>Whatever the fault, a batch leaves its table as it was or applies all of it.\<close>

lemma exec_batch_atomic:
  "exec_batch stmt xs f t = (t', n, err) \<Longrightarrow> t' = t \<or> t' = fst (run_batch stmt xs t)"
  by (auto simp: exec_batch_def split: option.splits fault.splits if_splits prod.splits)

lemma exec_batch_ok:
  "exec_batch stmt xs f t = (t', n, None) \<Longrightarrow> (t', n) = run_batch stmt xs t"
  by (auto simp: exec_batch_def split: option.splits fault.splits if_splits prod.splits)

text \<open>\<open>dateFromServiceDate\<close> and the conversions of \<open>convert.go\<close>.\<close>

definition date_from_service_date :: "string \<Rightarrow> int result" where
  "date_from_service_date s =
     (case parse_service_date s of
        Inl e \<Rightarrow> Inl (Wrapped ''store'' e)
      | Inr (y, m, d) \<Rightarrow> Inr (local_day utc (go_date y m d 0 utc)))"

definition service_date_from_time :: "int \<Rightarrow> string" where
  "service_date_from_time day = format_date (civil_of_days day)"

definition null_time :: "instant \<Rightarrow> instant option" where
  "null_time t = (if is_zero t then None else Some t)"

definition time_or_zero :: "instant option \<Rightarrow> instant" where
  "time_or_zero t = (case t of None \<Rightarrow> zero_time | Some u \<Rightarrow> u)"

lemma time_or_zero_null_time [simp]: "time_or_zero (null_time t) = t"
  by (simp add: time_or_zero_def null_time_def is_zero_def)

lemma date_from_date_string:
  assumes "four_digit_day n"
  shows "date_from_service_date (date_string n) = Inr n"
proof -
  obtain y m d where c: "civil_of_days n = (y, m, d)" by (cases "civil_of_days n")
  show ?thesis
    unfolding date_from_service_date_def parse_date_string [OF assms c]
    by (simp add: local_day_utc_date days_of_civil_inverse(1) [OF c])
qed


section \<open>The migrated database\<close>

text \<open>The tables as the migration creates them, the store just opened, and fresh metrics.\<close>

definition empty_db :: "fault option list \<Rightarrow> db" where
  "empty_db faults =
     \<lparr>db_stop_events = [], db_positions = [], db_versions = [], db_trips = [], db_stop_times = [],
      db_raw_polls = [], db_subscriptions = [], db_push_sent = [], db_routes = [], db_stops = [],
      db_calendar = [], db_calendar_dates = [], db_stop_hour = [], db_departure = [],
      db_route_hour = [], db_partitions = [], db_loose_tables = [], db_migrations = [],
      db_version_seq = 1, db_poll_seq = 1, db_subscription_seq = 1, db_clock = 0,
      db_faults = faults\<rparr>"

definition zero_metrics :: metrics where
  "zero_metrics =
     \<lparr>mt_unmatched_trips = 0, mt_stop_events_upserted = 0, mt_stop_events_finalized = 0,
      mt_vehicle_positions_written = 0, mt_active_vehicles = 0, mt_ingest_lag = [], mt_polls = [],
      mt_feed_staleness = [], mt_push_sent = [], mt_raw_archive_bytes = 0,
      mt_schedule_loads = [], mt_schedule_version_age = [], mt_rollup_runs = []\<rparr>"

definition opened_store :: "fault option list \<Rightarrow> store sys" where
  "opened_store faults =
     \<lparr>sys_store = \<lparr>st_db = empty_db faults, st_trip_cache = [], st_trip_cache_version = 0,
        st_evictions = []\<rparr>,
      sys_metrics = zero_metrics\<rparr>"


section \<open>Impossible dates\<close>

lemma days_of_civil_next_month:
  assumes "1 \<le> m" "m \<le> 11"
  shows "days_of_civil y (m + 1) (d - days_in_month y m) = days_of_civil y m d"
proof -
  from assms have "m = 1 \<or> m = 2 \<or> m = 3 \<or> m = 4 \<or> m = 5 \<or> m = 6 \<or> m = 7 \<or> m = 8 \<or> m = 9 \<or>
    m = 10 \<or> m = 11" by presburger
  then have "days_before_month (leap y) (m + 1) = days_before_month (leap y) m + days_in_month y m"
    by (elim disjE) (simp_all add: days_before_month_def days_in_month_def)
  then show ?thesis by (simp add: days_of_civil_def)
qed

text \<open>
  A service date is not checked against its month. A day that its month does not have
  is accepted, and the row it addresses is that of the following month's day it overflows
  to, so that two different service dates share their rows.
\<close>

theorem impossible_date_aliases:
  assumes "0 \<le> y" "y \<le> 9999" and "1 \<le> m" "m \<le> 11" and "days_in_month y m < d" "d \<le> 31"
  shows "\<exists>n. date_from_service_date (format_date (y, m, d)) = Inr n \<and>
    date_from_service_date (format_date (y, m + 1, d - days_in_month y m)) = Inr n \<and>
    format_date (y, m, d) \<noteq> format_date (y, m + 1, d - days_in_month y m)"
proof -
  let ?d = "d - days_in_month y m"
  have "28 \<le> days_in_month y m" by (auto simp: days_in_month_def)
  then have p1: "parse_service_date (format_date (y, m, d)) = Inr (y, m, d)"
    and p2: "parse_service_date (format_date (y, m + 1, ?d)) = Inr (y, m + 1, ?d)"
    using assms by (intro parse_format_fields; simp)+
  have "format_date (y, m, d) \<noteq> format_date (y, m + 1, ?d)"
    using p1 p2 by (metis Pair_inject add_cancel_right_right old.sum.inject(2) one_neq_zero)
  then show ?thesis
    using days_of_civil_next_month [OF assms(3,4), of y d]
    unfolding date_from_service_date_def p1 p2 by (simp add: local_day_utc_date)
qed

end
