(* ===== verification/Schedule_Repo.thy ===== *)
theory Schedule_Repo
  imports Database "HOL-Library.Multiset"
begin

text \<open>
  \<open>internal/store/schedulerepo.go\<close>: the active schedule version and the stops of a trip,
  read through the store's bounded cache. The lemmas show the reads equal to the tables
  whatever the cache holds and evicts, and the locale \<open>schedule_contract\<close> states that as
  the contract of a schedule reader.
\<close>

section \<open>Operations\<close>

definition trip_cache_cap :: int where
  "trip_cache_cap = 20000"

definition version_of_row :: "int \<times> version_row \<Rightarrow> schedule_version" where
  "version_of_row x = (case x of (i, r) \<Rightarrow>
     \<lparr>sv_id = i, sv_sha256 = rv_sha256 r, sv_feed_version = rv_feed_version r,
      sv_agency_tz = rv_agency_tz r, sv_fetched_at = rv_fetched_at r,
      sv_loaded_at = time_or_zero (rv_loaded_at r), sv_active = rv_active r\<rparr>)"

definition db_active :: "db \<Rightarrow> schedule_version option" where
  "db_active d = map_option version_of_row (find (\<lambda>(i, r). rv_active r) (db_versions d))"

definition store_active_version :: "store sys \<Rightarrow> schedule_version result \<times> store sys" where
  "store_active_version w =
     (case db_query db_active w of
        (Inl e, w') \<Rightarrow> (Inl (Wrapped ''store: active schedule version'' e), w')
      | (Inr None, w') \<Rightarrow> (Inl (Wrapped ''store: active schedule version'' err_not_found), w')
      | (Inr (Some v), w') \<Rightarrow> (Inr v, w'))"

text \<open>The rows of one trip in the order of the query.\<close>

definition db_trip_stops :: "int \<Rightarrow> string \<Rightarrow> db \<Rightarrow> scheduled_stop list" where
  "db_trip_stops v trip d =
     sort_key ss_stop_sequence
       (map (\<lambda>((v', t', seq), r).
           \<lparr>ss_stop_sequence = seq, ss_stop_id = rs_stop_id r,
            ss_arrival_secs = rs_arrival_secs r, ss_departure_secs = rs_departure_secs r\<rparr>)
         (filter (\<lambda>((v', t', seq), r). v' = v \<and> t' = trip) (db_stop_times d)))"

definition load_trip_schedule :: "int \<Rightarrow> string \<Rightarrow> store sys \<Rightarrow> trip_schedule result \<times> store sys" where
  "load_trip_schedule v trip w =
     (case db_query (\<lambda>d. map_of (db_trips d) (v, trip)) w of
        (Inl e, w1) \<Rightarrow> (Inl (Wrapped ''store: trip'' e), w1)
      | (Inr None, w1) \<Rightarrow> (Inl (Wrapped ''store: trip'' err_not_found), w1)
      | (Inr (Some r), w1) \<Rightarrow>
          (case db_query (db_trip_stops v trip) w1 of
             (Inl e, w2) \<Rightarrow> (Inl (Wrapped ''store: stop times for trip'' e), w2)
           | (Inr stops, w2) \<Rightarrow>
               (Inr \<lparr>ts_trip_id = trip, ts_route_id = rt_route_id r, ts_service_id = rt_service_id r,
                 ts_direction_id = rt_direction_id r, ts_headsign = rt_headsign r, ts_stops = stops\<rparr>,
                w2)))"

abbreviation on_store :: "(store \<Rightarrow> store) \<Rightarrow> store sys \<Rightarrow> store sys" where
  "on_store f w \<equiv> w\<lparr>sys_store := f (sys_store w)\<rparr>"

definition store_evict :: "store \<Rightarrow> store" where
  "store_evict s =
     (if st_trip_cache s = [] then s
      else let i = (case st_evictions s of [] \<Rightarrow> 0 | n # _ \<Rightarrow> n mod length (st_trip_cache s))
           in s\<lparr>st_trip_cache := al_del (fst (st_trip_cache s ! i)) (st_trip_cache s),
                st_evictions := tl (st_evictions s)\<rparr>)"

definition store_cache_put :: "int \<Rightarrow> string \<Rightarrow> trip_schedule \<Rightarrow> store \<Rightarrow> store" where
  "store_cache_put v trip ts s =
     (if st_trip_cache_version s = v
      then let s' = (if int (length (st_trip_cache s)) \<ge> trip_cache_cap then store_evict s else s)
           in s'\<lparr>st_trip_cache := al_put trip ts (st_trip_cache s')\<rparr>
      else s)"

definition store_trip_schedule :: "int \<Rightarrow> string \<Rightarrow> store sys \<Rightarrow> trip_schedule result \<times> store sys" where
  "store_trip_schedule v trip w =
     (let w0 = on_store (\<lambda>s. if st_trip_cache_version s \<noteq> v
                 then s\<lparr>st_trip_cache := [], st_trip_cache_version := v\<rparr> else s) w
      in case map_of (st_trip_cache (sys_store w0)) trip of
           Some ts \<Rightarrow> (Inr ts, w0)
         | None \<Rightarrow>
             (case load_trip_schedule v trip w0 of
                (Inl e, w1) \<Rightarrow> (Inl e, w1)
              | (Inr ts, w1) \<Rightarrow> (Inr ts, on_store (store_cache_put v trip ts) w1)))"

definition store_schedule :: "store schedule_repo" where
  "store_schedule =
     \<lparr>sr_active_version = store_active_version, sr_trip_schedule = store_trip_schedule\<rparr>"

section \<open>Reads equal the tables\<close>

definition db_trip :: "int \<Rightarrow> string \<Rightarrow> db \<Rightarrow> trip_schedule option" where
  "db_trip v trip d = map_option (\<lambda>r.
     \<lparr>ts_trip_id = trip, ts_route_id = rt_route_id r, ts_service_id = rt_service_id r,
      ts_direction_id = rt_direction_id r, ts_headsign = rt_headsign r,
      ts_stops = db_trip_stops v trip d\<rparr>) (map_of (db_trips d) (v, trip))"

text \<open>The faults of the database are not mistaken for a missing row.\<close>

definition faults_ok :: "db \<Rightarrow> bool" where
  "faults_ok d \<longleftrightarrow> list_all (\<lambda>f. case f of None \<Rightarrow> True | Some (Fault i e c) \<Rightarrow> \<not> errors_is e Not_found)
     (db_faults d)"

lemma faults_ok_next: "faults_ok d \<Longrightarrow> next_fault d = Some (Fault i e c) \<Longrightarrow> \<not> errors_is e Not_found"
  by (cases "db_faults d") (auto simp: faults_ok_def next_fault_def)

lemma faults_ok_drop [simp]: "faults_ok d \<Longrightarrow> faults_ok (drop_fault d)"
  by (cases "db_faults d") (auto simp: faults_ok_def)

text \<open>The tables of the schedule; every entry of the store's cache is what they say.\<close>

definition same_schedule :: "db \<Rightarrow> db \<Rightarrow> bool" where
  "same_schedule d d' \<longleftrightarrow> db_versions d' = db_versions d \<and> db_trips d' = db_trips d \<and>
     db_stop_times d' = db_stop_times d"

definition store_ok :: "store sys \<Rightarrow> bool" where
  "store_ok w \<longleftrightarrow> faults_ok (sys_db w) \<and>
     (\<forall>trip ts. map_of (st_trip_cache (sys_store w)) trip = Some ts \<longrightarrow>
        db_trip (st_trip_cache_version (sys_store w)) trip (sys_db w) = Some ts)"

lemma same_schedule_reads:
  "same_schedule d d' \<Longrightarrow> db_active d' = db_active d \<and> db_trip v trip d' = db_trip v trip d"
  by (simp add: same_schedule_def db_active_def db_trip_def db_trip_stops_def)

lemma same_schedule_refl [simp]: "same_schedule d d"
  by (simp add: same_schedule_def)

lemma same_schedule_drop [simp]: "same_schedule d (drop_fault d') = same_schedule d d'"
  "same_schedule (drop_fault d) d' = same_schedule d d'"
  by (simp_all add: same_schedule_def)

lemma store_ok_same:
  assumes "store_ok w" and "same_schedule (sys_db w) (sys_db w')" and "faults_ok (sys_db w')"
    and "st_trip_cache (sys_store w') = st_trip_cache (sys_store w)"
    and "st_trip_cache_version (sys_store w') = st_trip_cache_version (sys_store w)"
  shows "store_ok w'"
  using assms same_schedule_reads [OF assms(2)] by (simp add: store_ok_def)

lemma db_query_effect:
  assumes "db_query q w = (r, w')" and "store_ok w"
  shows "store_ok w' \<and> same_schedule (sys_db w) (sys_db w') \<and>
    db_stop_events (sys_db w') = db_stop_events (sys_db w) \<and>
    (case r of Inl e \<Rightarrow> \<not> errors_is e Not_found | Inr x \<Rightarrow> x = q (sys_db w))"
proof -
  have f: "faults_ok (sys_db w)" using assms(2) by (simp add: store_ok_def)
  have w': "w' = on_db drop_fault w"
    using assms(1) by (auto simp: db_query_def split: option.splits fault.splits)
  have "store_ok w'"
    unfolding w' using f by (intro store_ok_same [OF assms(2)]) simp_all
  then show ?thesis
    using assms(1) faults_ok_next [OF f]
    by (auto simp: db_query_def w' split: option.splits fault.splits)
qed

lemma store_active_version_reads:
  assumes "store_active_version w = (r, w')" and "store_ok w"
  shows "store_ok w' \<and> same_schedule (sys_db w) (sys_db w') \<and>
    db_stop_events (sys_db w') = db_stop_events (sys_db w) \<and>
    (case r of Inl e \<Rightarrow> errors_is e Not_found \<longrightarrow> db_active (sys_db w) = None
             | Inr v \<Rightarrow> db_active (sys_db w) = Some v)"
  using assms db_query_effect [OF _ assms(2), of db_active]
  by (auto simp: store_active_version_def split: prod.splits sum.splits option.splits)

lemma load_trip_schedule_reads:
  assumes "load_trip_schedule v trip w = (r, w')" and "store_ok w"
  shows "store_ok w' \<and> same_schedule (sys_db w) (sys_db w') \<and>
    db_stop_events (sys_db w') = db_stop_events (sys_db w) \<and>
    (case r of Inl e \<Rightarrow> errors_is e Not_found \<longrightarrow> db_trip v trip (sys_db w) = None
             | Inr ts \<Rightarrow> db_trip v trip (sys_db w) = Some ts)"
proof -
  obtain r1 w1 where q1: "db_query (\<lambda>d. map_of (db_trips d) (v, trip)) w = (r1, w1)" by force
  note e1 = db_query_effect [OF q1 assms(2)]
  obtain r2 w2 where q2: "db_query (db_trip_stops v trip) w1 = (r2, w2)" by force
  note e2 = db_query_effect [OF q2 conjunct1 [OF e1]]
  have same: "same_schedule (sys_db w) (sys_db w2)"
    using e1 e2 by (simp add: same_schedule_def)
  have stops: "db_trip_stops v trip (sys_db w1) = db_trip_stops v trip (sys_db w)"
    using e1 by (simp add: same_schedule_def db_trip_stops_def)
  show ?thesis
    using assms(1) e1 e2 same stops
    by (auto simp: load_trip_schedule_def q1 q2 db_trip_def split: sum.splits option.splits)
qed

lemma store_evict_fields [simp]:
  "st_db (store_evict s) = st_db s" "st_trip_cache_version (store_evict s) = st_trip_cache_version s"
  by (simp_all add: store_evict_def Let_def)

lemma store_evict_entry:
  "map_of (st_trip_cache (store_evict s)) k = Some v \<Longrightarrow> map_of (st_trip_cache s) k = Some v"
  by (simp add: store_evict_def Let_def split: if_splits)

lemma store_cache_put_fields [simp]:
  "st_db (store_cache_put v trip ts s) = st_db s"
  "st_trip_cache_version (store_cache_put v trip ts s) = st_trip_cache_version s"
  by (simp_all add: store_cache_put_def Let_def)

lemma store_cache_put_entry:
  "map_of (st_trip_cache (store_cache_put v trip ts s)) k = Some x \<Longrightarrow>
     (st_trip_cache_version s = v \<and> k = trip \<and> x = ts) \<or> map_of (st_trip_cache s) k = Some x"
  by (auto simp: store_cache_put_def Let_def dest: store_evict_entry split: if_splits)

lemma store_trip_schedule_reads:
  assumes "store_trip_schedule v trip w = (r, w')" and "store_ok w"
  shows "store_ok w' \<and> same_schedule (sys_db w) (sys_db w') \<and>
    db_stop_events (sys_db w') = db_stop_events (sys_db w) \<and>
    (case r of Inl e \<Rightarrow> errors_is e Not_found \<longrightarrow> db_trip v trip (sys_db w) = None
             | Inr ts \<Rightarrow> db_trip v trip (sys_db w) = Some ts)"
proof -
  define w0 where "w0 = on_store (\<lambda>s. if st_trip_cache_version s \<noteq> v
      then s\<lparr>st_trip_cache := [], st_trip_cache_version := v\<rparr> else s) w"
  have d0: "sys_db w0 = sys_db w" and v0: "st_trip_cache_version (sys_store w0) = v"
    by (simp_all add: w0_def)
  have ok0: "store_ok w0" using assms(2) by (auto simp: store_ok_def w0_def)
  show ?thesis
  proof (cases "map_of (st_trip_cache (sys_store w0)) trip")
    case (Some ts)
    then have "r = Inr ts" "w' = w0"
      using assms(1) by (auto simp: store_trip_schedule_def Let_def w0_def [symmetric])
    moreover have "db_trip v trip (sys_db w) = Some ts"
      using ok0 Some unfolding store_ok_def d0 v0 by blast
    ultimately show ?thesis using ok0 d0 by simp
  next
    case None
    obtain r1 w1 where l: "load_trip_schedule v trip w0 = (r1, w1)" by force
    note e = load_trip_schedule_reads [OF l ok0, unfolded d0]
    show ?thesis
    proof (cases r1)
      case (Inl err)
      then have "r = Inl err" "w' = w1"
        using assms(1) None l by (auto simp: store_trip_schedule_def Let_def w0_def [symmetric])
      then show ?thesis using e Inl by simp
    next
      case (Inr ts)
      then have r: "r = Inr ts" and w': "w' = on_store (store_cache_put v trip ts) w1"
        using assms(1) None l by (auto simp: store_trip_schedule_def Let_def w0_def [symmetric])
      have lk: "db_trip v trip (sys_db w1) = Some ts"
        using e Inr same_schedule_reads by fastforce
      have "store_ok w'"
        using e lk unfolding store_ok_def w' by (auto dest!: store_cache_put_entry)
      then show ?thesis using e Inr r w' by simp
    qed
  qed
qed

lemma db_trip_stops_distinct:
  assumes "al_wf (db_stop_times d)"
  shows "distinct (map ss_stop_sequence (db_trip_stops v trip d))"
proof -
  define rows where "rows = filter (\<lambda>((v', t', seq), r). v' = v \<and> t' = trip) (db_stop_times d)"
  have "distinct (map fst rows)"
    using assms by (simp add: al_wf_def rows_def distinct_map_filter)
  moreover have "map (\<lambda>((v', t', seq), r). seq) rows = map (\<lambda>(v', t', seq). seq) (map fst rows)"
    by (simp add: split_def)
  moreover have "inj_on (\<lambda>(v', t', seq). seq) (set (map fst rows))"
    by (auto simp: rows_def inj_on_def)
  ultimately have "distinct (map (\<lambda>((v', t', seq), r). seq) rows)"
    by (metis distinct_map)
  moreover have "mset (map ss_stop_sequence (db_trip_stops v trip d)) = mset (map (\<lambda>((v', t', seq), r). seq) rows)"
    unfolding db_trip_stops_def rows_def [symmetric] mset_map mset_sort
    by (simp add: image_mset.compositionality comp_def split_def)
  ultimately show ?thesis using mset_eq_imp_distinct_iff by blast
qed

lemma db_trip_schedule_wf:
  assumes "al_wf (db_stop_times d)" and "db_trip v trip d = Some ts"
  shows "schedule_wf ts"
proof -
  have "ts_stops ts = db_trip_stops v trip d" using assms(2) by (auto simp: db_trip_def)
  moreover have "sorted (map ss_stop_sequence (db_trip_stops v trip d))"
    unfolding db_trip_stops_def by (rule sorted_sort_key)
  ultimately show ?thesis
    using db_trip_stops_distinct [OF assms(1)] by (simp add: schedule_wf_def strict_sorted_iff)
qed

section \<open>The contract of a schedule reader\<close>

text \<open>
  What reconciliation relies on: while \<open>good\<close> holds, and every read keeps it, a read that
  succeeds returns what \<open>active\<close> and \<open>lookup\<close> say, one that reports a missing row is
  right about it, and reads leave the schedule unchanged.
\<close>

locale schedule_contract =
  fixes sr :: "'s schedule_repo" and good :: "'s sys \<Rightarrow> bool"
    and active :: "'s sys \<Rightarrow> schedule_version option"
    and lookup :: "'s sys \<Rightarrow> int \<Rightarrow> string \<Rightarrow> trip_schedule option"
  assumes active_read:
      "good w \<Longrightarrow> sr_active_version sr w = (r, w') \<Longrightarrow>
         good w' \<and> active w' = active w \<and> lookup w' = lookup w \<and>
         (case r of Inl e \<Rightarrow> errors_is e Not_found \<longrightarrow> active w = None | Inr v \<Rightarrow> active w = Some v)"
    and trip_read:
      "good w \<Longrightarrow> sr_trip_schedule sr v trip w = (t, w') \<Longrightarrow>
         good w' \<and> active w' = active w \<and> lookup w' = lookup w \<and>
         (case t of Inl e \<Rightarrow> errors_is e Not_found \<longrightarrow> lookup w v trip = None
                  | Inr ts \<Rightarrow> lookup w v trip = Some ts)"
    and good_metrics: "good w \<Longrightarrow> good (on_metrics f w)"
    and schedule_metrics: "active (on_metrics f w) = active w" "lookup (on_metrics f w) = lookup w"

abbreviation store_lookup :: "store sys \<Rightarrow> int \<Rightarrow> string \<Rightarrow> trip_schedule option" where
  "store_lookup w v trip \<equiv> db_trip v trip (sys_db w)"

interpretation pg_schedule: schedule_contract store_schedule store_ok
  "\<lambda>w. db_active (sys_db w)" store_lookup
proof
  show "store_ok w' \<and> db_active (sys_db w') = db_active (sys_db w) \<and> store_lookup w' = store_lookup w \<and>
      (case r of Inl e \<Rightarrow> errors_is e Not_found \<longrightarrow> db_active (sys_db w) = None
       | Inr v \<Rightarrow> db_active (sys_db w) = Some v)"
    if "store_ok w" "sr_active_version store_schedule w = (r, w')" for w r w'
    using store_active_version_reads [of w r w'] that same_schedule_reads
    by (fastforce simp: store_schedule_def)
next
  show "store_ok w' \<and> db_active (sys_db w') = db_active (sys_db w) \<and> store_lookup w' = store_lookup w \<and>
      (case r of Inl e \<Rightarrow> errors_is e Not_found \<longrightarrow> store_lookup w v trip = None
       | Inr ts \<Rightarrow> store_lookup w v trip = Some ts)"
    if "store_ok w" "sr_trip_schedule store_schedule v trip w = (r, w')" for w v trip r w'
    using store_trip_schedule_reads [of v trip w r w'] that same_schedule_reads
    by (fastforce simp: store_schedule_def)
qed (simp_all add: store_ok_def)

end
