(* ===== verification/Schedule_Load.thy ===== *)
theory Schedule_Load
  imports Schedule_Repo
begin

text \<open>
  \<open>internal/store/scheduleload.go\<close>: a static feed streamed into one new schedule version
  inside a single transaction. The rows a load has sent are a log of statements that the
  database applies when the transaction commits; until then no other session sees them.

  One load runs at a time, as in the process; other sessions may write the tables outside
  the schedule between any two calls.
\<close>

section \<open>Rows and tables\<close>

datatype copy_table =
    Table_routes | Table_stops | Table_trips | Table_stop_times | Table_calendar | Table_calendar_dates

text \<open>A buffered row: its primary key, which starts with the version, and the other columns.\<close>

datatype gtfs_row =
    Route_row int string route_row
  | Stop_row int string stop_row
  | Trip_row int string trip_row
  | Stop_time_row int string int stop_time_row
  | Calendar_row int string calendar_row
  | Calendar_date_row int string int int

primrec row_table :: "gtfs_row \<Rightarrow> copy_table" where
  "row_table (Route_row v k r) = Table_routes"
| "row_table (Stop_row v k r) = Table_stops"
| "row_table (Trip_row v k r) = Table_trips"
| "row_table (Stop_time_row v k q r) = Table_stop_times"
| "row_table (Calendar_row v k r) = Table_calendar"
| "row_table (Calendar_date_row v k q r) = Table_calendar_dates"

primrec row_version :: "gtfs_row \<Rightarrow> int" where
  "row_version (Route_row v k r) = v"
| "row_version (Stop_row v k r) = v"
| "row_version (Trip_row v k r) = v"
| "row_version (Stop_time_row v k q r) = v"
| "row_version (Calendar_row v k r) = v"
| "row_version (Calendar_date_row v k q r) = v"

text \<open>The integers of a row fit their columns: \<open>INT\<close> and, for a trip's direction and an exception, \<open>SMALLINT\<close>.\<close>

primrec row_fits :: "gtfs_row \<Rightarrow> bool" where
  "row_fits (Route_row v k r) =
     (in_range 32 (rw_route_type r) \<and> (case rw_sort_order r of None \<Rightarrow> True | Some n \<Rightarrow> in_range 32 n))"
| "row_fits (Stop_row v k r) = in_range 32 (ro_location_type r)"
| "row_fits (Trip_row v k r) = in_range 16 (rt_direction_id r)"
| "row_fits (Stop_time_row v k q r) =
     (in_range 32 q \<and> in_range 32 (rs_arrival_secs r) \<and> in_range 32 (rs_departure_secs r))"
| "row_fits (Calendar_row v k r) = True"
| "row_fits (Calendar_date_row v k q r) = in_range 16 r"

definition unique_violation :: go_error where
  "unique_violation = Message ''SQLSTATE 23505''"

definition add_row :: "'k \<Rightarrow> 'v \<Rightarrow> ('k \<times> 'v) list \<Rightarrow> ('k \<times> 'v) list result" where
  "add_row k v t = (case map_of t k of None \<Rightarrow> Inr (t @ [(k, v)]) | Some _ \<Rightarrow> Inl unique_violation)"

definition map_result :: "('a \<Rightarrow> 'b) \<Rightarrow> 'a result \<Rightarrow> 'b result" where
  "map_result f r = (case r of Inl e \<Rightarrow> Inl e | Inr x \<Rightarrow> Inr (f x))"

text \<open>One row of a \<open>COPY\<close>: it fits its columns, its version exists, and its key is new.\<close>

primrec store_row :: "gtfs_row \<Rightarrow> db \<Rightarrow> db result" where
  "store_row (Route_row v k r) d = map_result (\<lambda>t. d\<lparr>db_routes := t\<rparr>) (add_row (v, k) r (db_routes d))"
| "store_row (Stop_row v k r) d = map_result (\<lambda>t. d\<lparr>db_stops := t\<rparr>) (add_row (v, k) r (db_stops d))"
| "store_row (Trip_row v k r) d = map_result (\<lambda>t. d\<lparr>db_trips := t\<rparr>) (add_row (v, k) r (db_trips d))"
| "store_row (Stop_time_row v k q r) d =
     map_result (\<lambda>t. d\<lparr>db_stop_times := t\<rparr>) (add_row (v, k, q) r (db_stop_times d))"
| "store_row (Calendar_row v k r) d = map_result (\<lambda>t. d\<lparr>db_calendar := t\<rparr>) (add_row (v, k) r (db_calendar d))"
| "store_row (Calendar_date_row v k q r) d =
     map_result (\<lambda>t. d\<lparr>db_calendar_dates := t\<rparr>) (add_row (v, k, q) r (db_calendar_dates d))"

definition insert_row :: "gtfs_row \<Rightarrow> db \<Rightarrow> db result" where
  "insert_row r d =
     (if \<not> row_fits r then Inl (Message ''value out of range'')
      else if map_of (db_versions d) (row_version r) = None then Inl (Message ''SQLSTATE 23503'')
      else store_row r d)"

section \<open>The transaction\<close>

datatype tx_stmt =
    Set_meta int string string
  | Copy_rows "gtfs_row list"
  | Set_loaded int instant
  | Deactivate
  | Activate int

definition update_version :: "int \<Rightarrow> (version_row \<Rightarrow> version_row) \<Rightarrow> db \<Rightarrow> db" where
  "update_version v f d = d\<lparr>db_versions := map (\<lambda>(i, r). (i, if i = v then f r else r)) (db_versions d)\<rparr>"

definition one_active :: "(int \<times> version_row) list \<Rightarrow> bool" where
  "one_active vs \<longleftrightarrow> length (filter (\<lambda>(i, r). rv_active r) vs) \<le> 1"

primrec apply_stmt :: "tx_stmt \<Rightarrow> db \<Rightarrow> db result" where
  "apply_stmt (Set_meta v fv tz) d =
     Inr (update_version v (\<lambda>r. r\<lparr>rv_feed_version := fv, rv_agency_tz := tz\<rparr>) d)"
| "apply_stmt (Copy_rows rows) d = first_error insert_row rows d"
| "apply_stmt (Set_loaded v now) d = Inr (update_version v (\<lambda>r. r\<lparr>rv_loaded_at := Some now\<rparr>) d)"
| "apply_stmt Deactivate d =
     Inr (d\<lparr>db_versions := map (\<lambda>(i, r). (i, r\<lparr>rv_active := False\<rparr>)) (db_versions d)\<rparr>)"
| "apply_stmt (Activate v) d =
     (let d' = update_version v (\<lambda>r. r\<lparr>rv_active := True\<rparr>) d
      in if one_active (db_versions d') then Inr d' else Inl unique_violation)"

datatype tx_state = Tx_open | Tx_failed | Tx_finished

record tx =
  tx_log :: "tx_stmt list"
  tx_state :: tx_state
  tx_began :: instant

definition err_tx_closed :: go_error where
  "err_tx_closed = Sentinel Tx_closed"

text \<open>
  \<open>now()\<close> is the time at which the transaction began. What the transaction sees: its own statements on the committed tables.
\<close>

definition tx_view :: "tx \<Rightarrow> db \<Rightarrow> db result" where
  "tx_view t d = first_error apply_stmt (tx_log t) d"

text \<open>A failed statement, whatever the reason, leaves the transaction good for a rollback only.\<close>

definition tx_exec :: "tx_stmt \<Rightarrow> tx \<Rightarrow> store sys \<Rightarrow> go_error option \<times> tx \<times> store sys" where
  "tx_exec s t w =
     (case tx_state t of
        Tx_finished \<Rightarrow> (Some err_tx_closed, t, w)
      | Tx_failed \<Rightarrow> (Some (Message ''SQLSTATE 25P02''), t, on_db drop_fault w)
      | Tx_open \<Rightarrow>
          (case next_fault (sys_db w) of
             Some (Fault i e c) \<Rightarrow> (Some e, t\<lparr>tx_state := Tx_failed\<rparr>, on_db drop_fault w)
           | None \<Rightarrow>
               (case tx_view (t\<lparr>tx_log := tx_log t @ [s]\<rparr>) (sys_db w) of
                  Inl e \<Rightarrow> (Some e, t\<lparr>tx_state := Tx_failed\<rparr>, on_db drop_fault w)
                | Inr d \<Rightarrow> (None, t\<lparr>tx_log := tx_log t @ [s]\<rparr>, on_db drop_fault w))))"

text \<open>
  \<open>Tx.Commit\<close> closes the transaction whatever happens. When only the reply is lost the
  statements are committed although an error comes back.
\<close>

definition tx_commit :: "tx \<Rightarrow> store sys \<Rightarrow> go_error option \<times> tx \<times> store sys" where
  "tx_commit t w =
     (case tx_state t of
        Tx_finished \<Rightarrow> (Some err_tx_closed, t, w)
      | Tx_failed \<Rightarrow>
          (Some (Message ''commit unexpectedly resulted in rollback''), t\<lparr>tx_state := Tx_finished\<rparr>, on_db drop_fault w)
      | Tx_open \<Rightarrow>
          (let commit = (\<lambda>d. case tx_view t d of Inl e \<Rightarrow> d | Inr d' \<Rightarrow> d') in
           case next_fault (sys_db w) of
             None \<Rightarrow> (None, t\<lparr>tx_state := Tx_finished\<rparr>, on_db (\<lambda>d. drop_fault (commit d)) w)
           | Some (Fault i e c) \<Rightarrow>
               (Some e, t\<lparr>tx_state := Tx_finished\<rparr>,
                on_db (\<lambda>d. drop_fault (if 0 < i \<and> c then commit d else d)) w)))"

definition tx_rollback :: "tx \<Rightarrow> store sys \<Rightarrow> go_error option \<times> tx \<times> store sys" where
  "tx_rollback t w =
     (case tx_state t of
        Tx_finished \<Rightarrow> (Some err_tx_closed, t, w)
      | _ \<Rightarrow>
          (case next_fault (sys_db w) of
             None \<Rightarrow> (None, t\<lparr>tx_state := Tx_finished\<rparr>, on_db drop_fault w)
           | Some (Fault i e c) \<Rightarrow> (Some e, t\<lparr>tx_state := Tx_finished\<rparr>, on_db drop_fault w)))"

section \<open>The load\<close>

record schedule_load =
  sl_tx :: tx
  sl_id :: int
  sl_finished :: bool
  sl_buf :: "copy_table \<Rightarrow> gtfs_row list"

text \<open>Deleting a version cascades to its rows.\<close>

definition other_version :: "int \<Rightarrow> (int \<times> 'b) \<times> 'v \<Rightarrow> bool" where
  "other_version v x \<longleftrightarrow> fst (fst x) \<noteq> v"

definition delete_version :: "int \<Rightarrow> db \<Rightarrow> db" where
  "delete_version v d = d
     \<lparr>db_versions := filter (\<lambda>(i, r). i \<noteq> v) (db_versions d),
      db_routes := filter (other_version v) (db_routes d),
      db_stops := filter (other_version v) (db_stops d),
      db_trips := filter (other_version v) (db_trips d),
      db_stop_times := filter (other_version v) (db_stop_times d),
      db_calendar := filter (other_version v) (db_calendar d),
      db_calendar_dates := filter (other_version v) (db_calendar_dates d)\<rparr>"

definition delete_version_stmt :: "int \<Rightarrow> db \<Rightarrow> db \<times> int" where
  "delete_version_stmt v d =
     (delete_version v d, int (length (filter (\<lambda>(i, r). i = v) (db_versions d))))"

text \<open>The new row of \<open>schedule_versions\<close>; \<open>sha256\<close> is unique.\<close>

definition insert_version :: "string \<Rightarrow> instant \<Rightarrow> db \<Rightarrow> (db \<times> int) result" where
  "insert_version sha fetched d =
     (if list_ex (\<lambda>(i, r). rv_sha256 r = sha) (db_versions d) then Inl unique_violation
      else Inr (d\<lparr>db_versions := db_versions d @ [(db_version_seq d,
            \<lparr>rv_sha256 = sha, rv_feed_version = [], rv_agency_tz = [], rv_fetched_at = fetched,
             rv_loaded_at = None, rv_active = False\<rparr>)],
          db_version_seq := db_version_seq d + 1\<rparr>, db_version_seq d))"

definition err_version_exists :: go_error where
  "err_version_exists = Sentinel Version_exists"

text \<open>The version row is committed at once, then the load transaction is opened.\<close>

definition start_load :: "string \<Rightarrow> instant \<Rightarrow> store sys \<Rightarrow> schedule_load result \<times> store sys" where
  "start_load sha fetched w =
     (case db_run (insert_version sha fetched) w of
        (Inl e, w1) \<Rightarrow> (Inl (Wrapped ''store: insert schedule version'' e), w1)
      | (Inr v, w1) \<Rightarrow>
          (case db_query (\<lambda>_. ()) w1 of
             (Inl e, w2) \<Rightarrow> (Inl (Wrapped ''store: begin schedule load'' e), w2)
           | (Inr _, w2) \<Rightarrow>
               (Inr \<lparr>sl_tx = \<lparr>tx_log = [], tx_state = Tx_open,
                    tx_began = db_clock (sys_db w1)\<rparr>, sl_id = v, sl_finished = False,
                  sl_buf = (\<lambda>_. [])\<rparr>, w2)))"

definition new_schedule_load :: "string \<Rightarrow> instant \<Rightarrow> store sys \<Rightarrow> schedule_load result \<times> store sys" where
  "new_schedule_load sha fetched w =
     (case db_query (\<lambda>d. find (\<lambda>(i, r). rv_sha256 r = sha) (db_versions d)) w of
        (Inl e, w1) \<Rightarrow> (Inl (Wrapped ''store: look up schedule version'' e), w1)
      | (Inr None, w1) \<Rightarrow> start_load sha fetched w1
      | (Inr (Some (v, r)), w1) \<Rightarrow>
          if rv_loaded_at r \<noteq> None then (Inl (Wrapped ''store: sha256'' err_version_exists), w1)
          else case db_exec (delete_version_stmt v) w1 of
              (Inl e, w2) \<Rightarrow> (Inl (Wrapped ''store: delete crashed schedule load'' e), w2)
            | (Inr _, w2) \<Rightarrow> start_load sha fetched w2)"

type_synonym load_world = "schedule_load \<times> store sys"

definition load_exec :: "tx_stmt \<Rightarrow> load_world \<Rightarrow> go_error option \<times> load_world" where
  "load_exec s lw = (case lw of (l, w) \<Rightarrow> case tx_exec s (sl_tx l) w of (e, t, w') \<Rightarrow> (e, l\<lparr>sl_tx := t\<rparr>, w'))"

definition wrap_error :: "string \<Rightarrow> go_error option \<Rightarrow> go_error option" where
  "wrap_error m e = map_option (Wrapped m) e"

definition load_meta :: "string \<Rightarrow> string \<Rightarrow> load_world \<Rightarrow> go_error option \<times> load_world" where
  "load_meta fv tz lw =
     (case load_exec (Set_meta (sl_id (fst lw)) fv tz) lw of
        (e, lw') \<Rightarrow> (wrap_error ''store: update schedule version meta'' e, lw'))"

definition copy_batch_size :: int where
  "copy_batch_size = 5000"

definition load_flush :: "copy_table \<Rightarrow> load_world \<Rightarrow> go_error option \<times> load_world" where
  "load_flush tb lw =
     (if sl_buf (fst lw) tb = [] then (None, lw)
      else case load_exec (Copy_rows (sl_buf (fst lw) tb)) lw of
          (Some e, lw') \<Rightarrow> (Some (Wrapped ''store: copy'' e), lw')
        | (None, (l, w)) \<Rightarrow> (None, l\<lparr>sl_buf := (sl_buf l)(tb := [])\<rparr>, w))"

definition load_maybe_flush :: "copy_table \<Rightarrow> load_world \<Rightarrow> go_error option \<times> load_world" where
  "load_maybe_flush tb lw =
     (if int (length (sl_buf (fst lw) tb)) < copy_batch_size then (None, lw) else load_flush tb lw)"

definition buffer_row :: "gtfs_row \<Rightarrow> load_world \<Rightarrow> load_world" where
  "buffer_row r lw = (case lw of (l, w) \<Rightarrow>
     (l\<lparr>sl_buf := (sl_buf l)(row_table r := sl_buf l (row_table r) @ [r])\<rparr>, w))"

definition load_route :: "route \<Rightarrow> load_world \<Rightarrow> go_error option \<times> load_world" where
  "load_route r lw = load_maybe_flush Table_routes (buffer_row (Route_row (sl_id (fst lw)) (rou_route_id r)
     \<lparr>rw_short_name = rou_short_name r, rw_long_name = rou_long_name r, rw_route_type = rou_route_type r,
      rw_color = rou_color r, rw_text_color = rou_text_color r, rw_sort_order = Some (rou_sort_order r)\<rparr>) lw)"

definition load_stop :: "stop \<Rightarrow> load_world \<Rightarrow> go_error option \<times> load_world" where
  "load_stop s lw = load_maybe_flush Table_stops (buffer_row (Stop_row (sl_id (fst lw)) (sto_stop_id s)
     \<lparr>ro_name = sto_name s, ro_lat = Some (sto_lat s), ro_lon = Some (sto_lon s),
      ro_parent_station = sto_parent_station s, ro_location_type = sto_location_type s,
      ro_platform_code = sto_platform_code s\<rparr>) lw)"

definition load_trip :: "trip \<Rightarrow> load_world \<Rightarrow> go_error option \<times> load_world" where
  "load_trip t lw = load_maybe_flush Table_trips (buffer_row (Trip_row (sl_id (fst lw)) (tri_trip_id t)
     \<lparr>rt_route_id = tri_route_id t, rt_service_id = tri_service_id t, rt_headsign = tri_headsign t,
      rt_direction_id = tri_direction_id t, rt_shape_id = tri_shape_id t\<rparr>) lw)"

definition load_stop_time :: "stop_time \<Rightarrow> load_world \<Rightarrow> go_error option \<times> load_world" where
  "load_stop_time s lw = load_maybe_flush Table_stop_times (buffer_row
     (Stop_time_row (sl_id (fst lw)) (stt_trip_id s) (stt_stop_sequence s)
       \<lparr>rs_stop_id = stt_stop_id s, rs_arrival_secs = stt_arrival_secs s,
        rs_departure_secs = stt_departure_secs s\<rparr>) lw)"

definition load_calendar :: "calendar_entry \<Rightarrow> load_world \<Rightarrow> go_error option \<times> load_world" where
  "load_calendar c lw =
     (case date_from_service_date (cal_start_date c) of
        Inl e \<Rightarrow> (Some e, lw)
      | Inr start \<Rightarrow>
          (case date_from_service_date (cal_end_date c) of
             Inl e \<Rightarrow> (Some e, lw)
           | Inr stop \<Rightarrow> load_maybe_flush Table_calendar (buffer_row
               (Calendar_row (sl_id (fst lw)) (cal_service_id c)
                 \<lparr>rc_weekdays = cal_weekdays c, rc_start_date = start, rc_end_date = stop\<rparr>) lw)))"

definition load_calendar_date :: "calendar_date \<Rightarrow> load_world \<Rightarrow> go_error option \<times> load_world" where
  "load_calendar_date c lw =
     (case date_from_service_date (cad_date c) of
        Inl e \<Rightarrow> (Some e, lw)
      | Inr d \<Rightarrow> load_maybe_flush Table_calendar_dates (buffer_row
          (Calendar_date_row (sl_id (fst lw)) (cad_service_id c) d (cad_exception_type c)) lw))"

definition load_writer :: "load_world schedule_writer" where
  "load_writer =
     \<lparr>sw_meta = load_meta, sw_route = load_route, sw_stop = load_stop, sw_trip = load_trip,
      sw_stop_time = load_stop_time, sw_calendar = load_calendar, sw_calendar_date = load_calendar_date\<rparr>"

definition copy_tables :: "copy_table list" where
  "copy_tables =
     [Table_routes, Table_stops, Table_trips, Table_stop_times, Table_calendar, Table_calendar_dates]"

fun flush_all :: "copy_table list \<Rightarrow> load_world \<Rightarrow> go_error option \<times> load_world" where
  "flush_all [] lw = (None, lw)"
| "flush_all (tb # tbs) lw =
     (case load_flush tb lw of (Some e, lw') \<Rightarrow> (Some e, lw') | (None, lw') \<Rightarrow> flush_all tbs lw')"

text \<open>The statements of a commit in order, each with the message that wraps its error.\<close>

fun exec_all :: "(tx_stmt \<times> string) list \<Rightarrow> load_world \<Rightarrow> go_error option \<times> load_world" where
  "exec_all [] lw = (None, lw)"
| "exec_all ((s, m) # ss) lw =
     (case load_exec s lw of (Some e, lw') \<Rightarrow> (Some (Wrapped m e), lw') | (None, lw') \<Rightarrow> exec_all ss lw')"

definition commit_stmts :: "int \<Rightarrow> instant \<Rightarrow> (tx_stmt \<times> string) list" where
  "commit_stmts v now =
     [(Set_loaded v now, ''store: set loaded_at''), (Deactivate, ''store: deactivate previous version''),
      (Activate v, ''store: activate version'')]"

definition load_commit :: "load_world \<Rightarrow> int result \<times> load_world" where
  "load_commit lw =
     (if sl_finished (fst lw) then (Inl (Message ''store: schedule load already finished''), lw)
      else case flush_all copy_tables lw of
          (Some e, lw1) \<Rightarrow> (Inl e, lw1)
        | (None, lw1) \<Rightarrow>
            (case exec_all (commit_stmts (sl_id (fst lw1)) (tx_began (sl_tx (fst lw1)))) lw1 of
               (Some e, lw2) \<Rightarrow> (Inl e, lw2)
             | (None, (l, w)) \<Rightarrow>
                 (case tx_commit (sl_tx l) w of
                    (Some e, t, w') \<Rightarrow> (Inl (Wrapped ''store: commit schedule load'' e), l\<lparr>sl_tx := t\<rparr>, w')
                  | (None, t, w') \<Rightarrow> (Inr (sl_id l), l\<lparr>sl_tx := t, sl_finished := True\<rparr>, w'))))"

definition load_abort :: "load_world \<Rightarrow> go_error option \<times> load_world" where
  "load_abort lw = (case lw of (l, w) \<Rightarrow>
     if sl_finished l then (None, lw)
     else case tx_rollback (sl_tx l) w of (e, t, w1) \<Rightarrow>
       let e1 = (case e of None \<Rightarrow> None | Some x \<Rightarrow> if errors_is x Tx_closed then None else Some x)
       in case db_exec (delete_version_stmt (sl_id l)) w1 of
            (Inr _, w2) \<Rightarrow> (e1, l\<lparr>sl_tx := t, sl_finished := True\<rparr>, w2)
          | (Inl x, w2) \<Rightarrow>
              ((case e1 of None \<Rightarrow> Some (Wrapped ''store: delete aborted schedule version'' x) | Some y \<Rightarrow> Some y),
               l\<lparr>sl_tx := t, sl_finished := True\<rparr>, w2))"

section \<open>Rows of a table\<close>

primrec table_rows :: "copy_table \<Rightarrow> db \<Rightarrow> gtfs_row list" where
  "table_rows Table_routes d = map (\<lambda>((v, k), r). Route_row v k r) (db_routes d)"
| "table_rows Table_stops d = map (\<lambda>((v, k), r). Stop_row v k r) (db_stops d)"
| "table_rows Table_trips d = map (\<lambda>((v, k), r). Trip_row v k r) (db_trips d)"
| "table_rows Table_stop_times d = map (\<lambda>((v, k, q), r). Stop_time_row v k q r) (db_stop_times d)"
| "table_rows Table_calendar d = map (\<lambda>((v, k), r). Calendar_row v k r) (db_calendar d)"
| "table_rows Table_calendar_dates d = map (\<lambda>((v, k, q), r). Calendar_date_row v k q r) (db_calendar_dates d)"

text \<open>The tables of the schedule, and the keys of the rows.\<close>

definition schedule_part :: "db \<Rightarrow> (int \<times> version_row) list \<times> (copy_table \<Rightarrow> gtfs_row list)" where
  "schedule_part d = (db_versions d, \<lambda>tb. table_rows tb d)"

definition tables_wf :: "db \<Rightarrow> bool" where
  "tables_wf d \<longleftrightarrow> al_wf (db_routes d) \<and> al_wf (db_stops d) \<and> al_wf (db_trips d) \<and>
     al_wf (db_stop_times d) \<and> al_wf (db_calendar d) \<and> al_wf (db_calendar_dates d)"

lemma result_cases_map [simp]:
  "map_result f r = Inl e \<longleftrightarrow> r = Inl e" "map_result f r = Inr y \<longleftrightarrow> (\<exists>x. r = Inr x \<and> y = f x)"
  by (auto simp: map_result_def split: sum.splits)

lemma add_row_eq [simp]:
  "add_row k v t = Inr t' \<longleftrightarrow> map_of t k = None \<and> t' = t @ [(k, v)]"
  "add_row k v t = Inl e \<longleftrightarrow> map_of t k \<noteq> None \<and> e = unique_violation"
  by (auto simp: add_row_def split: option.splits)

lemma table_rows_other [simp]:
  "table_rows tb (d\<lparr>db_versions := x\<rparr>) = table_rows tb d" "table_rows tb (d\<lparr>db_faults := f\<rparr>) = table_rows tb d"
  "table_rows tb (d\<lparr>db_version_seq := n\<rparr>) = table_rows tb d"
  by (cases tb; simp)+

lemma schedule_part_faults [simp]: "schedule_part (d\<lparr>db_faults := f\<rparr>) = schedule_part d"
  by (simp add: schedule_part_def)

lemma schedule_part_eq:
  "schedule_part d = schedule_part d' \<longleftrightarrow>
     db_versions d = db_versions d' \<and> (\<forall>tb. table_rows tb d = table_rows tb d')"
  by (simp add: schedule_part_def fun_eq_iff)

lemma schedule_part_tables:
  assumes "schedule_part d = schedule_part d'"
  shows "db_routes d = db_routes d'" "db_stops d = db_stops d'" "db_trips d = db_trips d'"
    "db_stop_times d = db_stop_times d'" "db_calendar d = db_calendar d'"
    "db_calendar_dates d = db_calendar_dates d'"
proof -
  have eq: "table_rows tb d = table_rows tb d'" for tb
    using assms by (simp add: schedule_part_eq)
  have inj: "map f xs = map f ys \<Longrightarrow> inj f \<Longrightarrow> xs = ys" for f :: "'x \<Rightarrow> gtfs_row" and xs ys
    by simp
  show "db_routes d = db_routes d'" using eq [of Table_routes] by (auto simp: inj_def elim!: inj)
  show "db_stops d = db_stops d'" using eq [of Table_stops] by (auto simp: inj_def elim!: inj)
  show "db_trips d = db_trips d'" using eq [of Table_trips] by (auto simp: inj_def elim!: inj)
  show "db_stop_times d = db_stop_times d'" using eq [of Table_stop_times] by (auto simp: inj_def elim!: inj)
  show "db_calendar d = db_calendar d'" using eq [of Table_calendar] by (auto simp: inj_def elim!: inj)
  show "db_calendar_dates d = db_calendar_dates d'"
    using eq [of Table_calendar_dates] by (auto simp: inj_def elim!: inj)
qed

text \<open>One stored row: it is appended to its table, and nothing else changes.\<close>

lemma store_row_rows:
  "store_row r d = Inr d' \<Longrightarrow> table_rows tb d' = table_rows tb d @ (if row_table r = tb then [r] else [])"
  by (cases r; cases tb; auto)

lemma store_row_frame:
  "store_row r d = Inr d' \<Longrightarrow> db_versions d' = db_versions d \<and> db_version_seq d' = db_version_seq d \<and>
     db_faults d' = db_faults d \<and> db_stop_events d' = db_stop_events d"
  by (cases r; auto)

lemma al_wf_snoc [simp]: "al_wf (t @ [(k, v)]) \<longleftrightarrow> al_wf t \<and> map_of t k = None"
  by (auto simp: al_wf_def map_of_eq_None_iff)

lemma store_row_wf: "store_row r d = Inr d' \<Longrightarrow> tables_wf d \<Longrightarrow> tables_wf d'"
  by (cases r; auto simp: tables_wf_def)

lemma insert_row_Inr:
  "insert_row r d = Inr d' \<longleftrightarrow> row_fits r \<and> map_of (db_versions d) (row_version r) \<noteq> None \<and> store_row r d = Inr d'"
  by (auto simp: insert_row_def)

lemma insert_rows:
  assumes "first_error insert_row rows d = Inr d'"
  shows "table_rows tb d' = table_rows tb d @ filter (\<lambda>r. row_table r = tb) rows \<and>
    db_versions d' = db_versions d \<and> db_version_seq d' = db_version_seq d \<and>
    db_faults d' = db_faults d \<and> (tables_wf d \<longrightarrow> tables_wf d')"
  using assms
proof (induction rows arbitrary: d)
  case Nil
  then show ?case by simp
next
  case (Cons r rows)
  then obtain d1 where s: "store_row r d = Inr d1" and rest: "first_error insert_row rows d1 = Inr d'"
    by (auto simp: insert_row_Inr split: sum.splits)
  show ?case
    using Cons.IH [OF rest] store_row_rows [OF s, of tb] store_row_frame [OF s] store_row_wf [OF s] by auto
qed

text \<open>The schedule statements only look at the schedule.\<close>

definition same_result :: "db result \<Rightarrow> db result \<Rightarrow> bool" where
  "same_result r r' \<longleftrightarrow> (case (r, r') of
     (Inl e, Inl e') \<Rightarrow> e = e' | (Inr d, Inr d') \<Rightarrow> schedule_part d = schedule_part d' | _ \<Rightarrow> False)"

lemma same_result_simps [simp]:
  "same_result (Inl e) (Inl e') \<longleftrightarrow> e = e'" "same_result (Inr d) (Inr d') \<longleftrightarrow> schedule_part d = schedule_part d'"
  "\<not> same_result (Inl e) (Inr d)" "\<not> same_result (Inr d) (Inl e)"
  by (simp_all add: same_result_def)

lemma first_error_same:
  assumes "\<And>x d d'. schedule_part d = schedule_part d' \<Longrightarrow> same_result (f x d) (f x d')"
    and "schedule_part d = schedule_part d'"
  shows "same_result (first_error f xs d) (first_error f xs d')"
  using assms(2)
proof (induction xs arbitrary: d d')
  case Nil
  then show ?case by simp
next
  case (Cons x xs)
  show ?case
    using assms(1) [OF Cons.prems, of x] Cons.IH by (cases "f x d"; cases "f x d'"; simp)
qed

lemma insert_row_same:
  assumes "schedule_part d = schedule_part d'"
  shows "same_result (insert_row r d) (insert_row r d')"
proof -
  note t = schedule_part_tables [OF assms]
  have v: "db_versions d = db_versions d'" using assms by (simp add: schedule_part_def)
  have "same_result (store_row r d) (store_row r d')"
  proof (cases "store_row r d")
    case (Inl e)
    then have "store_row r d' = Inl e" by (cases r; simp add: t)
    with Inl show ?thesis by simp
  next
    case (Inr d1)
    then obtain d2 where s2: "store_row r d' = Inr d2" by (cases r; simp add: t)
    show ?thesis
      using Inr s2 store_row_rows [OF Inr] store_row_rows [OF s2] store_row_frame [OF Inr]
        store_row_frame [OF s2] assms by (simp add: schedule_part_eq)
  qed
  then show ?thesis by (simp add: insert_row_def v)
qed

lemma update_version_part [simp]:
  "db_versions (update_version v f d) = map (\<lambda>(i, r). (i, if i = v then f r else r)) (db_versions d)"
  "table_rows tb (update_version v f d) = table_rows tb d"
  by (simp_all add: update_version_def)

lemma apply_stmt_same:
  assumes "schedule_part d = schedule_part d'"
  shows "same_result (apply_stmt s d) (apply_stmt s d')"
proof (cases s)
  case (Copy_rows rows)
  then show ?thesis using first_error_same [OF insert_row_same assms] by simp
qed (use assms in \<open>auto simp: schedule_part_eq Let_def\<close>)

lemma tx_view_same: "schedule_part d = schedule_part d' \<Longrightarrow> same_result (tx_view t d) (tx_view t d')"
  unfolding tx_view_def by (rule first_error_same [OF apply_stmt_same])

section \<open>The log of an open load\<close>

primrec stmt_rows :: "tx_stmt \<Rightarrow> gtfs_row list" where
  "stmt_rows (Set_meta v fv tz) = []"
| "stmt_rows (Copy_rows rows) = rows"
| "stmt_rows (Set_loaded v now) = []"
| "stmt_rows Deactivate = []"
| "stmt_rows (Activate v) = []"

abbreviation log_rows :: "tx_stmt list \<Rightarrow> gtfs_row list" where
  "log_rows log \<equiv> concat (map stmt_rows log)"

primrec stmt_meta :: "tx_stmt \<Rightarrow> version_row \<Rightarrow> version_row" where
  "stmt_meta (Set_meta v fv tz) r = r\<lparr>rv_feed_version := fv, rv_agency_tz := tz\<rparr>"
| "stmt_meta (Copy_rows rows) r = r"
| "stmt_meta (Set_loaded v now) r = r"
| "stmt_meta Deactivate r = r"
| "stmt_meta (Activate v) r = r"

text \<open>Before the commit the log only sets the metadata of the new version and copies rows.\<close>

primrec load_stmt :: "int \<Rightarrow> tx_stmt \<Rightarrow> bool" where
  "load_stmt v (Set_meta v' fv tz) = (v' = v)"
| "load_stmt v (Copy_rows rows) = list_all (\<lambda>r. row_version r = v) rows"
| "load_stmt v (Set_loaded v' now) = False"
| "load_stmt v Deactivate = False"
| "load_stmt v (Activate v') = False"

lemma first_error_append:
  "first_error f (xs @ ys) s = (case first_error f xs s of Inl e \<Rightarrow> Inl e | Inr s' \<Rightarrow> first_error f ys s')"
  by (induction xs arbitrary: s) (auto split: sum.splits)

lemma load_log_view:
  assumes "first_error apply_stmt log d = Inr d'" and "list_all (load_stmt v) log"
  shows "table_rows tb d' = table_rows tb d @ filter (\<lambda>r. row_table r = tb) (log_rows log) \<and>
    db_versions d' = map (\<lambda>(i, r). (i, if i = v then fold stmt_meta log r else r)) (db_versions d) \<and>
    db_version_seq d' = db_version_seq d \<and> db_faults d' = db_faults d \<and> (tables_wf d \<longrightarrow> tables_wf d')"
  using assms
proof (induction log arbitrary: d)
  case Nil
  then show ?case by (simp add: case_prod_beta cong: if_cong)
next
  case (Cons s log)
  then obtain d1 where s: "apply_stmt s d = Inr d1" and rest: "first_error apply_stmt log d1 = Inr d'"
    by (auto split: sum.splits)
  have "table_rows tb d1 = table_rows tb d @ filter (\<lambda>r. row_table r = tb) (stmt_rows s) \<and>
      db_versions d1 = map (\<lambda>(i, r). (i, if i = v then stmt_meta s r else r)) (db_versions d) \<and>
      db_version_seq d1 = db_version_seq d \<and> db_faults d1 = db_faults d \<and> (tables_wf d \<longrightarrow> tables_wf d1)"
    using s Cons.prems(2) insert_rows [of _ d d1 tb]
    by (cases s) (auto simp: case_prod_beta tables_wf_def update_version_def cong: if_cong)
  then show ?case
    using Cons.IH [OF rest] Cons.prems(2) by (auto simp: case_prod_beta comp_def intro!: map_cong)
qed

text \<open>Activating one version after the others have been deactivated breaks no constraint.\<close>

lemma one_active_single:
  assumes "al_wf vs" and "\<And>i r. (i, r) \<in> set vs \<Longrightarrow> rv_active r \<Longrightarrow> i = v"
  shows "one_active vs"
proof -
  have "length (filter (\<lambda>(i, r). rv_active r) vs) \<le> length (filter (\<lambda>x. fst x = v) vs)"
    using assms(2) by (induction vs) (auto, fastforce+)
  also have "\<dots> \<le> 1"
    using assms(1) by (induction vs) (auto simp: al_wf_def filter_empty_conv, force+)
  finally show ?thesis by (simp add: one_active_def)
qed

definition committed_version :: "int \<Rightarrow> instant \<Rightarrow> tx_stmt list \<Rightarrow> int \<times> version_row \<Rightarrow> int \<times> version_row" where
  "committed_version v now log x = (case x of (i, r) \<Rightarrow>
     (i, if i = v then (fold stmt_meta log r)\<lparr>rv_loaded_at := Some now, rv_active := True\<rparr>
         else r\<lparr>rv_active := False\<rparr>))"

lemma commit_view:
  assumes "list_all (load_stmt v) log" and "al_wf (db_versions d)"
    and "first_error apply_stmt (log @ [Set_loaded v now, Deactivate, Activate v]) d = Inr d'"
  shows "table_rows tb d' = table_rows tb d @ filter (\<lambda>r. row_table r = tb) (log_rows log) \<and>
    db_versions d' = map (committed_version v now log) (db_versions d) \<and>
    db_version_seq d' = db_version_seq d \<and> (tables_wf d \<longrightarrow> tables_wf d')"
proof -
  obtain d1 where d1: "first_error apply_stmt log d = Inr d1"
    using assms(3) by (auto simp: first_error_append split: sum.splits)
  note l = load_log_view [OF d1 assms(1), of tb]
  let ?d2 = "update_version v (\<lambda>r. r\<lparr>rv_active := True\<rparr>)
      ((update_version v (\<lambda>r. r\<lparr>rv_loaded_at := Some now\<rparr>) d1)
        \<lparr>db_versions := map (\<lambda>(i, r). (i, r\<lparr>rv_active := False\<rparr>))
           (db_versions (update_version v (\<lambda>r. r\<lparr>rv_loaded_at := Some now\<rparr>) d1))\<rparr>)"
  have "d' = ?d2"
    using assms(3) d1 by (auto simp: first_error_append Let_def split: if_splits)
  moreover have "db_versions ?d2 = map (committed_version v now log) (db_versions d)"
    using l by (auto simp: committed_version_def)
  ultimately show ?thesis
    using l by (simp add: tables_wf_def update_version_def)
qed

text \<open>Such a commit is never refused for the active flag.\<close>

lemma commit_view_succeeds:
  assumes "first_error apply_stmt log d = Inr d1" and "list_all (load_stmt v) log" and "al_wf (db_versions d)"
  shows "\<exists>d'. first_error apply_stmt (log @ [Set_loaded v now, Deactivate, Activate v]) d = Inr d'"
proof -
  let ?vs = "map (\<lambda>(i, r). (i, if i = v then r\<lparr>rv_active := True\<rparr> else r))
      (map (\<lambda>(i, r). (i, r\<lparr>rv_active := False\<rparr>))
        (map (\<lambda>(i, r). (i, if i = v then r\<lparr>rv_loaded_at := Some now\<rparr> else r)) (db_versions d1)))"
  have wf: "al_wf (db_versions d1)"
    using load_log_view [OF assms(1,2)] assms(3) by (simp add: al_wf_def comp_def case_prod_beta)
  have "one_active ?vs"
  proof (rule one_active_single)
    show "al_wf ?vs" using wf by (simp add: al_wf_def comp_def case_prod_beta)
  qed (auto split: if_splits)
  then show ?thesis
    by (simp add: first_error_append assms(1) Let_def)
qed

section \<open>Runs of a load\<close>

abbreviation load_log :: "schedule_load \<Rightarrow> tx_stmt list" where
  "load_log l \<equiv> tx_log (sl_tx l)"

definition load_sane :: "schedule_load \<Rightarrow> bool" where
  "load_sane l \<longleftrightarrow> (tx_state (sl_tx l) = Tx_open \<longrightarrow> list_all (load_stmt (sl_id l)) (load_log l)) \<and>
     (\<forall>tb. \<forall>r \<in> set (sl_buf l tb). row_table r = tb \<and> row_version r = sl_id l)"

abbreviation load_open :: "schedule_load \<Rightarrow> bool" where
  "load_open l \<equiv> tx_state (sl_tx l) = Tx_open"

text \<open>The rows of a table that the load holds, sent or still buffered.\<close>

definition load_rows :: "copy_table \<Rightarrow> schedule_load \<Rightarrow> gtfs_row list" where
  "load_rows tb l = filter (\<lambda>r. row_table r = tb) (log_rows (load_log l)) @ sl_buf l tb"

text \<open>What the methods leave alone: all but the buffers, the log and the fate of the transaction.\<close>

definition load_frame :: "load_world \<Rightarrow> load_world \<Rightarrow> bool" where
  "load_frame lw lw' \<longleftrightarrow> sl_id (fst lw') = sl_id (fst lw) \<and> sl_finished (fst lw') = sl_finished (fst lw) \<and>
     tx_began (sl_tx (fst lw')) = tx_began (sl_tx (fst lw)) \<and> (load_open (fst lw') \<longrightarrow> load_open (fst lw)) \<and>
     schedule_part (sys_db (snd lw')) = schedule_part (sys_db (snd lw)) \<and>
     db_version_seq (sys_db (snd lw')) = db_version_seq (sys_db (snd lw))"

lemma load_frame_refl [simp]: "load_frame lw lw"
  by (simp add: load_frame_def)

lemma load_frame_trans: "load_frame a b \<Longrightarrow> load_frame b c \<Longrightarrow> load_frame a c"
  by (auto simp: load_frame_def)

lemma tx_exec_effect:
  assumes "tx_exec s t w = (e, t', w')"
  shows "tx_began t' = tx_began t \<and> (tx_state t' = Tx_open \<longrightarrow> tx_state t = Tx_open) \<and>
    (w' = w \<or> w' = on_db drop_fault w) \<and>
    (case e of
       None \<Rightarrow> tx_state t = Tx_open \<and> t' = t\<lparr>tx_log := tx_log t @ [s]\<rparr> \<and> (\<exists>d. tx_view t' (sys_db w) = Inr d)
     | Some x \<Rightarrow> tx_log t' = tx_log t \<and> tx_state t' \<noteq> Tx_open)"
  using assms by (auto simp: tx_exec_def split: tx_state.splits option.splits fault.splits sum.splits)

lemma load_exec_effect:
  assumes "load_exec s lw = (e, lw')"
  shows "load_frame lw lw' \<and> sl_buf (fst lw') = sl_buf (fst lw) \<and>
    (case e of
       None \<Rightarrow> load_open (fst lw) \<and> load_open (fst lw') \<and> load_log (fst lw') = load_log (fst lw) @ [s] \<and>
         (\<exists>d. tx_view (sl_tx (fst lw')) (sys_db (snd lw)) = Inr d)
     | Some x \<Rightarrow> load_log (fst lw') = load_log (fst lw) \<and> \<not> load_open (fst lw'))"
proof -
  obtain l w where lw: "lw = (l, w)" by force
  obtain e' t w' where x: "tx_exec s (sl_tx l) w = (e', t, w')" by (metis prod_cases3)
  have r: "e = e'" "lw' = (l\<lparr>sl_tx := t\<rparr>, w')"
    using assms by (auto simp: load_exec_def lw x)
  show ?thesis
    using tx_exec_effect [OF x] by (auto simp: lw r load_frame_def split: option.splits)
qed

lemma load_flush_effect:
  assumes "load_flush tb lw = (e, lw')" and "load_sane (fst lw)"
  shows "load_frame lw lw' \<and> load_sane (fst lw') \<and>
    (e = None \<longrightarrow> load_open (fst lw) \<longrightarrow> load_open (fst lw')) \<and>
    (e = None \<longrightarrow> (\<forall>tb'. load_rows tb' (fst lw') = load_rows tb' (fst lw)) \<and> sl_buf (fst lw') tb = [] \<and>
       (\<forall>tb'. sl_buf (fst lw) tb' = [] \<longrightarrow> sl_buf (fst lw') tb' = [])) \<and>
    fold stmt_meta (load_log (fst lw')) = fold stmt_meta (load_log (fst lw))"
proof (cases "sl_buf (fst lw) tb = []")
  case True
  then show ?thesis using assms by (simp add: load_flush_def)
next
  case False
  obtain x lw1 where c: "load_exec (Copy_rows (sl_buf (fst lw) tb)) lw = (x, lw1)"
    by (metis surj_pair)
  note eff = load_exec_effect [OF c]
  have buf: "filter (\<lambda>r. row_table r = tb') (sl_buf (fst lw) tb) = (if tb' = tb then sl_buf (fst lw) tb else [])" for tb'
    using assms(2) by (auto simp: load_sane_def filter_id_conv filter_empty_conv)
  show ?thesis
  proof (cases x)
    case None
    then have r: "e = None" "lw' = ((fst lw1)\<lparr>sl_buf := (sl_buf (fst lw1))(tb := [])\<rparr>, snd lw1)"
      using assms(1) False c by (auto simp: load_flush_def split: prod.splits)
    show ?thesis
      using eff assms(2) unfolding None r
      by (auto simp: load_frame_def load_sane_def load_rows_def buf list_all_iff)
  next
    case (Some y)
    then have r: "e = Some (Wrapped ''store: copy'' y)" "lw' = lw1"
      using assms(1) False c by (auto simp: load_flush_def)
    show ?thesis using eff assms(2) unfolding Some r by (auto simp: load_frame_def load_sane_def)
  qed
qed

lemma load_buffer_effect:
  assumes "load_maybe_flush (row_table r) (buffer_row r lw) = (e, lw')" and "load_sane (fst lw)"
    and "row_version r = sl_id (fst lw)"
  shows "load_frame lw lw' \<and> load_sane (fst lw') \<and>
    fold stmt_meta (load_log (fst lw')) = fold stmt_meta (load_log (fst lw)) \<and>
    (e = None \<longrightarrow> (load_open (fst lw) \<longrightarrow> load_open (fst lw')) \<and>
       (\<forall>tb. load_rows tb (fst lw') = load_rows tb (fst lw) @ (if row_table r = tb then [r] else [])))"
proof -
  let ?b = "buffer_row r lw"
  have b: "load_frame lw ?b" "load_sane (fst ?b)" "load_log (fst ?b) = load_log (fst lw)"
    "load_open (fst ?b) = load_open (fst lw)"
    "load_rows tb (fst ?b) = load_rows tb (fst lw) @ (if row_table r = tb then [r] else [])" for tb
    using assms(2,3) by (auto simp: buffer_row_def load_frame_def load_sane_def load_rows_def split: prod.splits)
  show ?thesis
  proof (cases "int (length (sl_buf (fst ?b) (row_table r))) < copy_batch_size")
    case True
    then have "e = None" "lw' = ?b" using assms(1) by (auto simp: load_maybe_flush_def)
    then show ?thesis using b by simp
  next
    case False
    then have f: "load_flush (row_table r) ?b = (e, lw')" using assms(1) by (simp add: load_maybe_flush_def)
    show ?thesis using load_flush_effect [OF f b(2)] b load_frame_trans [OF b(1)] by simp
  qed
qed

text \<open>The rows that a call stands for, under a version; none when a date of it is malformed.\<close>

primrec call_rows :: "int \<Rightarrow> load_call \<Rightarrow> gtfs_row list" where
  "call_rows v (Call_meta fv tz) = []"
| "call_rows v (Call_route r) = [Route_row v (rou_route_id r)
     \<lparr>rw_short_name = rou_short_name r, rw_long_name = rou_long_name r, rw_route_type = rou_route_type r,
      rw_color = rou_color r, rw_text_color = rou_text_color r, rw_sort_order = Some (rou_sort_order r)\<rparr>]"
| "call_rows v (Call_stop s) = [Stop_row v (sto_stop_id s)
     \<lparr>ro_name = sto_name s, ro_lat = Some (sto_lat s), ro_lon = Some (sto_lon s),
      ro_parent_station = sto_parent_station s, ro_location_type = sto_location_type s,
      ro_platform_code = sto_platform_code s\<rparr>]"
| "call_rows v (Call_trip t) = [Trip_row v (tri_trip_id t)
     \<lparr>rt_route_id = tri_route_id t, rt_service_id = tri_service_id t, rt_headsign = tri_headsign t,
      rt_direction_id = tri_direction_id t, rt_shape_id = tri_shape_id t\<rparr>]"
| "call_rows v (Call_stop_time s) = [Stop_time_row v (stt_trip_id s) (stt_stop_sequence s)
     \<lparr>rs_stop_id = stt_stop_id s, rs_arrival_secs = stt_arrival_secs s,
      rs_departure_secs = stt_departure_secs s\<rparr>]"
| "call_rows v (Call_calendar c) =
     (case (date_from_service_date (cal_start_date c), date_from_service_date (cal_end_date c)) of
        (Inr start, Inr stop) \<Rightarrow> [Calendar_row v (cal_service_id c)
          \<lparr>rc_weekdays = cal_weekdays c, rc_start_date = start, rc_end_date = stop\<rparr>]
      | _ \<Rightarrow> [])"
| "call_rows v (Call_calendar_date c) =
     (case date_from_service_date (cad_date c) of
        Inr d \<Rightarrow> [Calendar_date_row v (cad_service_id c) d (cad_exception_type c)] | Inl e \<Rightarrow> [])"

primrec call_meta :: "load_call \<Rightarrow> version_row \<Rightarrow> version_row" where
  "call_meta (Call_meta fv tz) r = r\<lparr>rv_feed_version := fv, rv_agency_tz := tz\<rparr>"
| "call_meta (Call_route x) r = r"
| "call_meta (Call_stop x) r = r"
| "call_meta (Call_trip x) r = r"
| "call_meta (Call_stop_time x) r = r"
| "call_meta (Call_calendar x) r = r"
| "call_meta (Call_calendar_date x) r = r"

definition call_effect :: "load_call \<Rightarrow> go_error option \<Rightarrow> load_world \<Rightarrow> load_world \<Rightarrow> bool" where
  "call_effect c e lw lw' \<longleftrightarrow> load_frame lw lw' \<and> load_sane (fst lw') \<and>
     (e = None \<longrightarrow> (load_open (fst lw) \<longrightarrow> load_open (fst lw')) \<and>
       fold stmt_meta (load_log (fst lw')) = call_meta c \<circ> fold stmt_meta (load_log (fst lw)) \<and>
       (\<forall>tb. load_rows tb (fst lw') =
          load_rows tb (fst lw) @ filter (\<lambda>r. row_table r = tb) (call_rows (sl_id (fst lw)) c)))"

lemma call_effect_buffer:
  assumes "load_maybe_flush tb (buffer_row r lw) = (e, lw')" and "load_sane (fst lw)"
    and "row_version r = sl_id (fst lw)" "row_table r = tb"
    and "call_rows (sl_id (fst lw)) c = [r]" and "call_meta c = id"
  shows "call_effect c e lw lw'"
  using load_buffer_effect [of r lw e lw'] assms unfolding call_effect_def by simp

lemma writer_call_effect:
  assumes "writer_call load_writer c lw = (e, lw')" and "load_sane (fst lw)"
  shows "call_effect c e lw lw'"
proof (cases c)
  case (Call_meta fv tz)
  let ?s = "Set_meta (sl_id (fst lw)) fv tz"
  obtain x lw1 where x: "load_exec ?s lw = (x, lw1)" by (metis surj_pair)
  have r: "e = wrap_error ''store: update schedule version meta'' x" "lw' = lw1"
    using assms(1) by (auto simp: Call_meta load_writer_def load_meta_def x)
  show ?thesis
  proof (cases x)
    case None
    then show ?thesis
      using load_exec_effect [OF x] assms(2) unfolding r call_effect_def Call_meta
      by (auto simp: load_frame_def load_sane_def load_rows_def wrap_error_def fun_eq_iff)
  next
    case (Some y)
    then show ?thesis
      using load_exec_effect [OF x] assms(2) unfolding r call_effect_def Call_meta
      by (auto simp: load_frame_def load_sane_def wrap_error_def)
  qed
next
  case (Call_calendar s)
  show ?thesis
  proof (cases "date_from_service_date (cal_start_date s)")
    case (Inl x)
    then show ?thesis using assms by (auto simp: Call_calendar load_writer_def load_calendar_def call_effect_def)
  next
    case (Inr start)
    show ?thesis
    proof (cases "date_from_service_date (cal_end_date s)")
      case (Inl x)
      then show ?thesis
        using assms Inr by (auto simp: Call_calendar load_writer_def load_calendar_def call_effect_def)
    next
      case i2: (Inr stop)
      show ?thesis
        using assms(1) by (intro call_effect_buffer [OF _ assms(2)])
          (auto simp: Call_calendar load_writer_def load_calendar_def Inr i2 fun_eq_iff)
    qed
  qed
next
  case (Call_calendar_date s)
  show ?thesis
  proof (cases "date_from_service_date (cad_date s)")
    case (Inl x)
    then show ?thesis
      using assms by (auto simp: Call_calendar_date load_writer_def load_calendar_date_def call_effect_def)
  next
    case (Inr d)
    show ?thesis
      using assms(1) by (intro call_effect_buffer [OF _ assms(2)])
        (auto simp: Call_calendar_date load_writer_def load_calendar_date_def Inr fun_eq_iff)
  qed
qed (use assms(1) in \<open>auto simp: load_writer_def load_route_def load_stop_def load_trip_def
      load_stop_time_def fun_eq_iff intro!: call_effect_buffer [OF _ assms(2)]\<close>)

text \<open>
  A run of a load: calls of the writer with their results, and writes of other sessions to
  other tables, in any order.
\<close>

inductive load_run :: "load_world \<Rightarrow> (load_call \<times> go_error option) list \<Rightarrow> load_world \<Rightarrow> bool" where
  run_start: "load_run lw [] lw"
| run_call: "load_run lw tr lw1 \<Longrightarrow> writer_call load_writer c lw1 = (e, lw2) \<Longrightarrow> load_run lw (tr @ [(c, e)]) lw2"
| run_other: "load_run lw tr (l, w1) \<Longrightarrow> schedule_part (sys_db w2) = schedule_part (sys_db w1) \<Longrightarrow>
    db_version_seq (sys_db w2) = db_version_seq (sys_db w1) \<Longrightarrow> load_run lw tr (l, w2)"

abbreviation no_errors :: "(load_call \<times> go_error option) list \<Rightarrow> bool" where
  "no_errors tr \<equiv> list_all (\<lambda>(c, e). e = None) tr"

abbreviation trace_rows :: "int \<Rightarrow> copy_table \<Rightarrow> (load_call \<times> go_error option) list \<Rightarrow> gtfs_row list" where
  "trace_rows v tb tr \<equiv> filter (\<lambda>r. row_table r = tb) (concat (map (\<lambda>(c, e). call_rows v c) tr))"

abbreviation trace_meta :: "(load_call \<times> go_error option) list \<Rightarrow> version_row \<Rightarrow> version_row" where
  "trace_meta tr \<equiv> fold (\<lambda>(c, e). call_meta c) tr"

lemma find_SomeD: "find P xs = Some x \<Longrightarrow> P x \<and> x \<in> set xs"
  by (induction xs) (auto split: if_splits)

lemma load_run_effect:
  assumes "load_run lw tr lw'" and "load_sane (fst lw)"
  shows "load_frame lw lw' \<and> load_sane (fst lw') \<and>
    (no_errors tr \<longrightarrow> (load_open (fst lw) \<longrightarrow> load_open (fst lw')) \<and>
       fold stmt_meta (load_log (fst lw')) = trace_meta tr \<circ> fold stmt_meta (load_log (fst lw)) \<and>
       (\<forall>tb. load_rows tb (fst lw') = load_rows tb (fst lw) @ trace_rows (sl_id (fst lw)) tb tr))"
  using assms
proof (induction rule: load_run.induct)
  case (run_start lw)
  then show ?case by simp
next
  case (run_call lw tr lw1 c e lw2)
  then have IH: "load_frame lw lw1" "load_sane (fst lw1)" by blast+
  have id: "sl_id (fst lw1) = sl_id (fst lw)" using IH(1) by (simp add: load_frame_def)
  note eff = writer_call_effect [OF run_call.hyps(2) IH(2)]
  show ?case
    using run_call.IH [OF run_call.prems] eff load_frame_trans [OF IH(1)]
    unfolding call_effect_def id by (auto simp: fun_eq_iff)
next
  case (run_other lw tr l w1 w2)
  then show ?case by (auto simp: load_frame_def)
qed

section \<open>Commit and abort\<close>

text \<open>The effect of a commit: the rows of the load are appended, and its version alone is active.\<close>

definition load_committed :: "schedule_load \<Rightarrow> db \<Rightarrow> db \<Rightarrow> bool" where
  "load_committed l d d' \<longleftrightarrow> (\<forall>tb. table_rows tb d' = table_rows tb d @ load_rows tb l) \<and>
     db_versions d' = map (committed_version (sl_id l) (tx_began (sl_tx l)) (load_log l)) (db_versions d) \<and>
     db_version_seq d' = db_version_seq d \<and> (tables_wf d \<longrightarrow> tables_wf d')"

lemma flush_all_effect:
  assumes "flush_all tbs lw = (e, lw')" and "load_sane (fst lw)"
  shows "load_frame lw lw' \<and> load_sane (fst lw') \<and>
    (e = None \<longrightarrow> (\<forall>tb'. load_rows tb' (fst lw') = load_rows tb' (fst lw)) \<and>
       (\<forall>tb'. tb' \<in> set tbs \<or> sl_buf (fst lw) tb' = [] \<longrightarrow> sl_buf (fst lw') tb' = [])) \<and>
    fold stmt_meta (load_log (fst lw')) = fold stmt_meta (load_log (fst lw))"
  using assms
proof (induction tbs arbitrary: lw)
  case Nil
  then show ?case by simp
next
  case (Cons tb tbs)
  obtain x lw1 where f: "load_flush tb lw = (x, lw1)" by (metis surj_pair)
  note eff = load_flush_effect [OF f Cons.prems(2)]
  show ?case
  proof (cases x)
    case None
    then have rest: "flush_all tbs lw1 = (e, lw')" using Cons.prems(1) f by simp
    show ?thesis
      using Cons.IH [OF rest] eff None load_frame_trans [of lw lw1 lw'] by auto
  next
    case (Some y)
    then show ?thesis using Cons.prems(1) f eff by auto
  qed
qed

lemma exec_all_effect:
  assumes "exec_all ss lw = (e, lw')"
  shows "load_frame lw lw' \<and> sl_buf (fst lw') = sl_buf (fst lw) \<and>
    (e = None \<longrightarrow> load_log (fst lw') = load_log (fst lw) @ map fst ss \<and>
       (ss \<noteq> [] \<longrightarrow> load_open (fst lw) \<and> load_open (fst lw') \<and>
          (\<exists>d. tx_view (sl_tx (fst lw')) (sys_db (snd lw')) = Inr d))) \<and>
    (e \<noteq> None \<longrightarrow> \<not> load_open (fst lw'))"
  using assms
proof (induction ss arbitrary: lw)
  case Nil
  then show ?case by simp
next
  case (Cons a ss)
  obtain s m where a: "a = (s, m)" by force
  obtain x lw1 where f: "load_exec s lw = (x, lw1)" by (metis surj_pair)
  note eff = load_exec_effect [OF f]
  show ?case
  proof (cases x)
    case None
    then have rest: "exec_all ss lw1 = (e, lw')" using Cons.prems f by (simp add: a)
    have "schedule_part (sys_db (snd lw)) = schedule_part (sys_db (snd lw1))"
      using eff by (simp add: load_frame_def)
    then have "\<exists>d. tx_view (sl_tx (fst lw1)) (sys_db (snd lw1)) = Inr d"
      using eff None tx_view_same [of "sys_db (snd lw)" "sys_db (snd lw1)" "sl_tx (fst lw1)"]
      by (cases "tx_view (sl_tx (fst lw1)) (sys_db (snd lw1))") auto
    then show ?thesis
      using Cons.IH [OF rest] eff None load_frame_trans [of lw lw1 lw'] rest by (cases ss) (auto simp: a)
  next
    case (Some y)
    then show ?thesis using Cons.prems f eff by (auto simp: a)
  qed
qed

lemma copy_tables_all: "tb \<in> set copy_tables"
  by (cases tb) (simp_all add: copy_tables_def)

lemma tx_commit_effect:
  assumes "tx_commit t w = (e, t', w')"
  shows "(e = None \<longrightarrow> tx_state t = Tx_open) \<and> tx_state t' = Tx_finished \<and> tx_began t' = tx_began t \<and>
    (case tx_view t (sys_db w) of
       Inl x \<Rightarrow> sys_db w' = drop_fault (sys_db w) \<or> sys_db w' = sys_db w
     | Inr d \<Rightarrow> tx_state t = Tx_open \<and> sys_db w' = drop_fault d \<or>
         e \<noteq> None \<and> (sys_db w' = drop_fault (sys_db w) \<or> sys_db w' = sys_db w))"
  using assms
  by (auto simp: tx_commit_def Let_def split: tx_state.splits option.splits fault.splits sum.splits if_splits)

lemma load_committed_faults [simp]: "load_committed l d (d'\<lparr>db_faults := f\<rparr>) = load_committed l d d'"
  by (simp add: load_committed_def tables_wf_def)

lemma load_commit_effect:
  assumes "load_commit (l, w) = (r, (l', w'))" and "load_sane l" and "al_wf (db_versions (sys_db w))"
  shows "sl_id l' = sl_id l \<and>
    (case r of
       Inr v \<Rightarrow> v = sl_id l \<and> load_open l \<and> sl_finished l' \<and> load_committed l (sys_db w) (sys_db w')
     | Inl e \<Rightarrow> sl_finished l' = sl_finished l \<and> load_sane l' \<and>
         (load_frame (l, w) (l', w') \<or>
          load_open l \<and> \<not> load_open l' \<and> load_committed l (sys_db w) (sys_db w')))"
proof (cases "sl_finished l")
  case True
  then show ?thesis using assms by (auto simp: load_commit_def)
next
  case False
  obtain e1 lw1 where f: "flush_all copy_tables (l, w) = (e1, lw1)" by (metis surj_pair)
  note fe = flush_all_effect [OF f, simplified fst_conv, OF assms(2)]
  show ?thesis
  proof (cases e1)
    case (Some x)
    then show ?thesis using assms(1) f fe False by (auto simp: load_commit_def load_frame_def)
  next
    case e1: None
    define now where "now = tx_began (sl_tx (fst lw1))"
    obtain e2 l2 w2 where x: "exec_all (commit_stmts (sl_id (fst lw1)) now) lw1 = (e2, (l2, w2))"
      by (metis prod_cases3)
    note xe = exec_all_effect [OF x, simplified]
    have fr: "load_frame (l, w) (l2, w2)"
      using fe xe load_frame_trans by fastforce
    show ?thesis
    proof (cases e2)
      case (Some y)
      have r: "r = Inl y" "l' = l2" "w' = w2"
        using assms(1) f e1 x Some False by (auto simp: load_commit_def now_def)
      show ?thesis
        using fe xe fr Some unfolding r by (auto simp: load_sane_def load_frame_def)
    next
      case e2: None
      let ?log = "load_log (fst lw1)" and ?v = "sl_id l"
      obtain e3 t w3 where c: "tx_commit (sl_tx l2) w2 = (e3, t, w3)" by (metis prod_cases3)
      have ids: "sl_id (fst lw1) = ?v" "sl_id l2 = ?v" "now = tx_began (sl_tx l)"
        "schedule_part (sys_db w2) = schedule_part (sys_db w)" "db_version_seq (sys_db w2) = db_version_seq (sys_db w)"
        using fe fr by (auto simp: load_frame_def now_def)
      have open_l: "load_open l" "load_open (fst lw1)" "load_open l2"
        using xe e2 fr by (auto simp: commit_stmts_def load_frame_def)
      have log2: "load_log l2 = ?log @ [Set_loaded ?v now, Deactivate, Activate ?v]"
        using xe e2 by (simp add: commit_stmts_def ids)
      obtain d where d: "tx_view (sl_tx l2) (sys_db w2) = Inr d"
        using xe e2 by (auto simp: commit_stmts_def)
      have sane: "list_all (load_stmt ?v) ?log" using fe open_l ids by (simp add: load_sane_def)
      have wf2: "al_wf (db_versions (sys_db w2))" using assms(3) ids by (simp add: schedule_part_eq)
      have rows: "filter (\<lambda>r. row_table r = tb) (log_rows ?log) = load_rows tb l" for tb
        using fe e1 copy_tables_all by (auto simp: load_rows_def)
      have same: "table_rows tb (sys_db w2) = table_rows tb (sys_db w)"
        "db_versions (sys_db w2) = db_versions (sys_db w)" for tb
        using ids by (simp_all add: schedule_part_eq)
      have wf: "tables_wf (sys_db w) = tables_wf (sys_db w2)"
        using schedule_part_tables [OF ids(4)] by (simp add: tables_wf_def)
      have fold_eq: "fold stmt_meta ?log = fold stmt_meta (load_log l)" using fe by simp
      have view: "load_committed l (sys_db w) d"
        using commit_view [OF sane wf2, of now d] d ids
        unfolding load_committed_def tx_view_def log2 committed_version_def rows same wf fold_eq ids(3)
        by simp
      note ce = tx_commit_effect [OF c, unfolded d, simplified]
      show ?thesis
      proof (cases e3)
        case None
        then have "r = Inr ?v" "l' = l2\<lparr>sl_tx := t, sl_finished := True\<rparr>" "w' = w3"
          using assms(1) f e1 x e2 c False ids by (auto simp: load_commit_def now_def)
        then show ?thesis using ce None view open_l ids by simp
      next
        case (Some y)
        then have r: "r = Inl (Wrapped ''store: commit schedule load'' y)" "l' = l2\<lparr>sl_tx := t\<rparr>" "w' = w3"
          using assms(1) f e1 x e2 c False ids by (auto simp: load_commit_def now_def)
        have bufs: "sl_buf l2 = sl_buf (fst lw1)" using xe by simp
        show ?thesis
          using ce Some view open_l fe fr bufs ids unfolding r
          by (auto simp: load_frame_def load_sane_def)
      qed
    qed
  qed
qed

section \<open>The tables of the schedule stay consistent\<close>

definition schedule_ok :: "db \<Rightarrow> bool" where
  "schedule_ok d \<longleftrightarrow> al_wf (db_versions d) \<and> tables_wf d \<and>
     (\<forall>(i, r) \<in> set (db_versions d). i < db_version_seq d \<and> (rv_active r \<longrightarrow> rv_loaded_at r \<noteq> None)) \<and>
     distinct (map (\<lambda>(i, r). rv_sha256 r) (db_versions d)) \<and> one_active (db_versions d) \<and>
     (\<forall>tb. \<forall>r \<in> set (table_rows tb d). row_version r \<in> fst ` set (db_versions d))"

text \<open>What readers may see: the versions whose load has committed, and their rows.\<close>

definition loaded_versions :: "db \<Rightarrow> (int \<times> version_row) list" where
  "loaded_versions d = filter (\<lambda>(i, r). rv_loaded_at r \<noteq> None) (db_versions d)"

definition published :: "db \<Rightarrow> (int \<times> version_row) list \<times> (copy_table \<Rightarrow> gtfs_row list)" where
  "published d = (loaded_versions d,
     \<lambda>tb. filter (\<lambda>r. row_version r \<in> fst ` set (loaded_versions d)) (table_rows tb d))"

lemma schedule_ok_part:
  assumes "schedule_part d = schedule_part d'" "db_version_seq d = db_version_seq d'"
  shows "schedule_ok d = schedule_ok d'" "published d = published d'"
  using assms schedule_part_tables [OF assms(1)]
  by (simp_all add: schedule_ok_def published_def loaded_versions_def tables_wf_def schedule_part_eq)

lemma published_active:
  assumes "published d = published d'" "schedule_ok d" "schedule_ok d'"
  shows "db_active d = db_active d'"
proof -
  have find: "db_active x = map_option version_of_row (find (\<lambda>(i, r). rv_active r) (loaded_versions x))"
    if "schedule_ok x" for x
  proof -
    have "find P xs = find P (filter Q xs)" if "\<And>y. y \<in> set xs \<Longrightarrow> P y \<Longrightarrow> Q y"
      for P Q and xs :: "(int \<times> version_row) list"
      using that by (induction xs) auto
    moreover have "\<And>y. y \<in> set (db_versions x) \<Longrightarrow> (case y of (i, r) \<Rightarrow> rv_active r) \<Longrightarrow> (case y of (i, r) \<Rightarrow> rv_loaded_at r \<noteq> None)"
      using that by (auto simp: schedule_ok_def)
    ultimately show ?thesis unfolding db_active_def loaded_versions_def by metis
  qed
  show ?thesis using find [OF assms(2)] find [OF assms(3)] assms(1) by (simp add: published_def)
qed

lemma delete_version_rows [simp]:
  "table_rows tb (delete_version v d) = filter (\<lambda>r. row_version r \<noteq> v) (table_rows tb d)"
  "db_versions (delete_version v d) = filter (\<lambda>(i, r). i \<noteq> v) (db_versions d)"
  "db_version_seq (delete_version v d) = db_version_seq d"
proof -
  have eq: "filter (other_version v) xs = filter (\<lambda>x. fst (fst x) \<noteq> v) xs" for xs :: "((int \<times> 'b) \<times> 'v) list"
    by (rule filter_cong) (simp_all add: other_version_def)
  show "table_rows tb (delete_version v d) = filter (\<lambda>r. row_version r \<noteq> v) (table_rows tb d)"
    by (cases tb; simp add: delete_version_def eq filter_map;
        intro arg_cong [where f = "map f" for f] filter_cong; auto)
qed (simp_all add: delete_version_def)

lemma one_active_filter: "one_active vs \<Longrightarrow> one_active (filter P vs)"
proof -
  assume "one_active vs"
  moreover have "length (filter Q (filter P vs)) \<le> length (filter Q vs)" for Q
    using length_filter_le [of P "filter Q vs"] by (simp add: conj_commute)
  ultimately show ?thesis unfolding one_active_def by (meson order_trans)
qed

lemma delete_version_ok:
  assumes "schedule_ok d"
  shows "schedule_ok (delete_version v d)"
proof -
  have "tables_wf (delete_version v d)"
    using assms by (simp add: schedule_ok_def tables_wf_def delete_version_def)
  moreover have "fst ` set (filter (\<lambda>(i, r). i \<noteq> v) vs) = fst ` set vs - {v}" for vs :: "(int \<times> version_row) list"
    by force
  ultimately show ?thesis
    using assms one_active_filter by (auto simp: schedule_ok_def distinct_map_filter)
qed

lemma delete_version_published:
  assumes "schedule_ok d" and "\<And>r. map_of (db_versions d) v = Some r \<Longrightarrow> rv_loaded_at r = None"
  shows "published (delete_version v d) = published d"
proof -
  have v: "v \<notin> fst ` set (loaded_versions d)"
    using assms by (auto simp: schedule_ok_def al_wf_mem loaded_versions_def)
  have "filter (\<lambda>(i, r). i \<noteq> v) (loaded_versions d) = loaded_versions d"
    using v by (force simp: filter_id_conv)
  then have "loaded_versions (delete_version v d) = loaded_versions d"
    by (simp add: loaded_versions_def case_prod_beta conj_commute)
  moreover have "filter (\<lambda>r. row_version r \<noteq> v \<and> row_version r \<in> fst ` set (loaded_versions d)) rows =
      filter (\<lambda>r. row_version r \<in> fst ` set (loaded_versions d)) rows" for rows
    using v by (intro filter_cong) auto
  ultimately show ?thesis by (simp add: published_def conj_commute)
qed

text \<open>Starting a load: a version row that nobody sees, and an empty open transaction.\<close>

definition fresh_load :: "int \<Rightarrow> instant \<Rightarrow> schedule_load" where
  "fresh_load v now = \<lparr>sl_tx = \<lparr>tx_log = [], tx_state = Tx_open, tx_began = now\<rparr>, sl_id = v,
     sl_finished = False, sl_buf = (\<lambda>_. [])\<rparr>"

lemma insert_version_effect:
  assumes "insert_version sha t d = Inr (d', v)" and "schedule_ok d"
  shows "schedule_ok d' \<and> published d' = published d \<and> v = db_version_seq d \<and>
    db_versions d' = db_versions d @ [(v, \<lparr>rv_sha256 = sha, rv_feed_version = [], rv_agency_tz = [],
      rv_fetched_at = t, rv_loaded_at = None, rv_active = False\<rparr>)] \<and>
    (\<forall>tb. table_rows tb d' = table_rows tb d)"
proof -
  have new: "list_all (\<lambda>(i, r). rv_sha256 r \<noteq> sha) (db_versions d)"
    and d': "d' = d\<lparr>db_versions := db_versions d @ [(db_version_seq d,
            \<lparr>rv_sha256 = sha, rv_feed_version = [], rv_agency_tz = [], rv_fetched_at = t,
             rv_loaded_at = None, rv_active = False\<rparr>)],
          db_version_seq := db_version_seq d + 1\<rparr>" "v = db_version_seq d"
    using assms(1) by (auto simp: insert_version_def list_ex_iff list_all_iff split: if_splits)
  have rows: "table_rows tb d' = table_rows tb d" for tb
    unfolding d' by (cases tb) simp_all
  have fresh: "map_of (db_versions d) (db_version_seq d) = None"
    using assms(2) by (force simp: schedule_ok_def map_of_eq_None_iff)
  have "schedule_ok d'"
    using assms(2) new fresh rows
    by (auto simp: schedule_ok_def d' tables_wf_def one_active_def list_all_iff)
  moreover have "published d' = published d"
    by (simp add: published_def rows) (simp add: loaded_versions_def d')
  ultimately show ?thesis using rows d' by simp
qed

lemma schedule_ok_faults [simp]:
  "schedule_ok (d\<lparr>db_faults := f\<rparr>) = schedule_ok d" "published (d\<lparr>db_faults := f\<rparr>) = published d"
  by (rule schedule_ok_part; simp)+

lemma db_run_effect:
  assumes "db_run stmt w = (r, w')"
  shows "(sys_db w' = drop_fault (sys_db w) \<or> (\<exists>d x. stmt (sys_db w) = Inr (d, x) \<and> sys_db w' = drop_fault d)) \<and>
    (\<forall>x. r = Inr x \<longrightarrow> (\<exists>d. stmt (sys_db w) = Inr (d, x) \<and> sys_db w' = drop_fault d))"
  using assms by (auto simp: db_run_def Let_def split: option.splits fault.splits sum.splits if_splits)

lemma db_exec_effect:
  assumes "db_exec stmt w = (r, w')"
  shows "(sys_db w' = drop_fault (sys_db w) \<or> sys_db w' = drop_fault (fst (stmt (sys_db w)))) \<and>
    (\<forall>n. r = Inr n \<longrightarrow> sys_db w' = drop_fault (fst (stmt (sys_db w))))"
  using assms by (auto simp: db_exec_def split: option.splits fault.splits)

lemma db_query_state:
  assumes "db_query q w = (r, w')"
  shows "w' = on_db drop_fault w \<and> (\<forall>x. r = Inr x \<longrightarrow> x = q (sys_db w))"
  using assms by (auto simp: db_query_def split: option.splits fault.splits)

definition new_version_row :: "string \<Rightarrow> instant \<Rightarrow> version_row" where
  "new_version_row sha t = \<lparr>rv_sha256 = sha, rv_feed_version = [], rv_agency_tz = [],
     rv_fetched_at = t, rv_loaded_at = None, rv_active = False\<rparr>"

lemma start_load_effect:
  assumes "start_load sha t w = (r, w')" and "schedule_ok (sys_db w)"
  shows "schedule_ok (sys_db w') \<and> published (sys_db w') = published (sys_db w) \<and>
    (\<forall>l. r = Inr l \<longrightarrow> (\<exists>now. l = fresh_load (db_version_seq (sys_db w)) now) \<and>
       map_of (db_versions (sys_db w')) (sl_id l) = Some (new_version_row sha t) \<and>
       (\<forall>tb. table_rows tb (sys_db w') = table_rows tb (sys_db w)) \<and>
       (\<forall>tb. \<forall>x \<in> set (table_rows tb (sys_db w')). row_version x \<noteq> sl_id l))"
proof -
  obtain r1 w1 where run: "db_run (insert_version sha t) w = (r1, w1)" by (metis surj_pair)
  note eff = db_run_effect [OF run]
  have base: "schedule_ok (sys_db w1)" "published (sys_db w1) = published (sys_db w)"
    using eff insert_version_effect [OF _ assms(2)] assms(2) by auto
  show ?thesis
  proof (cases r1)
    case (Inl e)
    then show ?thesis using assms run base by (auto simp: start_load_def)
  next
    case (Inr v)
    then obtain d where ins: "insert_version sha t (sys_db w) = Inr (d, v)" and d: "sys_db w1 = drop_fault d"
      using eff by blast
    note ie = insert_version_effect [OF ins assms(2)]
    obtain r2 w2 where q: "db_query (\<lambda>_. ()) w1 = (r2, w2)" by (metis surj_pair)
    have w2: "sys_db w2 = drop_fault (drop_fault d)" using db_query_state [OF q] d by simp
    have w': "w' = w2" using assms(1) run Inr q by (auto simp: start_load_def split: sum.splits)
    have none: "map_of (db_versions (sys_db w)) v = None"
      using assms(2) ie by (force simp: schedule_ok_def map_of_eq_None_iff)
    then have "v \<notin> fst ` set (db_versions (sys_db w))" by (simp add: map_of_eq_None_iff)
    then have rows: "\<forall>tb. \<forall>x \<in> set (table_rows tb (sys_db w)). row_version x \<noteq> v"
      using assms(2) unfolding schedule_ok_def by blast
    have vs: "db_versions d = db_versions (sys_db w) @ [(v, new_version_row sha t)]"
      using ie by (simp add: new_version_row_def)
    have row: "map_of (db_versions d) v = Some (new_version_row sha t)"
      using none by (simp add: vs map_add_def)
    have tabs: "schedule_ok d" "published d = published (sys_db w)" "v = db_version_seq (sys_db w)"
      "\<forall>tb. table_rows tb d = table_rows tb (sys_db w)"
      using ie by simp_all
    moreover have "l = fresh_load v (db_clock (sys_db w1))" if "r = Inr l" for l
      using assms(1) run Inr q that by (auto simp: start_load_def fresh_load_def split: sum.splits)
    moreover have "sl_id (fresh_load v now) = v" for now by (simp add: fresh_load_def)
    ultimately show ?thesis
      using rows row unfolding w' w2 by auto
  qed
qed

lemma new_schedule_load_effect:
  assumes "new_schedule_load sha t w = (r, w')" and "schedule_ok (sys_db w)"
  shows "schedule_ok (sys_db w') \<and> published (sys_db w') = published (sys_db w) \<and>
    (\<forall>l. r = Inr l \<longrightarrow> (\<exists>v now. l = fresh_load v now) \<and>
       map_of (db_versions (sys_db w')) (sl_id l) = Some (new_version_row sha t) \<and>
       (\<forall>tb. \<forall>x \<in> set (table_rows tb (sys_db w')). row_version x \<noteq> sl_id l))"
proof -
  let ?q = "\<lambda>d. find (\<lambda>(i, r). rv_sha256 r = sha) (db_versions d)"
  obtain r1 w1 where q: "db_query ?q w = (r1, w1)" by (metis surj_pair)
  have w1: "sys_db w1 = drop_fault (sys_db w)" using db_query_state [OF q] by simp
  have ok1: "schedule_ok (sys_db w1)" using assms(2) w1 by simp
  show ?thesis
  proof (cases r1)
    case (Inl e)
    then show ?thesis using assms q w1 by (auto simp: new_schedule_load_def)
  next
    case 3: (Inr found)
    show ?thesis
    proof (cases found)
    case None
    then have "start_load sha t w1 = (r, w')" using assms(1) q 3 by (simp add: new_schedule_load_def)
    from start_load_effect [OF this ok1] show ?thesis using w1 by simp blast
  next
    case some: (Some vx)
    obtain v x where vx: "vx = (v, x)" by force
    note 3 = 3 [unfolded some vx]
    have "find (\<lambda>(i, r). rv_sha256 r = sha) (db_versions (sys_db w)) = Some (v, x)"
      using db_query_state [OF q] 3 by simp
    then have mem: "(v, x) \<in> set (db_versions (sys_db w))"
      using find_SomeD by fastforce
    show ?thesis
    proof (cases "rv_loaded_at x = None")
      case False
      then show ?thesis using assms q 3 w1 by (auto simp: new_schedule_load_def)
    next
      case True
      obtain r2 w2 where e: "db_exec (delete_version_stmt v) w1 = (r2, w2)" by (metis surj_pair)
      have "map_of (db_versions (sys_db w1)) v = Some x"
        using mem assms(2) w1 by (simp add: schedule_ok_def al_wf_mem)
      then have del: "schedule_ok (sys_db w2)" "published (sys_db w2) = published (sys_db w)"
        using db_exec_effect [OF e] delete_version_ok [OF ok1] delete_version_published [OF ok1, of v] True ok1 w1
        by (auto simp: delete_version_stmt_def)
      show ?thesis
      proof (cases r2)
        case (Inl y)
        then show ?thesis using assms(1) q 3 True e del by (auto simp: new_schedule_load_def)
      next
        case (Inr n)
        then have "start_load sha t w2 = (r, w')" using assms(1) q 3 True e by (simp add: new_schedule_load_def)
        from start_load_effect [OF this del(1)] show ?thesis using del by simp blast
      qed
    qed
  qed
  qed
qed

lemma delete_version_faults [simp]:
  "schedule_part (delete_version v (d\<lparr>db_faults := f\<rparr>)) = schedule_part (delete_version v d)"
proof -
  have "delete_version v (d\<lparr>db_faults := f\<rparr>) = (delete_version v d)\<lparr>db_faults := f\<rparr>"
    by (simp add: delete_version_def)
  then show ?thesis by simp
qed

lemma load_abort_effect:
  assumes "load_abort (l, w) = (e, (l', w'))" and "\<not> sl_finished l"
  shows "db_version_seq (sys_db w') = db_version_seq (sys_db w) \<and>
    (schedule_part (sys_db w') = schedule_part (delete_version (sl_id l) (sys_db w)) \<or>
     e \<noteq> None \<and> schedule_part (sys_db w') = schedule_part (sys_db w))"
proof -
  obtain x t w1 where rb: "tx_rollback (sl_tx l) w = (x, t, w1)" by (metis prod_cases3)
  have w1: "sys_db w1 = sys_db w \<or> sys_db w1 = drop_fault (sys_db w)"
    using rb by (auto simp: tx_rollback_def split: tx_state.splits option.splits fault.splits)
  obtain y w2 where ex: "db_exec (delete_version_stmt (sl_id l)) w1 = (y, w2)" by (metis surj_pair)
  have r: "w' = w2" "e = None \<Longrightarrow> \<exists>n. y = Inr n"
    using assms rb ex by (auto simp: load_abort_def Let_def split: sum.splits option.splits if_splits)
  show ?thesis
    using db_exec_effect [OF ex] w1 r by (cases y) (auto simp: delete_version_stmt_def)
qed

lemma stmt_meta_frame [simp]:
  "rv_sha256 (fold stmt_meta log r) = rv_sha256 r" "rv_fetched_at (fold stmt_meta log r) = rv_fetched_at r"
proof -
  have "rv_sha256 (stmt_meta s r) = rv_sha256 r" "rv_fetched_at (stmt_meta s r) = rv_fetched_at r" for s r
    by (cases s; simp)+
  then show "rv_sha256 (fold stmt_meta log r) = rv_sha256 r"
    "rv_fetched_at (fold stmt_meta log r) = rv_fetched_at r"
    by (induction log arbitrary: r) simp_all
qed

lemma load_rows_version:
  assumes "load_sane l" "load_open l" "r \<in> set (load_rows tb l)"
  shows "row_version r = sl_id l"
proof -
  have "row_version x = v" if "load_stmt v s" "x \<in> set (stmt_rows s)" for x s v
    using that by (cases s) (auto simp: list_all_iff)
  then show ?thesis
    using assms by (auto simp: load_sane_def load_rows_def list_all_iff)
qed

lemma load_committed_ok:
  assumes c: "load_committed l d d'" and ok: "schedule_ok d" and l: "load_sane l" "load_open l"
    and id: "sl_id l \<in> fst ` set (db_versions d)"
  shows "schedule_ok d'"
proof -
  let ?f = "committed_version (sl_id l) (tx_began (sl_tx l)) (load_log l)"
  have vs: "db_versions d' = map ?f (db_versions d)" and seq: "db_version_seq d' = db_version_seq d"
    and rows: "table_rows tb d' = table_rows tb d @ load_rows tb l" and tabs: "tables_wf d'" for tb
    using c ok by (auto simp: load_committed_def schedule_ok_def)
  have fst_f: "fst (?f x) = fst x" and sha_f: "rv_sha256 (snd (?f x)) = rv_sha256 (snd x)" for x
    by (auto simp: committed_version_def split: prod.splits)
  have act: "i = sl_id l \<and> rv_loaded_at r \<noteq> None" if "(i, r) \<in> set (db_versions d')" "rv_active r" for i r
    using that by (auto simp: vs committed_version_def split: if_splits)
  have wf: "al_wf (db_versions d')"
    using ok by (simp add: vs al_wf_def schedule_ok_def comp_def fst_f)
  have keys: "fst ` set (db_versions d') = fst ` set (db_versions d)"
    by (simp add: vs image_image fst_f)
  have "map (\<lambda>(i, r). rv_sha256 r) (db_versions d') = map (\<lambda>(i, r). rv_sha256 r) (db_versions d)"
    by (simp add: vs case_prod_beta sha_f)
  moreover have "\<forall>(i, r) \<in> set (db_versions d'). i < db_version_seq d'"
  proof clarify
    fix i r
    assume "(i, r) \<in> set (db_versions d')"
    then have "i \<in> fst ` set (db_versions d)" by (metis fst_conv image_eqI keys)
    then show "i < db_version_seq d'" using ok by (auto simp: schedule_ok_def seq)
  qed
  moreover have "one_active (db_versions d')"
    by (rule one_active_single [OF wf]) (use act in blast)
  moreover have "row_version r \<in> fst ` set (db_versions d')" if "r \<in> set (table_rows tb d')" for r tb
  proof (cases "r \<in> set (load_rows tb l)")
    case True
    then show ?thesis using id load_rows_version [OF l] keys by metis
  next
    case False
    then show ?thesis using that ok by (simp add: rows keys schedule_ok_def)
  qed
  ultimately show ?thesis
    using ok wf tabs act by (auto simp: schedule_ok_def)
qed

section \<open>The life of a load\<close>

text \<open>
  The loader of a process: a load starts or is refused, calls run, it is committed or
  aborted, or the process dies. Other sessions write other tables in between.
\<close>

inductive loader_step :: "schedule_load option \<times> store sys \<Rightarrow> schedule_load option \<times> store sys \<Rightarrow> bool" where
  load_begins: "new_schedule_load sha t w = (Inr l, w') \<Longrightarrow> loader_step (None, w) (Some l, w')"
| load_refused: "new_schedule_load sha t w = (Inl e, w') \<Longrightarrow> loader_step (None, w) (None, w')"
| load_calls: "load_run (l, w) tr (l', w') \<Longrightarrow> loader_step (Some l, w) (Some l', w')"
| load_commits: "load_commit (l, w) = (Inr v, (l', w')) \<Longrightarrow> loader_step (Some l, w) (None, w')"
| load_commit_fails: "load_commit (l, w) = (Inl e, (l', w')) \<Longrightarrow> loader_step (Some l, w) (Some l', w')"
| load_aborts: "load_abort (l, w) = (e, (l', w')) \<Longrightarrow> loader_step (Some l, w) (None, w')"
| load_crashes: "loader_step (Some l, w) (None, w)"
| load_others: "schedule_part (sys_db w') = schedule_part (sys_db w) \<Longrightarrow>
    db_version_seq (sys_db w') = db_version_seq (sys_db w) \<Longrightarrow> loader_step (lo, w) (lo, w')"

definition loader_ok :: "schedule_load option \<times> store sys \<Rightarrow> bool" where
  "loader_ok x \<longleftrightarrow> schedule_ok (sys_db (snd x)) \<and>
     (\<forall>l. fst x = Some l \<longrightarrow> load_sane l \<and> \<not> sl_finished l \<and> sl_id l \<in> fst ` set (db_versions (sys_db (snd x))))"

lemma frame_loader_ok:
  assumes "load_frame (l, w) (l', w')" "load_sane l'" "loader_ok (Some l, w)"
  shows "loader_ok (Some l', w')"
  using assms schedule_ok_part(1) [of "sys_db w'" "sys_db w"]
  by (auto simp: loader_ok_def load_frame_def schedule_part_eq)

lemma loader_ok_step: "loader_step x y \<Longrightarrow> loader_ok x \<Longrightarrow> loader_ok y"
proof (induction rule: loader_step.induct)
  case (load_begins sha t w l w')
  then have ok: "schedule_ok (sys_db w)" by (simp add: loader_ok_def)
  note eff = new_schedule_load_effect [OF load_begins(1) ok]
  then have "sl_id l \<in> fst ` set (db_versions (sys_db w'))"
    by (metis (no_types, lifting) domI dom_map_of_conv_image_fst)
  then show ?case using eff by (auto simp: loader_ok_def fresh_load_def load_sane_def)
next
  case (load_refused sha t w e w')
  then show ?case using new_schedule_load_effect [OF load_refused(1)] by (simp add: loader_ok_def)
next
  case (load_calls l w tr l' w')
  then have "load_sane l" by (simp add: loader_ok_def)
  then show ?case
    using load_run_effect [OF load_calls(1)] load_calls(2) by (auto intro: frame_loader_ok)
next
  case (load_commits l w v l' w')
  then have "load_sane l" "al_wf (db_versions (sys_db w))" by (simp_all add: loader_ok_def schedule_ok_def)
  then show ?case
    using load_commit_effect [OF load_commits(1)] load_commits(2) load_committed_ok
    by (auto simp: loader_ok_def)
next
  case (load_commit_fails l w e l' w')
  have sane: "load_sane l" "al_wf (db_versions (sys_db w))"
    using load_commit_fails(2) by (simp_all add: loader_ok_def schedule_ok_def)
  note eff = load_commit_effect [OF load_commit_fails(1) sane]
  show ?case
  proof (cases "load_frame (l, w) (l', w')")
    case True
    then show ?thesis using eff load_commit_fails(2) by (auto intro: frame_loader_ok)
  next
    case False
    then have c: "load_open l" "\<not> load_open l'" "load_committed l (sys_db w) (sys_db w')" "sl_id l' = sl_id l"
      "sl_finished l' = sl_finished l" "load_sane l'" using eff by auto
    have "fst ` set (db_versions (sys_db w')) = fst ` set (db_versions (sys_db w))"
      using c(3) by (force simp: load_committed_def image_image committed_version_def)
    then show ?thesis
      using c sane load_commit_fails(2) load_committed_ok [OF c(3)] by (auto simp: loader_ok_def)
  qed
next
  case (load_aborts l w e l' w')
  then have ok: "schedule_ok (sys_db w)" and fin: "\<not> sl_finished l" by (simp_all add: loader_ok_def)
  note eff = load_abort_effect [OF load_aborts(1) fin]
  have "schedule_ok (sys_db w')"
    using eff ok delete_version_ok [OF ok, of "sl_id l"] schedule_ok_part(1) [of "sys_db w'" "sys_db w"]
      schedule_ok_part(1) [of "sys_db w'" "delete_version (sl_id l) (sys_db w)"] by auto
  then show ?case by (simp add: loader_ok_def)
next
  case (load_crashes l w)
  then show ?case by (simp add: loader_ok_def)
next
  case (load_others w' w lo)
  then show ?case
    using schedule_ok_part(1) [OF load_others(1,2)] by (simp add: loader_ok_def schedule_part_eq)
qed

section \<open>Properties\<close>

lemma call_rows_version: "r \<in> set (call_rows v c) \<Longrightarrow> row_version r = v"
  by (cases c) (auto split: sum.splits)

lemma filter_two_parts:
  assumes "\<And>x. x \<in> set xs \<Longrightarrow> \<not> P x" "\<And>y. y \<in> set ys \<Longrightarrow> P y"
  shows "filter P (xs @ ys) = ys \<and> filter (\<lambda>x. \<not> P x) (xs @ ys) = xs"
  using assms by (simp add: filter_empty_conv filter_id_conv)

lemma find_active_single:
  assumes "al_wf vs" "map_of vs v = Some r" "rv_active r"
    and "\<And>i x. (i, x) \<in> set vs \<Longrightarrow> rv_active x \<Longrightarrow> i = v"
  shows "find (\<lambda>(i, r). rv_active r) vs = Some (v, r)"
  using assms
proof (induction vs)
  case Nil
  then show ?case by simp
next
  case (Cons y vs)
  obtain i x where y: "y = (i, x)" by force
  show ?case
  proof (cases "i = v")
    case True
    then have "x = r" using Cons.prems(2) y by simp
    then show ?thesis using Cons.prems(3) y True by simp
  next
    case False
    then have "\<not> rv_active x" using Cons.prems(4) [of i x] y by auto
    moreover have "find (\<lambda>(i, r). rv_active r) vs = Some (v, r)"
    proof (rule Cons.IH)
      show "al_wf vs" "map_of vs v = Some r" "rv_active r"
        using Cons.prems(1,2,3) False y by (simp_all add: al_wf_def)
      show "i' = v" if "(i', x') \<in> set vs" "rv_active x'" for i' x'
        using Cons.prems(4) [of i' x'] that by simp
    qed
    ultimately show ?thesis by (simp add: y)
  qed
qed

text \<open>Calls one after the other up to the first error.\<close>

fun writer_calls :: "'l schedule_writer \<Rightarrow> load_call list \<Rightarrow> 'l \<Rightarrow> go_error option \<times> 'l" where
  "writer_calls sw [] l = (None, l)"
| "writer_calls sw (c # cs) l =
     (case writer_call sw c l of (Some e, l') \<Rightarrow> (Some e, l') | (None, l') \<Rightarrow> writer_calls sw cs l')"

lemma writer_calls_run:
  assumes "writer_calls load_writer cs lw = (e, lw')" and "load_run lw0 tr lw" and "no_errors tr"
  shows "\<exists>tr'. load_run lw0 tr' lw' \<and> (e = None \<longrightarrow> tr' = tr @ map (\<lambda>c. (c, None)) cs \<and> no_errors tr')"
  using assms
proof (induction cs arbitrary: lw tr)
  case Nil
  then show ?case by auto
next
  case (Cons c cs)
  obtain x lw1 where c: "writer_call load_writer c lw = (x, lw1)" by (metis surj_pair)
  note step = run_call [OF Cons.prems(2) c]
  show ?case
  proof (cases x)
    case None
    then have "writer_calls load_writer cs lw1 = (e, lw')" using Cons.prems(1) c by simp
    from Cons.IH [OF this step] Cons.prems(3) None show ?thesis by auto
  next
    case (Some y)
    then have "lw' = lw1" "e = Some y" using Cons.prems(1) c by auto
    then show ?thesis using step by auto
  qed
qed

definition sample_calls :: "load_call list" where
  "sample_calls =
     [Call_meta ''v1'' ''UTC'',
      Call_route \<lparr>rou_route_id = ''1'', rou_short_name = ''1'', rou_long_name = [], rou_route_type = 3,
        rou_color = [], rou_text_color = [], rou_sort_order = 1\<rparr>,
      Call_trip \<lparr>tri_trip_id = ''T1'', tri_route_id = ''1'', tri_service_id = ''W'', tri_headsign = ''Depot'',
        tri_direction_id = 0, tri_shape_id = []\<rparr>,
      Call_calendar_date \<lparr>cad_service_id = ''W'', cad_date = ''20260801'', cad_exception_type = 1\<rparr>,
      Call_stop_time \<lparr>stt_trip_id = ''T1'', stt_stop_sequence = 1, stt_stop_id = ''A'',
        stt_arrival_secs = 3600, stt_departure_secs = 3600\<rparr>]"

text \<open>A load of these calls on a store whose database fails as given.\<close>

definition sample_load :: "fault option list \<Rightarrow> load_world" where
  "sample_load faults = (case new_schedule_load ''abc'' 5 (opened_store faults) of
     (Inr l, w) \<Rightarrow> snd (writer_calls load_writer sample_calls (l, w)))"

definition sample_new :: "fault option list \<Rightarrow> schedule_load result \<times> store sys" where
  "sample_new faults = new_schedule_load ''abc'' 5 (opened_store faults)"

lemma schedule_ok_opened [simp]: "schedule_ok (sys_db (opened_store f))"
proof -
  have "table_rows tb (sys_db (opened_store f)) = []" for tb
    by (cases tb) (simp_all add: opened_store_def empty_db_def)
  then show ?thesis
    by (simp add: schedule_ok_def opened_store_def empty_db_def tables_wf_def one_active_def)
qed

lemma sample_load_run:
  "\<exists>l w tr. new_schedule_load ''abc'' 5 (opened_store []) = (Inr l, w) \<and> load_run (l, w) tr (sample_load [])"
proof -
  obtain l w where new: "new_schedule_load ''abc'' 5 (opened_store []) = (Inr l, w)"
  proof -
    have "case sample_new [] of (Inr l, w) \<Rightarrow> True | _ \<Rightarrow> False" by code_simp
    then show thesis using that by (auto simp: sample_new_def split: prod.splits sum.splits)
  qed
  have s: "sample_load [] = snd (writer_calls load_writer sample_calls (l, w))"
    by (simp add: sample_load_def new)
  obtain e where "writer_calls load_writer sample_calls (l, w) = (e, sample_load [])"
    by (metis s surj_pair snd_conv)
  from writer_calls_run [OF this run_start] obtain tr where run: "load_run (l, w) tr (sample_load [])" by auto
  then show ?thesis using new by blast
qed

definition sample_loaded :: "store sys" where
  "sample_loaded = snd (snd (load_commit (sample_load [])))"

lemma sample_loaded_steps: "loader_step\<^sup>*\<^sup>* (None, opened_store []) (None, sample_loaded)"
proof -
  obtain l w tr where new: "new_schedule_load ''abc'' 5 (opened_store []) = (Inr l, w)"
    and run: "load_run (l, w) tr (sample_load [])" using sample_load_run by blast
  obtain l2 w2 where lw2: "sample_load [] = (l2, w2)" by force
  have "fst (load_commit (sample_load [])) = Inr 1" by code_simp
  then obtain l3 w3 where c: "load_commit (l2, w2) = (Inr 1, (l3, w3))" by (metis lw2 prod.collapse)
  have "sample_loaded = w3" by (simp add: sample_loaded_def lw2 c)
  then show ?thesis
    by (metis load_begins [OF new] load_calls [OF run [unfolded lw2]] load_commits [OF c]
        converse_rtranclp_into_rtranclp rtranclp.rtrancl_refl)
qed

lemma schedule_ok_sample_loaded: "schedule_ok (sys_db sample_loaded)"
proof -
  have "loader_ok (None, opened_store [])" by (simp add: loader_ok_def)
  with sample_loaded_steps have "loader_ok (None, sample_loaded)"
    by (induction rule: rtranclp_induct) (auto intro: loader_ok_step)
  then show ?thesis by (simp add: loader_ok_def)
qed

lemma load_rows_exact:
  assumes ok: "schedule_ok (sys_db w0)"
    and new: "new_schedule_load sha t w0 = (Inr l, w1)"
    and run: "load_run (l, w1) tr (l2, w2)" and fine: "no_errors tr"
    and commit: "load_commit (l2, w2) = (Inr v, lw3)"
  shows "db_active (sys_db (snd lw3)) = Some (version_of_row (v, (trace_meta tr (new_version_row sha t))
        \<lparr>rv_loaded_at := Some (tx_began (sl_tx l)), rv_active := True\<rparr>)) \<and>
    (\<forall>tb. filter (\<lambda>r. row_version r = v) (table_rows tb (sys_db (snd lw3))) = trace_rows v tb tr \<and>
       filter (\<lambda>r. row_version r \<noteq> v) (table_rows tb (sys_db (snd lw3))) = table_rows tb (sys_db w1))"
proof -
  obtain l3 w3 where lw3: "lw3 = (l3, w3)" by force
  note ne = new_schedule_load_effect [OF new ok]
  obtain now where l: "l = fresh_load (sl_id l) now" using ne by (auto simp: fresh_load_def)
  have sane: "load_sane l" "load_open l" "load_log l = []" "load_rows tb l = []" for tb
    by (subst l; simp add: fresh_load_def load_sane_def load_rows_def)+
  note re = load_run_effect [OF run, simplified fst_conv, OF sane(1)]
  have fr: "schedule_part (sys_db w2) = schedule_part (sys_db w1)" "sl_id l2 = sl_id l"
    "tx_began (sl_tx l2) = tx_began (sl_tx l)"
    "db_version_seq (sys_db w2) = db_version_seq (sys_db w1)"
    using re by (simp_all add: load_frame_def)
  have ok2: "schedule_ok (sys_db w2)" using ne fr schedule_ok_part(1) by blast
  then have wf2: "al_wf (db_versions (sys_db w2))" by (simp add: schedule_ok_def)
  note ce = load_commit_effect [OF commit [unfolded lw3] conjunct1 [OF conjunct2 [OF re]] wf2]
  have v: "v = sl_id l" and c: "load_committed l2 (sys_db w2) (sys_db w3)" using ce fr by auto
  have rows: "table_rows tb (sys_db w3) = table_rows tb (sys_db w1) @ trace_rows v tb tr" for tb
    using c re fine fr sane v by (simp add: load_committed_def schedule_part_eq)
  have old: "row_version r \<noteq> v" if "r \<in> set (table_rows tb (sys_db w1))" for r tb
    using ne that v by blast
  have "row_version r = v" if "r \<in> set (trace_rows v tb tr)" for r tb
    using that call_rows_version by fastforce
  then have split: "filter (\<lambda>r. row_version r = v) (table_rows tb (sys_db w3)) = trace_rows v tb tr \<and>
      filter (\<lambda>r. row_version r \<noteq> v) (table_rows tb (sys_db w3)) = table_rows tb (sys_db w1)" for tb
    unfolding rows using old by (intro filter_two_parts) auto
  let ?r = "(trace_meta tr (new_version_row sha t))\<lparr>rv_loaded_at := Some (tx_began (sl_tx l)), rv_active := True\<rparr>"
  have meta: "fold stmt_meta (load_log l2) = trace_meta tr" using re fine sane by (simp add: fun_eq_iff)
  have vs: "db_versions (sys_db w3) = map (committed_version v (tx_began (sl_tx l)) (load_log l2)) (db_versions (sys_db w2))"
    using c fr v by (simp add: load_committed_def)
  have "map_of (db_versions (sys_db w2)) v = Some (new_version_row sha t)"
    using ne fr v by (simp add: schedule_part_eq)
  then have m: "map_of (db_versions (sys_db w3)) v = Some ?r"
    unfolding vs committed_version_def [abs_def] by (simp add: map_of_map_snd meta)
  have "find (\<lambda>(i, r). rv_active r) (db_versions (sys_db w3)) = Some (v, ?r)"
  proof (rule find_active_single [OF _ m])
    show "al_wf (db_versions (sys_db w3))"
      using wf2 unfolding vs committed_version_def [abs_def] by simp
  qed (auto simp: vs committed_version_def split: if_splits)
  then show ?thesis using split by (simp add: lw3 db_active_def)
qed

text \<open>
  C8: a load is exact. When every call of a load succeeded, whatever other sessions wrote
  in between, and its commit succeeded, the new version is active with the metadata last
  given, its tables hold exactly the rows of the calls in their order, across all flushes,
  and the rows of all other versions are what they were.
\<close>

theorem load_commit_exact:
  assumes ok: "schedule_ok (sys_db w0)"
    and new: "new_schedule_load sha t w0 = (Inr l, w1)"
    and run: "load_run (l, w1) tr (l2, w2)" and fine: "no_errors tr"
    and commit: "load_commit (l2, w2) = (Inr v, lw3)"
  shows "db_active (sys_db (snd lw3)) = Some (version_of_row (v, (trace_meta tr (new_version_row sha t))
        \<lparr>rv_loaded_at := Some (tx_began (sl_tx l)), rv_active := True\<rparr>)) \<and>
    (\<forall>tb. filter (\<lambda>r. row_version r = v) (table_rows tb (sys_db (snd lw3))) = trace_rows v tb tr \<and>
       filter (\<lambda>r. row_version r \<noteq> v) (table_rows tb (sys_db (snd lw3))) = table_rows tb (sys_db w1))"
  using load_rows_exact [OF assms] .

theorem load_commit_exact_witness:
  "let d = sys_db (snd (snd (load_commit (sample_load []))))
   in map_option sv_feed_version (db_active d) = Some ''v1'' \<and> map fst (db_trips d) = [(1, ''T1'')] \<and>
      filter (\<lambda>r. row_version r \<noteq> 1) (table_rows Table_stop_times d) = []"
proof -
  obtain l w where new: "new_schedule_load ''abc'' 5 (opened_store []) = (Inr l, w)"
    and l: "sl_id l = 1" and w: "table_rows Table_stop_times (sys_db w) = []"
  proof -
    have "case sample_new [] of (Inr l, w) \<Rightarrow> sl_id l = 1 \<and> table_rows Table_stop_times (sys_db w) = []
        | _ \<Rightarrow> False" by code_simp
    then show thesis using that by (auto simp: sample_new_def split: prod.splits sum.splits)
  qed
  have s: "sample_load [] = snd (writer_calls load_writer sample_calls (l, w))"
    by (simp add: sample_load_def new)
  have "fst (writer_calls load_writer sample_calls (case sample_new [] of (Inr l, w) \<Rightarrow> (l, w))) = None"
    by code_simp
  then have "writer_calls load_writer sample_calls (l, w) = (None, sample_load [])"
    using s by (simp add: sample_new_def new prod_eq_iff)
  from writer_calls_run [OF this run_start] obtain tr where
    run: "load_run (l, w) tr (sample_load [])" "no_errors tr" by auto
  obtain v lw3 where c: "load_commit (sample_load []) = (Inr v, lw3)" and v: "v = 1"
  proof -
    have "fst (load_commit (sample_load [])) = Inr 1" by code_simp
    then show thesis using that by (metis prod.collapse)
  qed
  obtain l2 w2 where lw2: "sample_load [] = (l2, w2)" by force
  have "filter (\<lambda>r. row_version r \<noteq> 1) (table_rows Table_stop_times (sys_db (snd lw3))) = []"
    using load_commit_exact [OF schedule_ok_opened new run(1) [unfolded lw2] run(2) c [unfolded lw2]] v w
    by metis
  moreover have "map_option sv_feed_version (db_active (sys_db (snd (snd (load_commit (sample_load [])))))) = Some ''v1''"
    "map fst (db_trips (sys_db (snd (snd (load_commit (sample_load [])))))) = [(1, ''T1'')]" by code_simp+
  ultimately show ?thesis by (simp add: c Let_def)
qed

text \<open>
  C9: nothing of a load shows before it commits. Whatever calls a load has made, with
  whatever errors, readers see the loaded versions and their rows as before it began, and
  they still do when the load is aborted; a commit either leaves it so or has its whole
  effect at once.
\<close>

theorem load_unpublished:
  assumes ok: "schedule_ok (sys_db w0)" and new: "new_schedule_load sha t w0 = (Inr l, w1)"
    and run: "load_run (l, w1) tr (l2, w2)"
  shows "published (sys_db w2) = published (sys_db w0) \<and> db_active (sys_db w2) = db_active (sys_db w0) \<and>
    published (sys_db (snd (snd (load_abort (l2, w2))))) = published (sys_db w0) \<and>
    (case load_commit (l2, w2) of (r, (l3, w3)) \<Rightarrow>
       published (sys_db w3) = published (sys_db w0) \<or> load_committed l2 (sys_db w2) (sys_db w3))"
proof -
  note ne = new_schedule_load_effect [OF new ok]
  obtain v now where l: "l = fresh_load v now" using ne by blast
  have sane: "load_sane l" "\<not> sl_finished l" by (simp_all add: l fresh_load_def load_sane_def)
  note re = load_run_effect [OF run, simplified fst_conv, OF sane(1)]
  have fr: "schedule_part (sys_db w2) = schedule_part (sys_db w1)" "sl_id l2 = sl_id l" "\<not> sl_finished l2"
    "db_version_seq (sys_db w2) = db_version_seq (sys_db w1)" "load_sane l2"
    using re sane by (simp_all add: load_frame_def)
  have ok2: "schedule_ok (sys_db w2)" and pub: "published (sys_db w2) = published (sys_db w0)"
    using ne fr schedule_ok_part [OF fr(1,4)] by simp_all
  obtain e l3 w3 where ab: "load_abort (l2, w2) = (e, (l3, w3))" by (metis prod_cases3)
  note ae = load_abort_effect [OF ab fr(3)]
  have "map_of (db_versions (sys_db w2)) (sl_id l2) = Some (new_version_row sha t)"
    using ne fr by (simp add: schedule_part_eq)
  then have del: "published (delete_version (sl_id l2) (sys_db w2)) = published (sys_db w2)"
    by (intro delete_version_published [OF ok2]) (simp add: new_version_row_def)
  have "published (sys_db w3) = published (sys_db w0)"
    using ae del pub schedule_ok_part(2) [of "sys_db w3" "sys_db w2"]
      schedule_ok_part(2) [of "sys_db w3" "delete_version (sl_id l2) (sys_db w2)"] by auto
  moreover obtain r l4 w4 where cm: "load_commit (l2, w2) = (r, (l4, w4))" by (metis prod_cases3)
  have "published (sys_db w4) = published (sys_db w0) \<or> load_committed l2 (sys_db w2) (sys_db w4)"
    using load_commit_effect [OF cm fr(5)] ok2 pub schedule_ok_part(2) [of "sys_db w4" "sys_db w2"]
    by (cases r) (auto simp: schedule_ok_def load_frame_def)
  ultimately show ?thesis
    using ab cm pub published_active [OF pub ok2 ok] by simp
qed

theorem load_unpublished_witness:
  "published (sys_db (snd (snd (load_abort (sample_load []))))) = published (sys_db (opened_store [])) \<and>
   db_active (sys_db (snd (sample_load []))) = None"
proof -
  obtain l w tr where new: "new_schedule_load ''abc'' 5 (opened_store []) = (Inr l, w)"
    and run: "load_run (l, w) tr (sample_load [])" using sample_load_run by blast
  obtain l2 w2 where lw2: "sample_load [] = (l2, w2)" by force
  have "db_active (sys_db (opened_store [])) = None" by (simp add: db_active_def opened_store_def empty_db_def)
  then show ?thesis
    using load_unpublished [OF schedule_ok_opened new run [unfolded lw2]] by (simp add: lw2)
qed

text \<open>
  C10: the tables of the schedule stay consistent in any history of loads: starts, refused
  starts, calls, commits, failed commits, aborts, crashes, and writes of other sessions, with
  the database failing anywhere. At most one version is active and it has been loaded,
  versions are distinct by id and by hash, and no row is without its version.
\<close>

theorem schedule_invariant:
  assumes "schedule_ok (sys_db w0)" and "loader_step\<^sup>*\<^sup>* (None, w0) (lo, w)"
  shows "schedule_ok (sys_db w)"
proof -
  have "loader_ok (lo, w)" if "loader_ok (None, w0)"
    using assms(2) that by (induction rule: rtranclp_induct) (auto intro: loader_ok_step)
  then show ?thesis using assms(1) by (simp add: loader_ok_def)
qed

theorem schedule_invariant_witness: "one_active (db_versions (sys_db sample_loaded))"
  using schedule_invariant [OF schedule_ok_opened sample_loaded_steps] by (simp add: schedule_ok_def)

text \<open>
  C30: a lost reply to a commit takes the schedule down. The commit has moved the active
  flag to the new version although it reports an error; the abort that the caller then runs
  deletes the version, and no version is active any more, whichever was before.
\<close>

theorem lost_commit_reply:
  assumes ok: "schedule_ok (sys_db w)" and sane: "load_sane l" "\<not> sl_finished l"
    and commit: "load_commit (l, w) = (Inl e, (l1, w1))" and effect: "load_committed l (sys_db w) (sys_db w1)"
    and abort: "load_abort (l1, w1) = (None, lw2)"
  shows "db_active (sys_db (snd lw2)) = None"
proof -
  obtain l2 w2 where lw2: "lw2 = (l2, w2)" by force
  have wf: "al_wf (db_versions (sys_db w))" using ok by (simp add: schedule_ok_def)
  have l1: "sl_id l1 = sl_id l" "\<not> sl_finished l1" using load_commit_effect [OF commit sane(1) wf] sane by auto
  have "db_versions (sys_db w2) = filter (\<lambda>(i, r). i \<noteq> sl_id l) (db_versions (sys_db w1))"
    using load_abort_effect [OF abort [unfolded lw2] l1(2)] l1 by (simp add: schedule_part_eq)
  then have "find (\<lambda>(i, r). rv_active r) (db_versions (sys_db w2)) = None"
    using effect by (auto simp: find_None_iff load_committed_def committed_version_def split: if_splits)
  then show ?thesis by (simp add: lw2 db_active_def)
qed

definition sample_reload :: "fault option list \<Rightarrow> schedule_load result \<times> store sys" where
  "sample_reload faults = new_schedule_load ''def'' 9 (on_db (\<lambda>d. d\<lparr>db_faults := faults\<rparr>) sample_loaded)"

definition lost_reply :: "fault option list" where
  "lost_reply = [None, None, None, None, None, None, Some (Fault 1 (Message ''eof'') True)]"

text \<open>
  A second feed is loaded while the first is active: the reply to its commit gets lost.
\<close>

theorem lost_commit_reply_witness:
  "case sample_reload lost_reply of (Inr l, w) \<Rightarrow>
     db_active (sys_db w) \<noteq> None \<and> db_active (sys_db (snd (snd (load_abort (snd (load_commit (l, w))))))) = None
   | _ \<Rightarrow> False"
proof -
  have ok0: "schedule_ok (sys_db (on_db (\<lambda>d. d\<lparr>db_faults := lost_reply\<rparr>) sample_loaded))"
    using schedule_ok_sample_loaded by simp
  obtain l w where new: "sample_reload lost_reply = (Inr l, w)"
  proof -
    have "case sample_reload lost_reply of (Inr l, w) \<Rightarrow> True | _ \<Rightarrow> False" by code_simp
    then show thesis using that by (auto split: prod.splits sum.splits)
  qed
  note ne = new_schedule_load_effect [OF new [unfolded sample_reload_def] ok0]
  then have sane: "load_sane l" "\<not> sl_finished l" by (auto simp: fresh_load_def load_sane_def)
  have facts: "case sample_reload lost_reply of (Inr l, w) \<Rightarrow>
      (case load_commit (l, w) of (r, lw1) \<Rightarrow> r = Inl (Wrapped ''store: commit schedule load'' (Message ''eof'')) \<and>
         db_versions (sys_db (snd lw1)) \<noteq> db_versions (sys_db w) \<and> fst (load_abort lw1) = None \<and>
         db_active (sys_db w) \<noteq> None)" by code_simp
  obtain r l1 w1 where c: "load_commit (l, w) = (r, (l1, w1))" by (metis prod_cases3)
  obtain e where r: "r = Inl e" using facts by (simp add: new c)
  have "al_wf (db_versions (sys_db w))" using ne by (simp add: schedule_ok_def)
  from load_commit_effect [OF c sane(1) this] have "load_committed l (sys_db w) (sys_db w1)"
    using facts by (auto simp: new c r load_frame_def schedule_part_eq)
  moreover obtain lw2 where "load_abort (l1, w1) = (None, lw2)"
    using facts by (cases "load_abort (l1, w1)") (simp add: new c)
  ultimately show ?thesis
    using lost_commit_reply [OF conjunct1 [OF ne] sane c [unfolded r]] facts by (simp add: new c)
qed

text \<open>
  A feed can be loaded until it has been loaded. While the database does not fail, a
  load of a hash starts afresh after any crash that left its version row behind, and is
  refused with \<open>ErrVersionExists\<close> exactly when a load of that hash has committed.
\<close>

theorem load_retry:
  assumes ok: "schedule_ok (sys_db w)" and up: "db_faults (sys_db w) = []"
  shows "fst (new_schedule_load sha t w) =
    (if list_ex (\<lambda>(i, r). rv_sha256 r = sha \<and> rv_loaded_at r \<noteq> None) (db_versions (sys_db w))
     then Inl (Wrapped ''store: sha256'' err_version_exists)
     else Inr (fresh_load (db_version_seq (sys_db w)) (db_clock (sys_db w))))"
proof -
  let ?vs = "db_versions (sys_db w)" and ?q = "\<lambda>d. find (\<lambda>(i, r). rv_sha256 r = sha) (db_versions d)"
  have nf: "next_fault (d\<lparr>db_faults := []\<rparr>) = None" for d by (simp add: next_fault_def)
  have none: "next_fault (sys_db w) = None" using up by (simp add: next_fault_def)
  have start: "fst (start_load sha t w') = Inr (fresh_load (db_version_seq (sys_db w')) (db_clock (sys_db w')))"
    if "db_faults (sys_db w') = []" "\<not> list_ex (\<lambda>(i, r). rv_sha256 r = sha) (db_versions (sys_db w'))" for w'
    using that by (simp add: start_load_def db_run_def db_query_def insert_version_def next_fault_def fresh_load_def)
  show ?thesis
  proof (cases "?q (sys_db w)")
    case None
    then have "\<not> list_ex (\<lambda>(i, r). rv_sha256 r = sha) ?vs" by (auto simp: find_None_iff list_ex_iff)
    then show ?thesis
      using None up start [of "on_db drop_fault w"]
      by (auto simp: new_schedule_load_def db_query_def none list_ex_iff)
  next
    case (Some x)
    obtain v r where x: "x = (v, r)" by force
    have mem: "(v, r) \<in> set ?vs" "rv_sha256 r = sha" using find_SomeD [OF Some] by (auto simp: x)
    have uniq: "i = v \<and> y = r" if "(i, y) \<in> set ?vs" "rv_sha256 y = sha" for i y
      using ok that mem unfolding schedule_ok_def distinct_map inj_on_def by fastforce
    show ?thesis
    proof (cases "rv_loaded_at r = None")
      case False
      then show ?thesis
        using Some mem by (auto simp: new_schedule_load_def db_query_def none x list_ex_iff)
    next
      case True
      have gone: "\<not> list_ex (\<lambda>(i, r). rv_sha256 r = sha) (filter (\<lambda>(i, r). i \<noteq> v) ?vs)"
        using uniq by (auto simp: list_ex_iff)
      have notloaded: "\<not> list_ex (\<lambda>(i, r). rv_sha256 r = sha \<and> rv_loaded_at r \<noteq> None) ?vs"
        using uniq True by (auto simp: list_ex_iff)
      have clock: "db_clock (delete_version v d) = db_clock d" "db_faults (delete_version v d) = db_faults d" for d
        by (simp_all add: delete_version_def)
      let ?w = "on_db (\<lambda>d. drop_fault (delete_version v d)) (on_db drop_fault w)"
      have "new_schedule_load sha t w = start_load sha t ?w"
        using Some True up by (simp add: new_schedule_load_def db_query_def db_exec_def none nf x delete_version_stmt_def)
      moreover have "fst (start_load sha t ?w) = Inr (fresh_load (db_version_seq (sys_db w)) (db_clock (sys_db w)))"
        using start [of ?w] up gone by (simp add: clock)
      ultimately show ?thesis using notloaded by simp
    qed
  qed
qed

theorem load_retry_witness:
  "(\<exists>l. fst (new_schedule_load ''abc'' 9 (snd (sample_load []))) = Inr l) \<and>
   fst (new_schedule_load ''abc'' 9 sample_loaded) = Inl (Wrapped ''store: sha256'' err_version_exists)"
proof -
  have up: "db_faults (sys_db sample_loaded) = []" "db_faults (sys_db (snd (sample_load []))) = []"
    and seen: "list_ex (\<lambda>(i, r). rv_sha256 r = ''abc'' \<and> rv_loaded_at r \<noteq> None) (db_versions (sys_db sample_loaded))"
    "\<not> list_ex (\<lambda>(i, r). rv_sha256 r = ''abc'' \<and> rv_loaded_at r \<noteq> None) (db_versions (sys_db (snd (sample_load []))))"
    by code_simp+
  obtain l w tr where new: "new_schedule_load ''abc'' 5 (opened_store []) = (Inr l, w)"
    and run: "load_run (l, w) tr (sample_load [])" using sample_load_run by blast
  have "loader_ok (Some (fst (sample_load [])), snd (sample_load []))"
    using loader_ok_step [OF load_begins [OF new]] loader_ok_step [OF load_calls] run
    by (metis loader_ok_def option.distinct(1) prod.collapse schedule_ok_opened fst_conv snd_conv)
  then have ok: "schedule_ok (sys_db (snd (sample_load [])))" by (simp add: loader_ok_def)
  show ?thesis
    using load_retry [OF schedule_ok_sample_loaded up(1), of "''abc''" 9] load_retry [OF ok up(2), of "''abc''" 9]
    unfolding if_P [OF seen(1)] if_not_P [OF seen(2)] by blast
qed

end
