(* ===== verification/Transactions.thy ===== *)
theory Transactions
  imports Schedule_Load
begin

text \<open>
  The transactions that run a fixed list of statements: the pattern of \<open>Migrate\<close> of
  \<open>internal/store/store.go\<close> and of \<open>rebuild\<close> of \<open>internal/rollup/rollup.go\<close>. Every statement is a
  call that can fail, and then the transaction is rolled back, which is a call too; the
  statements only take effect with the commit, whose reply may be lost.
\<close>

type_synonym stmt = "db \<Rightarrow> db result"

definition then_stmt :: "stmt \<Rightarrow> stmt \<Rightarrow> stmt" where
  "then_stmt f g d = (case f d of Inl e \<Rightarrow> Inl e | Inr d' \<Rightarrow> g d')"

definition roll_back :: "store sys \<Rightarrow> store sys" where
  "roll_back w = snd (db_query (\<lambda>_. ()) w)"

text \<open>The statements with the messages of their errors, after those that \<open>so_far\<close> stands for.\<close>

fun tx_stmts :: "(string \<times> stmt) list \<Rightarrow> stmt \<Rightarrow> store sys \<Rightarrow> stmt result \<times> store sys" where
  "tx_stmts [] so_far w = (Inr so_far, w)"
| "tx_stmts ((msg, s) # ss) so_far w =
     (case db_query (then_stmt so_far s) w of
        (Inl e, w1) \<Rightarrow> (Inl (Wrapped msg e), roll_back w1)
      | (Inr (Inl e), w1) \<Rightarrow> (Inl (Wrapped msg e), roll_back w1)
      | (Inr (Inr _), w1) \<Rightarrow> tx_stmts ss (then_stmt so_far s) w1)"

definition run_tx :: "string \<Rightarrow> (string \<times> stmt) list \<Rightarrow> string \<Rightarrow> store sys \<Rightarrow> go_error option \<times> store sys" where
  "run_tx begin_msg stmts commit_msg w =
     (case db_query (\<lambda>_. ()) w of
        (Inl e, w1) \<Rightarrow> (Some (Wrapped begin_msg e), w1)
      | (Inr _, w1) \<Rightarrow>
          (case tx_stmts stmts Inr w1 of
             (Inl e, w2) \<Rightarrow> (Some e, w2)
           | (Inr all, w2) \<Rightarrow>
               (case db_run (\<lambda>d. case all d of Inl e \<Rightarrow> Inl e | Inr d' \<Rightarrow> Inr (d', ())) w2 of
                  (Inl e, w3) \<Rightarrow> (Some (Wrapped commit_msg e), w3)
                | (Inr _, w3) \<Rightarrow> (None, w3))))"

section \<open>All or nothing\<close>

definition same_but_faults :: "db \<Rightarrow> db \<Rightarrow> bool" where
  "same_but_faults d d' \<longleftrightarrow> d\<lparr>db_faults := []\<rparr> = d'\<lparr>db_faults := []\<rparr>"

lemma same_but_faults_simps [simp]:
  "same_but_faults d d" "same_but_faults (drop_fault d) d' = same_but_faults d d'"
  "same_but_faults d (drop_fault d') = same_but_faults d d'"
  by (simp_all add: same_but_faults_def)

lemma same_but_faults_trans: "same_but_faults a b \<Longrightarrow> same_but_faults b c \<Longrightarrow> same_but_faults a c"
  by (simp add: same_but_faults_def)

lemma same_but_faultsE:
  assumes "same_but_faults d d'"
  obtains f where "d' = d\<lparr>db_faults := f\<rparr>"
proof
  show "d' = d\<lparr>db_faults := db_faults d'\<rparr>"
    using assms by (cases d; cases d') (simp add: same_but_faults_def)
qed

lemma db_query_same: "db_query q w = (r, w') \<Longrightarrow> same_but_faults (sys_db w) (sys_db w')"
  using db_query_state by fastforce

lemma roll_back_same: "same_but_faults (sys_db w) (sys_db (roll_back w))"
  unfolding roll_back_def using db_query_same by (metis prod.collapse)

lemma db_query_up: "db_faults (sys_db w) = [] \<Longrightarrow> db_query q w = (Inr (q (sys_db w)), w)"
  by (simp add: db_query_def next_fault_def on_db_def)

abbreviation all_stmts :: "(string \<times> stmt) list \<Rightarrow> stmt" where
  "all_stmts stmts \<equiv> first_error (\<lambda>s d. s d) (map snd stmts)"

lemma then_stmt_assoc [simp]:
  "then_stmt f (\<lambda>a. case s a of Inl x \<Rightarrow> Inl x | Inr x \<Rightarrow> g x) = then_stmt (then_stmt f s) g"
  "then_stmt f Inr = f" "then_stmt Inr f = f"
  by (auto simp: then_stmt_def fun_eq_iff split: sum.split)

lemma all_stmts_Cons: "all_stmts ((msg, s) # ss) = (\<lambda>a. case s a of Inl x \<Rightarrow> Inl x | Inr x \<Rightarrow> all_stmts ss x)"
  by (simp add: fun_eq_iff)

lemma tx_stmts_effect:
  assumes "tx_stmts stmts so_far w = (r, w')"
  shows "same_but_faults (sys_db w) (sys_db w') \<and> (\<forall>all. r = Inr all \<longrightarrow> all = then_stmt so_far (all_stmts stmts))"
  using assms
proof (induction stmts so_far w rule: tx_stmts.induct)
  case (1 so_far w)
  then show ?case by (auto simp: fun_eq_iff)
next
  case (2 msg s ss so_far w)
  obtain q w1 where q: "db_query (then_stmt so_far s) w = (q, w1)" by (metis surj_pair)
  note w1 = db_query_same [OF q]
  consider d where "q = Inr (Inr d)" | x where "r = Inl x" "w' = roll_back w1"
    using 2(2) q by (cases q) (auto split: sum.splits)
  then show ?case
  proof cases
    case 1
    then have "tx_stmts ss (then_stmt so_far s) w1 = (r, w')" using 2(2) q by simp
    from 2(1) [OF q [symmetric] 1 refl this] w1 same_but_faults_trans
    have "same_but_faults (sys_db w) (sys_db w') \<and>
        (\<forall>all. r = Inr all \<longrightarrow> all = then_stmt (then_stmt so_far s) (all_stmts ss))" by blast
    then show ?thesis unfolding all_stmts_Cons by simp
  next
    case 2
    then show ?thesis using same_but_faults_trans [OF w1 roll_back_same] by simp
  qed
qed

text \<open>A transaction leaves the database as it was or has run all of its statements, and that if it reports success.\<close>

lemma run_tx_effect:
  assumes "run_tx b stmts c w = (e, w')"
  shows "same_but_faults (sys_db w) (sys_db w') \<and> e \<noteq> None \<or>
    (\<exists>d d'. same_but_faults (sys_db w) d \<and> all_stmts stmts d = Inr d' \<and> same_but_faults d' (sys_db w'))"
proof -
  obtain r1 w1 where q: "db_query (\<lambda>_. ()) w = (r1, w1)" by (metis surj_pair)
  obtain r2 w2 where s: "tx_stmts stmts Inr w1 = (r2, w2)" by (metis surj_pair)
  note w1 = db_query_same [OF q]
  note w2 = same_but_faults_trans [OF w1 tx_stmts_effect [OF s, THEN conjunct1]]
  show ?thesis
  proof (cases "\<exists>all x. r1 = Inr x \<and> r2 = Inr all")
    case False
    then show ?thesis using assms q s w1 w2 by (cases r1; cases r2) (auto simp: run_tx_def)
  next
    case True
    then obtain x where r1: "r1 = Inr x" and r2: "r2 = Inr (all_stmts stmts)"
      using tx_stmts_effect [OF s] by auto
    obtain r3 w3 where run: "db_run (\<lambda>d. case all_stmts stmts d of Inl e \<Rightarrow> Inl e | Inr d' \<Rightarrow> Inr (d', ())) w2 = (r3, w3)"
      by (metis surj_pair)
    have w': "w' = w3" "e \<noteq> None \<or> (\<exists>y. r3 = Inr y)"
      using assms q s r1 r2 run by (auto simp: run_tx_def split: sum.splits)
    then show ?thesis using db_run_effect [OF run] w2 by (auto split: sum.splits)
  qed
qed

lemma tx_stmts_up:
  assumes "db_faults (sys_db w) = []" and "then_stmt so_far (all_stmts stmts) (sys_db w) = Inr d"
  shows "tx_stmts stmts so_far w = (Inr (then_stmt so_far (all_stmts stmts)), w)"
  using assms
proof (induction stmts arbitrary: so_far)
  case Nil
  then show ?case by (simp add: fun_eq_iff then_stmt_def split: sum.split)
next
  case (Cons x stmts)
  obtain msg s where x: "x = (msg, s)" by force
  obtain d1 where d1: "then_stmt so_far s (sys_db w) = Inr d1"
    using Cons.prems(2) unfolding x all_stmts_Cons by (auto simp: then_stmt_def split: sum.splits)
  have "tx_stmts stmts (then_stmt so_far s) w = (Inr (then_stmt (then_stmt so_far s) (all_stmts stmts)), w)"
    using Cons.IH Cons.prems unfolding x all_stmts_Cons then_stmt_assoc by blast
  then show ?case unfolding x all_stmts_Cons using d1 Cons.prems(1) by (simp add: db_query_up)
qed

lemma run_tx_up:
  assumes "db_faults (sys_db w) = []" and "all_stmts stmts (sys_db w) = Inr d" and "db_faults d = []"
  shows "run_tx b stmts c w = (None, on_db (\<lambda>_. d) w)"
proof -
  have "then_stmt Inr (all_stmts stmts) = all_stmts stmts" by (simp add: then_stmt_def fun_eq_iff)
  then have "tx_stmts stmts Inr w = (Inr (all_stmts stmts), w)" using tx_stmts_up [OF assms(1), of Inr stmts d] assms(2) by simp
  then show ?thesis
    using assms by (simp add: run_tx_def db_query_up db_run_def next_fault_def on_db_def)
qed

end
