(* ===== verification/Migrations.thy ===== *)
theory Migrations
  imports Transactions
begin

text \<open>
  \<open>Migrate\<close> of \<open>internal/store/store.go\<close>: the embedded migrations in the order of their
  versions, each with its record in one transaction. What a file's SQL does to the database
  is the argument \<open>run_sql\<close>. The embedded files can always be read.
\<close>

section \<open>The files\<close>

record dir_entry =
  de_name :: string
  de_is_dir :: bool
  de_content :: string

record migration_file =
  mf_version :: int
  mf_path :: string
  mf_content :: string

definition has_suffix :: "string \<Rightarrow> string \<Rightarrow> bool" where
  "has_suffix s p = has_prefix (rev s) (rev p)"

definition version_head :: "string \<Rightarrow> string" where
  "version_head name =
     (if CHR ''_'' \<in> set name then takeWhile (\<lambda>c. c \<noteq> CHR ''_'') name
      else if has_suffix name ''.sql'' then take (length name - 4) name else name)"

text \<open>\<open>seen\<close>: the versions so far with their files.\<close>

fun collect_migrations :: "(int \<times> string) list \<Rightarrow> dir_entry list \<Rightarrow> migration_file list result" where
  "collect_migrations seen [] = Inr []"
| "collect_migrations seen (e # es) =
     (if de_is_dir e \<or> \<not> has_suffix (de_name e) ''.sql'' then collect_migrations seen es
      else case atoi (version_head (de_name e)) of
          None \<Rightarrow> Inl (Message (''store: migration '' @ de_name e @ '' has no leading integer version''))
        | Some v \<Rightarrow>
            (case map_of seen v of
               Some prev \<Rightarrow> Inl (Message (''store: duplicate migration version '' @ fmt_d v))
             | None \<Rightarrow>
                 (case collect_migrations ((v, de_name e) # seen) es of
                    Inl x \<Rightarrow> Inl x
                  | Inr fs \<Rightarrow> Inr (\<lparr>mf_version = v, mf_path = ''migrations/'' @ de_name e, mf_content = de_content e\<rparr> # fs))))"

definition migration_files :: "dir_entry list result \<Rightarrow> migration_file list result" where
  "migration_files dir =
     (case dir of
        Inl e \<Rightarrow> Inl (Wrapped ''store: read migrations dir'' e)
      | Inr entries \<Rightarrow>
          (case collect_migrations [] entries of Inl e \<Rightarrow> Inl e | Inr fs \<Rightarrow> Inr (sort_key mf_version fs)))"

section \<open>Applying them\<close>

definition record_version :: "int \<Rightarrow> stmt" where
  "record_version v d =
     (if v \<in> set (db_migrations d) then Inl (Message ''duplicate key value violates unique constraint'')
      else if \<not> in_range 32 v then Inl (Message ''value out of range'')
      else Inr (d\<lparr>db_migrations := db_migrations d @ [v]\<rparr>))"

definition migration_stmts :: "(string \<Rightarrow> stmt) \<Rightarrow> migration_file \<Rightarrow> (string \<times> stmt) list" where
  "migration_stmts run_sql f =
     [(''store: apply migration '' @ mf_path f, run_sql (mf_content f)),
      (''store: record migration '' @ mf_path f, record_version (mf_version f))]"

definition apply_migration :: "(string \<Rightarrow> stmt) \<Rightarrow> migration_file \<Rightarrow> store sys \<Rightarrow> go_error option \<times> store sys" where
  "apply_migration run_sql f =
     run_tx (''store: begin migration '' @ mf_path f) (migration_stmts run_sql f) (''store: commit migration '' @ mf_path f)"

fun apply_migrations ::
    "(string \<Rightarrow> stmt) \<Rightarrow> int list \<Rightarrow> migration_file list \<Rightarrow> store sys \<Rightarrow> go_error option \<times> store sys" where
  "apply_migrations run_sql applied [] w = (None, w)"
| "apply_migrations run_sql applied (f # fs) w =
     (if mf_version f \<in> set applied then apply_migrations run_sql applied fs w
      else case apply_migration run_sql f w of
          (Some e, w') \<Rightarrow> (Some e, w')
        | (None, w') \<Rightarrow> apply_migrations run_sql applied fs w')"

text \<open>The table of applied versions always exists in the model: creating it changes nothing.\<close>

definition migrate :: "(string \<Rightarrow> stmt) \<Rightarrow> dir_entry list result \<Rightarrow> store sys \<Rightarrow> go_error option \<times> store sys" where
  "migrate run_sql dir w =
     (case db_exec (\<lambda>d. (d, 0)) w of
        (Inl e, w1) \<Rightarrow> (Some (Wrapped ''store: create schema_migrations'' e), w1)
      | (Inr _, w1) \<Rightarrow>
          (case migration_files dir of
             Inl e \<Rightarrow> (Some e, w1)
           | Inr files \<Rightarrow>
               (case db_query db_migrations w1 of
                  (Inl e, w2) \<Rightarrow> (Some (Wrapped ''store: read schema_migrations'' e), w2)
                | (Inr applied, w2) \<Rightarrow> apply_migrations run_sql applied files w2)))"

section \<open>What is migrated\<close>

lemma collect_migrations_versions:
  "collect_migrations seen es = Inr fs \<Longrightarrow>
     distinct (map mf_version fs) \<and> set (map mf_version fs) \<inter> fst ` set seen = {}"
proof (induction es arbitrary: seen fs)
  case (Cons e es)
  show ?case
  proof (cases "de_is_dir e \<or> \<not> has_suffix (de_name e) ''.sql''")
    case True
    then show ?thesis using Cons by simp
  next
    case False
    then obtain v gs where v: "atoi (version_head (de_name e)) = Some v" "map_of seen v = None"
      "collect_migrations ((v, de_name e) # seen) es = Inr gs"
      and fs: "fs = \<lparr>mf_version = v, mf_path = ''migrations/'' @ de_name e, mf_content = de_content e\<rparr> # gs"
      using Cons.prems by (auto split: option.splits sum.splits)
    have "v \<notin> fst ` set seen" using v(2) by (simp add: map_of_eq_None_iff)
    then show ?thesis using Cons.IH [OF v(3)] by (auto simp: fs)
  qed
qed simp

lemma migration_files_sorted:
  assumes "migration_files dir = Inr fs"
  shows "sorted_wrt (<) (map mf_version fs)"
proof -
  obtain gs where gs: "distinct (map mf_version gs)" "fs = sort_key mf_version gs"
    using assms collect_migrations_versions by (auto simp: migration_files_def split: sum.splits) blast
  have "mset (map mf_version fs) = mset (map mf_version gs)" by (simp add: gs)
  then have "distinct (map mf_version fs)" using gs(1) mset_eq_imp_distinct_iff by blast
  then show ?thesis by (simp add: gs strict_sorted_iff)
qed

text \<open>The migrations of a list run on a database, and their versions recorded after it.\<close>

definition pending :: "migration_file list \<Rightarrow> db \<Rightarrow> migration_file list" where
  "pending fs d = filter (\<lambda>f. mf_version f \<notin> set (db_migrations d)) fs"

definition run_migration :: "(string \<Rightarrow> stmt) \<Rightarrow> migration_file \<Rightarrow> stmt" where
  "run_migration run_sql f = all_stmts (migration_stmts run_sql f)"

text \<open>What the SQL of a migration must leave alone: the record of the migrations and the faults.\<close>

definition well_behaved :: "(string \<Rightarrow> stmt) \<Rightarrow> bool" where
  "well_behaved run_sql \<longleftrightarrow> (\<forall>sql d d'. run_sql sql d = Inr d' \<longrightarrow> db_migrations d' = db_migrations d) \<and>
     (\<forall>sql d f. run_sql sql (d\<lparr>db_faults := f\<rparr>) =
        (case run_sql sql d of Inl e \<Rightarrow> Inl e | Inr d' \<Rightarrow> Inr (d'\<lparr>db_faults := f\<rparr>)))"

lemma run_migration_simps:
  "run_migration run_sql f d =
     (case run_sql (mf_content f) d of Inl e \<Rightarrow> Inl e | Inr d' \<Rightarrow> record_version (mf_version f) d')"
  by (auto simp: run_migration_def migration_stmts_def split: sum.split)

lemma run_migration_version:
  assumes "well_behaved run_sql" and "run_migration run_sql f d = Inr d'"
  shows "db_migrations d' = db_migrations d @ [mf_version f] \<and> mf_version f \<notin> set (db_migrations d)"
  using assms by (auto simp: run_migration_simps record_version_def well_behaved_def split: sum.splits if_splits)

lemma run_migration_faults:
  assumes "well_behaved run_sql"
  shows "run_migration run_sql f (d\<lparr>db_faults := g\<rparr>) =
    (case run_migration run_sql f d of Inl e \<Rightarrow> Inl e | Inr d' \<Rightarrow> Inr (d'\<lparr>db_faults := g\<rparr>))"
  using assms by (auto simp: run_migration_simps record_version_def well_behaved_def split: sum.split)

lemma run_migrations_faults:
  assumes "well_behaved run_sql"
  shows "first_error (run_migration run_sql) fs (d\<lparr>db_faults := g\<rparr>) =
    (case first_error (run_migration run_sql) fs d of Inl e \<Rightarrow> Inl e | Inr d' \<Rightarrow> Inr (d'\<lparr>db_faults := g\<rparr>))"
  by (induction fs arbitrary: d) (simp_all add: run_migration_faults [OF assms] split: sum.split)

text \<open>A migration either does not happen or happens as a whole.\<close>

lemma apply_migration_effect:
  assumes ok: "well_behaved run_sql" and run: "apply_migration run_sql f w = (e, w')"
  shows "same_but_faults (sys_db w) (sys_db w') \<and> e \<noteq> None \<or>
    (\<exists>d. run_migration run_sql f (sys_db w) = Inr d \<and> same_but_faults d (sys_db w'))"
  using run_tx_effect [OF run [unfolded apply_migration_def]]
proof (elim disjE conjE exE)
  fix d d'
  assume d: "same_but_faults (sys_db w) d" "same_but_faults d' (sys_db w')"
    and run: "all_stmts (migration_stmts run_sql f) d = Inr d'"
  obtain g where g: "d = (sys_db w)\<lparr>db_faults := g\<rparr>" using d(1) by (rule same_but_faultsE)
  obtain x where x: "run_migration run_sql f (sys_db w) = Inr x" "d' = x\<lparr>db_faults := g\<rparr>"
    using run run_migration_faults [OF ok, where f = f and d = "sys_db w" and g = g]
    by (auto simp: g run_migration_def [symmetric] split: sum.splits)
  have "same_but_faults x (sys_db w')" using d(2) by (simp add: x(2) same_but_faults_def)
  then show ?thesis using x(1) by blast
qed simp

lemma apply_migrations_effect:
  assumes ok: "well_behaved run_sql" and "sorted_wrt (<) (map mf_version fs)"
    and "apply_migrations run_sql applied fs w = (e, w')"
    and "\<And>f. f \<in> set fs \<Longrightarrow> mf_version f \<in> set (db_migrations (sys_db w)) \<longleftrightarrow> mf_version f \<in> set applied"
  shows "\<exists>k d. first_error (run_migration run_sql) (take k (pending fs (sys_db w))) (sys_db w) = Inr d \<and>
    same_but_faults d (sys_db w') \<and> (e = None \<longrightarrow> length (pending fs (sys_db w)) \<le> k)"
  using assms(2-4)
proof (induction fs arbitrary: w)
  case Nil
  then show ?case by (auto simp: pending_def)
next
  case (Cons f fs)
  show ?case
  proof (cases "mf_version f \<in> set applied")
    case True
    then show ?thesis using Cons.IH [of w] Cons.prems by (auto simp: pending_def)
  next
    case False
    then have new: "mf_version f \<notin> set (db_migrations (sys_db w))" using Cons.prems(3) by simp
    obtain x w1 where ap: "apply_migration run_sql f w = (x, w1)" by (metis surj_pair)
    have pend: "pending (f # fs) (sys_db w) = f # pending fs (sys_db w)" using new by (simp add: pending_def)
    consider "same_but_faults (sys_db w) (sys_db w1)" "x \<noteq> None"
      | d1 where "run_migration run_sql f (sys_db w) = Inr d1" "same_but_faults d1 (sys_db w1)"
      using apply_migration_effect [OF ok ap] by blast
    then show ?thesis
    proof cases
      case 1
      then have "w' = w1" "e \<noteq> None" using Cons.prems(2) False ap by (auto split: option.splits)
      then show ?thesis using 1 by (intro exI [of _ 0] exI [of _ "sys_db w"]) auto
    next
      case 2
      note ver = run_migration_version [OF ok 2(1)]
      obtain g where g: "sys_db w1 = d1\<lparr>db_faults := g\<rparr>" using 2(2) by (rule same_but_faultsE)
      show ?thesis
      proof (cases x)
        case (Some y)
        then have "w' = w1" "e \<noteq> None" using Cons.prems(2) False ap by auto
        then show ?thesis using 2 by (intro exI [of _ 1] exI [of _ d1]) (auto simp: pend)
      next
        case None
        have later: "mf_version f < mf_version h" if "h \<in> set fs" for h using Cons.prems(1) that by simp
        have rest: "apply_migrations run_sql applied fs w1 = (e, w')" using Cons.prems(2) False ap None by simp
        have seen: "mf_version h \<in> set (db_migrations (sys_db w1)) \<longleftrightarrow> mf_version h \<in> set applied" if "h \<in> set fs" for h
          using Cons.prems(3) [of h] later [OF that] that ver by (auto simp: g)
        have pend1: "pending fs (sys_db w1) = pending fs (sys_db w)"
          unfolding pending_def using ver by (intro filter_cong) (auto simp: g dest: later)
        obtain k d where k: "first_error (run_migration run_sql) (take k (pending fs (sys_db w))) (d1\<lparr>db_faults := g\<rparr>) = Inr d"
          "same_but_faults d (sys_db w')" "e = None \<longrightarrow> length (pending fs (sys_db w)) \<le> k"
          using Cons.IH [OF _ rest seen] Cons.prems(1) unfolding pend1 unfolding g by auto
        obtain d2 where d2: "first_error (run_migration run_sql) (take k (pending fs (sys_db w))) d1 = Inr d2"
          "d = d2\<lparr>db_faults := g\<rparr>"
          using k(1) unfolding run_migrations_faults [OF ok] by (auto split: sum.splits)
        then have "same_but_faults d2 (sys_db w')" using k(2) by (simp add: same_but_faults_def)
        then show ?thesis using d2(1) k(3) 2(1) by (intro exI [of _ "Suc k"] exI [of _ d2]) (simp add: pend)
      qed
    qed
  qed
qed

text \<open>
  C27: migrations are applied in order, once each and as a whole. Whatever fails, what has
  been done is a number of the pending migrations, from the lowest version on, without a gap,
  each with its record; when \<open>Migrate\<close> succeeds that is all of them.
\<close>

theorem migrate_in_order:
  assumes ok: "well_behaved run_sql" and files: "migration_files dir = Inr fs"
    and run: "migrate run_sql dir w = (e, w')"
  shows "\<exists>k d. first_error (run_migration run_sql) (take k (pending fs (sys_db w))) (sys_db w) = Inr d \<and>
    same_but_faults d (sys_db w') \<and> (e = None \<longrightarrow> length (pending fs (sys_db w)) \<le> k)"
proof -
  obtain r1 w1 where ex: "db_exec (\<lambda>d. (d, 0)) w = (r1, w1)" by (metis surj_pair)
  obtain r2 w2 where q: "db_query db_migrations w1 = (r2, w2)" by (metis surj_pair)
  have w1: "same_but_faults (sys_db w) (sys_db w1)" using db_exec_effect [OF ex] by auto
  have w2: "same_but_faults (sys_db w) (sys_db w2)" using same_but_faults_trans [OF w1 db_query_same [OF q]] .
  consider "e \<noteq> None" "same_but_faults (sys_db w) (sys_db w')"
    | applied where "r2 = Inr applied" "apply_migrations run_sql applied fs w2 = (e, w')"
    using run ex q files w1 w2 by (cases r1; cases r2) (auto simp: migrate_def)
  then show ?thesis
  proof cases
    case 1
    then show ?thesis by (intro exI [of _ 0] exI [of _ "sys_db w"]) auto
  next
    case 2
    obtain g where g: "sys_db w2 = (sys_db w)\<lparr>db_faults := g\<rparr>" using w2 by (rule same_but_faultsE)
    obtain h where h: "sys_db w1 = (sys_db w)\<lparr>db_faults := h\<rparr>" using w1 by (rule same_but_faultsE)
    have "applied = db_migrations (sys_db w)" using db_query_state [OF q] 2(1) by (simp add: h)
    then have seen: "mf_version f \<in> set (db_migrations (sys_db w2)) \<longleftrightarrow> mf_version f \<in> set applied" for f by (simp add: g)
    have pend: "pending fs (sys_db w2) = pending fs (sys_db w)" by (simp add: pending_def g)
    obtain k d where k: "first_error (run_migration run_sql) (take k (pending fs (sys_db w))) (sys_db w2) = Inr d"
      "same_but_faults d (sys_db w')" "e = None \<longrightarrow> length (pending fs (sys_db w)) \<le> k"
      using apply_migrations_effect [OF ok migration_files_sorted [OF files] 2(2) seen] unfolding pend by blast
    obtain d2 where d2: "first_error (run_migration run_sql) (take k (pending fs (sys_db w))) (sys_db w) = Inr d2"
      "d = d2\<lparr>db_faults := g\<rparr>"
      using k(1) unfolding g run_migrations_faults [OF ok] by (auto split: sum.splits)
    then have "same_but_faults d2 (sys_db w')" using k(2) by (simp add: same_but_faults_def)
    then show ?thesis using d2(1) k(3) by blast
  qed
qed

text \<open>Two migrations in a directory, the first of them applied; their SQL adds a table.\<close>

definition sample_dir :: "dir_entry list" where
  "sample_dir =
     [\<lparr>de_name = ''0002_b.sql'', de_is_dir = False, de_content = ''b''\<rparr>,
      \<lparr>de_name = ''README'', de_is_dir = False, de_content = []\<rparr>,
      \<lparr>de_name = ''0001_init.sql'', de_is_dir = False, de_content = ''a''\<rparr>]"

definition sample_sql :: "string \<Rightarrow> stmt" where
  "sample_sql sql d = Inr (d\<lparr>db_loose_tables := db_loose_tables d @ [sql]\<rparr>)"

definition sample_migrated :: "store sys" where
  "sample_migrated = on_db (\<lambda>d. d\<lparr>db_migrations := [1]\<rparr>) (opened_store [])"

theorem migrate_in_order_witness:
  "db_migrations (sys_db (snd (migrate sample_sql (Inr sample_dir) sample_migrated))) = [1, 2] \<and>
   db_loose_tables (sys_db (snd (migrate sample_sql (Inr sample_dir) sample_migrated))) = [''b'']"
proof -
  let ?a = "\<lparr>mf_version = 1, mf_path = ''migrations/0001_init.sql'', mf_content = ''a''\<rparr>"
    and ?b = "\<lparr>mf_version = 2, mf_path = ''migrations/0002_b.sql'', mf_content = ''b''\<rparr>"
  have files: "migration_files (Inr sample_dir) = Inr [?a, ?b]" by code_simp
  have ok: "well_behaved sample_sql" by (simp add: well_behaved_def sample_sql_def)
  obtain e w where run: "migrate sample_sql (Inr sample_dir) sample_migrated = (e, w)" by (metis surj_pair)
  have "fst (migrate sample_sql (Inr sample_dir) sample_migrated) = None" by code_simp
  then have e: "e = None" by (simp add: run)
  have d: "db_migrations (sys_db sample_migrated) = [1]" "db_loose_tables (sys_db sample_migrated) = []"
    by (simp_all add: sample_migrated_def opened_store_def empty_db_def)
  have pend: "pending [?a, ?b] (sys_db sample_migrated) = [?b]" by (simp add: pending_def d)
  obtain k x where k: "first_error (run_migration sample_sql) (take k [?b]) (sys_db sample_migrated) = Inr x"
    "same_but_faults x (sys_db w)" "Suc 0 \<le> k"
    using migrate_in_order [OF ok files run] unfolding pend e by auto
  then have "x = (sys_db sample_migrated)\<lparr>db_loose_tables := [''b''], db_migrations := [1, 2]\<rparr>"
    by (simp add: run_migration_simps sample_sql_def record_version_def d in_range_def)
  moreover obtain f where "sys_db w = x\<lparr>db_faults := f\<rparr>" using k(2) by (rule same_but_faultsE)
  ultimately show ?thesis by (simp add: run)
qed

end
