(* ===== verification/Subscriptions.thy ===== *)
theory Subscriptions
  imports Database
begin

text \<open>
  \<open>internal/store/subscriptions.go\<close>: Web Push subscriptions and the record of what has
  been alerted. The locale \<open>alert_contract\<close> states what the push evaluator relies on: a
  claim on an alert is granted once and never again.
\<close>

section \<open>Operations\<close>

definition find_endpoint :: "string \<Rightarrow> (int \<times> subscription_row) list \<Rightarrow> (int \<times> subscription_row) option" where
  "find_endpoint endpoint t = find (\<lambda>(i, r). rb_endpoint r = endpoint) t"

text \<open>
  The upsert on the endpoint; the parameters fit \<open>SMALLINT\<close> and \<open>INT\<close>. The sequence
  advances on a conflict too.
\<close>

definition save_stmt :: "subscription \<Rightarrow> db \<Rightarrow> (db \<times> int) result" where
  "save_stmt s d =
     (if \<not> in_range 16 (sub_direction_id s) \<or> \<not> in_range 32 (sub_threshold_secs s)
      then Inl (Message ''value out of range'')
      else case find_endpoint (sub_endpoint s) (db_subscriptions d) of
          None \<Rightarrow>
            Inr (d\<lparr>db_subscriptions := db_subscriptions d @ [(db_subscription_seq d,
                  \<lparr>rb_endpoint = sub_endpoint s, rb_p256dh = sub_p256dh s, rb_auth = sub_auth s,
                   rb_stop_id = sub_stop_id s, rb_route_id = sub_route_id s,
                   rb_direction_id = sub_direction_id s, rb_threshold_secs = sub_threshold_secs s,
                   rb_created_at = db_clock d, rb_last_success = None, rb_failure_count = 0\<rparr>)],
                db_subscription_seq := db_subscription_seq d + 1\<rparr>, db_subscription_seq d)
        | Some (i, r) \<Rightarrow>
            Inr (d\<lparr>db_subscriptions := al_put i (r
                  \<lparr>rb_p256dh := sub_p256dh s, rb_auth := sub_auth s, rb_stop_id := sub_stop_id s,
                   rb_route_id := sub_route_id s, rb_direction_id := sub_direction_id s,
                   rb_threshold_secs := sub_threshold_secs s, rb_failure_count := 0\<rparr>)
                (db_subscriptions d),
                db_subscription_seq := db_subscription_seq d + 1\<rparr>, i))"

definition save_subscription :: "subscription \<Rightarrow> store sys \<Rightarrow> int result \<times> store sys" where
  "save_subscription s w =
     (case db_run (save_stmt s) w of
        (Inl e, w') \<Rightarrow> (Inl (Wrapped ''store: save subscription'' e), w')
      | (Inr i, w') \<Rightarrow> (Inr i, w'))"

text \<open>Deleting a subscription cascades to its rows in \<open>push_sent\<close>.\<close>

definition delete_subscriptions :: "(int \<times> subscription_row \<Rightarrow> bool) \<Rightarrow> db \<Rightarrow> db \<times> int" where
  "delete_subscriptions p d =
     (let gone = filter p (db_subscriptions d)
      in (d\<lparr>db_subscriptions := filter (\<lambda>x. \<not> p x) (db_subscriptions d),
            db_push_sent := filter (\<lambda>(i, k). i \<notin> set (map fst gone)) (db_push_sent d)\<rparr>, int (length gone)))"

definition delete_subscription :: "string \<Rightarrow> store sys \<Rightarrow> go_error option \<times> store sys" where
  "delete_subscription endpoint w =
     (case db_exec (delete_subscriptions (\<lambda>(i, r). rb_endpoint r = endpoint)) w of
        (Inl e, w') \<Rightarrow> (Some (Wrapped ''store: delete subscription'' e), w')
      | (Inr n, w') \<Rightarrow> ((if n = 0 then Some (Wrapped ''store: subscription'' err_not_found) else None), w'))"

definition subscription_of_row :: "int \<times> subscription_row \<Rightarrow> subscription" where
  "subscription_of_row x = (case x of (i, r) \<Rightarrow>
     \<lparr>sub_id = i, sub_endpoint = rb_endpoint r, sub_p256dh = rb_p256dh r, sub_auth = rb_auth r,
      sub_stop_id = rb_stop_id r, sub_route_id = rb_route_id r, sub_direction_id = rb_direction_id r,
      sub_threshold_secs = rb_threshold_secs r, sub_created_at = rb_created_at r,
      sub_failure_count = rb_failure_count r\<rparr>)"

definition db_all_subscriptions :: "db \<Rightarrow> subscription list" where
  "db_all_subscriptions d = map subscription_of_row (sort_key fst (db_subscriptions d))"

definition all_subscriptions :: "store sys \<Rightarrow> subscription list result \<times> store sys" where
  "all_subscriptions w =
     (case db_query db_all_subscriptions w of
        (Inl e, w') \<Rightarrow> (Inl (Wrapped ''store: list subscriptions'' e), w')
      | (Inr subs, w') \<Rightarrow> (Inr subs, w'))"

definition key_row :: "int \<Rightarrow> event_key \<Rightarrow> row_key" where
  "key_row day k = (day, ek_trip_id k, ek_start_time k, ek_stop_sequence k)"

text \<open>\<open>INSERT .. ON CONFLICT DO NOTHING\<close>; the subscription must still exist.\<close>

definition mark_stmt :: "int \<Rightarrow> row_key \<Rightarrow> db \<Rightarrow> (db \<times> int) result" where
  "mark_stmt i k d =
     (if \<not> in_range 32 (snd (snd (snd k))) then Inl (Message ''value out of range'')
      else if (i, k) \<in> set (db_push_sent d) then Inr (d, 0)
      else if map_of (db_subscriptions d) i = None then Inl (Message ''SQLSTATE 23503'')
      else Inr (d\<lparr>db_push_sent := db_push_sent d @ [(i, k)]\<rparr>, 1))"

definition mark_push_sent :: "int \<Rightarrow> event_key \<Rightarrow> store sys \<Rightarrow> bool result \<times> store sys" where
  "mark_push_sent i k w =
     (case date_from_service_date (ek_service_date k) of
        Inl e \<Rightarrow> (Inl e, w)
      | Inr day \<Rightarrow>
          (case db_run (mark_stmt i (key_row day k)) w of
             (Inl e, w') \<Rightarrow> (Inl (Wrapped ''store: mark push sent'' e), w')
           | (Inr n, w') \<Rightarrow> (Inr (n = 1), w')))"

definition update_subscription :: "int \<Rightarrow> (db \<Rightarrow> subscription_row \<Rightarrow> subscription_row) \<Rightarrow> db \<Rightarrow> db \<times> int" where
  "update_subscription i f d =
     (d\<lparr>db_subscriptions := map (\<lambda>(j, r). (j, if j = i then f d r else r)) (db_subscriptions d)\<rparr>,
      int (length (filter (\<lambda>(j, r). j = i) (db_subscriptions d))))"

definition record_push_result :: "int \<Rightarrow> bool \<Rightarrow> bool \<Rightarrow> store sys \<Rightarrow> go_error option \<times> store sys" where
  "record_push_result i ok gone w =
     (let stmt =
        (if gone then delete_subscriptions (\<lambda>(j, r). j = i)
         else if ok then update_subscription i (\<lambda>d r. r\<lparr>rb_last_success := Some (db_clock d), rb_failure_count := 0\<rparr>)
         else update_subscription i (\<lambda>d r. r\<lparr>rb_failure_count := rb_failure_count r + 1\<rparr>))
      in case db_exec stmt w of
           (Inl e, w') \<Rightarrow> (Some (Wrapped ''store: record push result'' e), w')
         | (Inr n, w') \<Rightarrow> (None, w'))"

definition store_subscriptions :: "store subscription_store" where
  "store_subscriptions =
     \<lparr>ss_save = save_subscription, ss_delete = delete_subscription, ss_all = all_subscriptions,
      ss_mark_sent = mark_push_sent, ss_record_result = record_push_result\<rparr>"

section \<open>The tables of the subscriptions\<close>

text \<open>
  Ids come from the sequence, endpoints are unique, and every claimed alert belongs to a
  subscription.
\<close>

definition subs_ok :: "db \<Rightarrow> bool" where
  "subs_ok d \<longleftrightarrow> al_wf (db_subscriptions d) \<and>
     (\<forall>i \<in> fst ` set (db_subscriptions d). i < db_subscription_seq d) \<and>
     distinct (map (\<lambda>(i, r). rb_endpoint r) (db_subscriptions d)) \<and>
     distinct (db_push_sent d) \<and> (\<forall>(i, k) \<in> set (db_push_sent d). i \<in> fst ` set (db_subscriptions d))"

text \<open>
  An alert is spent when it has been claimed, or its subscription is gone for good: ids are
  not used again.
\<close>

definition spent :: "db \<Rightarrow> int \<times> row_key \<Rightarrow> bool" where
  "spent d x \<longleftrightarrow> x \<in> set (db_push_sent d) \<or>
     (fst x \<notin> fst ` set (db_subscriptions d) \<and> fst x < db_subscription_seq d)"

definition subs_step :: "db \<Rightarrow> db \<Rightarrow> bool" where
  "subs_step d d' \<longleftrightarrow> (subs_ok d \<longrightarrow> subs_ok d' \<and> (\<forall>x. spent d x \<longrightarrow> spent d' x))"

lemma subs_step_refl [simp, intro]: "subs_step d d"
  by (simp add: subs_step_def)

lemma subs_step_trans: "subs_step a b \<Longrightarrow> subs_step b c \<Longrightarrow> subs_step a c"
  by (auto simp: subs_step_def)

lemma subs_step_faults [simp]: "subs_step d (d'\<lparr>db_faults := f\<rparr>) = subs_step d d'"
  by (simp add: subs_step_def subs_ok_def spent_def)

lemma find_endpoint_Some:
  "find_endpoint e t = Some (i, r) \<Longrightarrow> (i, r) \<in> set t \<and> rb_endpoint r = e"
  by (induction t) (auto simp: find_endpoint_def split: if_splits)

lemma find_endpoint_None: "find_endpoint e t = None \<Longrightarrow> e \<notin> set (map (\<lambda>(i, r). rb_endpoint r) t)"
  by (induction t) (auto simp: find_endpoint_def split: if_splits)

lemma map_put_same:
  assumes "map_of t k = Some v" "f (k, v') = f (k, v)" "al_wf t"
  shows "map f (al_put k v' t) = map f t"
  using assms by (induction t) (auto simp: al_wf_def)

lemma save_stmt_step:
  assumes "save_stmt s d = Inr (d', i)"
  shows "subs_step d d'"
proof (cases "find_endpoint (sub_endpoint s) (db_subscriptions d)")
  case None
  then show ?thesis
    using assms find_endpoint_None [OF None]
    by (auto simp: save_stmt_def subs_step_def subs_ok_def spent_def al_wf_def split: if_splits) force+
next
  case (Some x)
  obtain j r where x: "x = (j, r)" by force
  note f = find_endpoint_Some [OF Some [unfolded x]]
  define r' where "r' = r\<lparr>rb_p256dh := sub_p256dh s, rb_auth := sub_auth s, rb_stop_id := sub_stop_id s,
      rb_route_id := sub_route_id s, rb_direction_id := sub_direction_id s,
      rb_threshold_secs := sub_threshold_secs s, rb_failure_count := 0\<rparr>"
  have r': "rb_endpoint r' = rb_endpoint r" by (simp add: r'_def)
  have d': "d' = d\<lparr>db_subscriptions := al_put j r' (db_subscriptions d),
      db_subscription_seq := db_subscription_seq d + 1\<rparr>"
    using assms Some x by (auto simp: save_stmt_def r'_def split: if_splits)
  have keys: "fst ` set (al_put j r' (db_subscriptions d)) = fst ` set (db_subscriptions d)"
    using f by (simp add: dom_update) force
  show ?thesis
  proof (unfold subs_step_def, intro impI conjI allI)
    assume ok: "subs_ok d"
    then have m: "map_of (db_subscriptions d) j = Some r" using f by (simp add: subs_ok_def al_wf_mem)
    have "map (\<lambda>(i, r). rb_endpoint r) (al_put j r' (db_subscriptions d)) =
        map (\<lambda>(i, r). rb_endpoint r) (db_subscriptions d)"
      using ok r' by (intro map_put_same [OF m]) (simp_all add: subs_ok_def)
    then show "subs_ok d'" using ok unfolding subs_ok_def d' by (auto simp: keys)
    show "spent d' y" if "spent d y" for y using that unfolding spent_def d' by (auto simp: keys)
  qed
qed

lemma delete_subscriptions_step: "subs_step d (fst (delete_subscriptions p d))"
proof (unfold subs_step_def, intro impI conjI allI)
  assume ok: "subs_ok d"
  have uniq: "x = y" if "x \<in> set (db_subscriptions d)" "y \<in> set (db_subscriptions d)" "fst x = fst y" for x y
    using ok that by (auto simp: subs_ok_def al_wf_def distinct_map dest: inj_onD)
  have keys: "i \<in> fst ` set (filter (\<lambda>x. \<not> p x) (db_subscriptions d)) \<longleftrightarrow>
      i \<in> fst ` set (db_subscriptions d) \<and> i \<notin> fst ` set (filter p (db_subscriptions d))" for i
    using uniq unfolding set_filter image_iff by blast
  show "subs_ok (fst (delete_subscriptions p d))"
  proof -
    have "\<forall>(i, k) \<in> set (filter (\<lambda>(i, k). i \<notin> set (map fst (filter p (db_subscriptions d)))) (db_push_sent d)).
        i \<in> fst ` set (filter (\<lambda>x. \<not> p x) (db_subscriptions d))"
      using ok keys by (auto simp: subs_ok_def)
    then show ?thesis
      using ok by (auto simp: subs_ok_def delete_subscriptions_def Let_def distinct_map_filter)
  qed
  show "spent (fst (delete_subscriptions p d)) x" if s: "spent d x" for x
  proof -
    obtain i k where x: "x = (i, k)" by (metis surj_pair)
    show ?thesis
    proof (cases "i \<in> fst ` set (filter p (db_subscriptions d))")
      case True
      then have "i < db_subscription_seq d" using ok by (auto simp: subs_ok_def)
      then show ?thesis using True keys [of i] by (simp add: x spent_def delete_subscriptions_def Let_def)
    next
      case False
      then show ?thesis using s keys [of i] by (auto simp: x spent_def delete_subscriptions_def Let_def)
    qed
  qed
qed

lemma update_subscription_step:
  assumes "\<And>r. rb_endpoint (f d r) = rb_endpoint r"
  shows "subs_step d (fst (update_subscription i f d))"
proof -
  let ?g = "\<lambda>(j, r). (j, if j = i then f d r else r)"
  have "map (\<lambda>(i, r). rb_endpoint r) (map ?g t) = map (\<lambda>(i, r). rb_endpoint r) t"
    and "fst ` set (map ?g t) = fst ` set t" "map fst (map ?g t) = map fst t" for t
    using assms by (auto simp: image_image case_prod_beta)
  then show ?thesis
    by (simp add: subs_step_def subs_ok_def spent_def update_subscription_def al_wf_def del: map_map)
qed

lemma mark_stmt_step:
  assumes "mark_stmt i k d = Inr (d', n)"
  shows "subs_step d d' \<and> (n = 1 \<longrightarrow> \<not> spent d (i, k) \<and> spent d' (i, k)) \<and> (n \<noteq> 1 \<longrightarrow> d' = d \<and> spent d (i, k))"
  using assms
  by (auto simp: mark_stmt_def subs_step_def subs_ok_def spent_def domIff dom_map_of_conv_image_fst [symmetric]
      split: if_splits)

section \<open>The contract of the alert store\<close>

text \<open>
  While \<open>good\<close> holds, and every operation keeps it, an alert that is used stays used, and
  a claim is granted only for an alert that was not used and now is.
\<close>

locale alert_contract =
  fixes ss :: "'s subscription_store" and good :: "'s sys \<Rightarrow> bool"
    and claim :: "event_key \<Rightarrow> 'c" and used :: "'s sys \<Rightarrow> int \<Rightarrow> 'c \<Rightarrow> bool"
  assumes list_alerts: "good w \<Longrightarrow> ss_all ss w = (l, w') \<Longrightarrow> good w' \<and> used w \<le> used w'"
    and save_alerts: "good w \<Longrightarrow> ss_save ss s w = (n, w') \<Longrightarrow> good w' \<and> used w \<le> used w'"
    and delete_alerts: "good w \<Longrightarrow> ss_delete ss e w = (x, w') \<Longrightarrow> good w' \<and> used w \<le> used w'"
    and record_alerts: "good w \<Longrightarrow> ss_record_result ss i ok gone w = (x, w') \<Longrightarrow> good w' \<and> used w \<le> used w'"
    and mark_alert: "good w \<Longrightarrow> ss_mark_sent ss i k w = (m, w') \<Longrightarrow>
      good w' \<and> used w \<le> used w' \<and> (m = Inr True \<longrightarrow> \<not> used w i (claim k) \<and> used w' i (claim k))"
    and alert_metrics: "good (on_metrics f w) = good w" "used (on_metrics f w) = used w"

text \<open>The row that claims an alert, if the service date of its event can be read.\<close>

definition claim_row :: "event_key \<Rightarrow> row_key option" where
  "claim_row k = (case date_from_service_date (ek_service_date k) of
     Inl e \<Rightarrow> None | Inr day \<Rightarrow> Some (key_row day k))"

definition store_used :: "store sys \<Rightarrow> int \<Rightarrow> row_key option \<Rightarrow> bool" where
  "store_used w i c \<longleftrightarrow> (case c of None \<Rightarrow> False | Some k \<Rightarrow> spent (sys_db w) (i, k))"

abbreviation store_alerts_ok :: "store sys \<Rightarrow> bool" where
  "store_alerts_ok w \<equiv> subs_ok (sys_db w)"

lemma subs_step_used:
  assumes "subs_step (sys_db w) (sys_db w')" and "store_alerts_ok w"
  shows "store_alerts_ok w' \<and> store_used w \<le> store_used w'"
proof -
  have ok: "store_alerts_ok w'" and s: "\<And>x. spent (sys_db w) x \<Longrightarrow> spent (sys_db w') x"
    using assms unfolding subs_step_def by blast+
  have "store_used w i k \<Longrightarrow> store_used w' i k" for i k
    using s by (simp add: store_used_def split: option.split_asm)
  then show ?thesis using ok by (simp add: le_fun_def)
qed

lemma db_run_subs:
  assumes "db_run stmt w = (r, w')" and "\<And>d x. stmt (sys_db w) = Inr (d, x) \<Longrightarrow> subs_step (sys_db w) d"
  shows "subs_step (sys_db w) (sys_db w')"
  using assms by (auto simp: db_run_def Let_def split: option.splits fault.splits sum.splits)

lemma db_exec_subs:
  assumes "db_exec stmt w = (r, w')" and "subs_step (sys_db w) (fst (stmt (sys_db w)))"
  shows "subs_step (sys_db w) (sys_db w')"
  using assms by (auto simp: db_exec_def split: option.splits fault.splits)

lemma db_query_subs: "db_query q w = (r, w') \<Longrightarrow> subs_step (sys_db w) (sys_db w')"
  by (auto simp: db_query_def split: option.splits fault.splits)

lemma record_push_result_step:
  assumes "record_push_result i ok gone w = (x, w')"
  shows "subs_step (sys_db w) (sys_db w')"
proof -
  define stmt where "stmt = (if gone then delete_subscriptions (\<lambda>(j, r). j = i)
      else if ok then update_subscription i (\<lambda>d r. r\<lparr>rb_last_success := Some (db_clock d), rb_failure_count := 0\<rparr>)
      else update_subscription i (\<lambda>d r. r\<lparr>rb_failure_count := rb_failure_count r + 1\<rparr>))"
  obtain y w1 where e: "db_exec stmt w = (y, w1)" by (metis surj_pair)
  have "w' = w1" using assms e by (auto simp: record_push_result_def stmt_def [symmetric] split: sum.splits)
  moreover have "subs_step (sys_db w) (fst (stmt (sys_db w)))"
    by (auto simp: stmt_def delete_subscriptions_step intro: update_subscription_step)
  ultimately show ?thesis using db_exec_subs [OF e] by simp
qed

lemma mark_push_sent_step:
  assumes "mark_push_sent i k w = (m, w')" and "store_alerts_ok w"
  shows "subs_step (sys_db w) (sys_db w') \<and> (m = Inr True \<longrightarrow> \<not> store_used w i (claim_row k) \<and> store_used w' i (claim_row k))"
proof (cases "date_from_service_date (ek_service_date k)")
  case (Inl e)
  then show ?thesis using assms by (auto simp: mark_push_sent_def)
next
  case (Inr day)
  obtain r w1 where run: "db_run (mark_stmt i (key_row day k)) w = (r, w1)" by (metis surj_pair)
  have w': "w' = w1" using assms(1) run Inr by (auto simp: mark_push_sent_def split: sum.splits)
  have step: "subs_step (sys_db w) (sys_db w1)"
    by (rule db_run_subs [OF run]) (use mark_stmt_step in blast)
  show ?thesis
  proof (cases "m = Inr True")
    case True
    then have r: "r = Inr 1" using assms(1) run Inr by (auto simp: mark_push_sent_def split: sum.splits)
    then obtain d where d: "mark_stmt i (key_row day k) (sys_db w) = Inr (d, 1)" "sys_db w1 = drop_fault d"
      using run by (auto simp: db_run_def Let_def split: option.splits fault.splits sum.splits)
    then show ?thesis
      using mark_stmt_step [OF d(1)] step by (simp add: w' store_used_def claim_row_def Inr spent_def)
  next
    case False
    then show ?thesis using step w' by simp
  qed
qed

interpretation pg_alerts: alert_contract store_subscriptions store_alerts_ok claim_row store_used
proof
  show "store_alerts_ok w' \<and> store_used w \<le> store_used w'"
    if "store_alerts_ok w" "ss_all store_subscriptions w = (l, w')" for w l w'
    using that by (auto simp: store_subscriptions_def all_subscriptions_def split: prod.splits sum.splits
        intro!: subs_step_used db_query_subs)
  show "store_alerts_ok w' \<and> store_used w \<le> store_used w'"
    if "store_alerts_ok w" "ss_save store_subscriptions s w = (n, w')" for w s n w'
    using that save_stmt_step by (auto simp: store_subscriptions_def save_subscription_def
        split: prod.splits sum.splits intro!: subs_step_used db_run_subs)
  show "store_alerts_ok w' \<and> store_used w \<le> store_used w'"
    if "store_alerts_ok w" "ss_delete store_subscriptions e w = (x, w')" for w e x w'
    using that delete_subscriptions_step by (auto simp: store_subscriptions_def delete_subscription_def
        split: prod.splits sum.splits intro!: subs_step_used db_exec_subs)
  show "store_alerts_ok w' \<and> store_used w \<le> store_used w'"
    if "store_alerts_ok w" "ss_record_result store_subscriptions i ok gone w = (x, w')" for w i ok gone x w'
    using that by (auto simp: store_subscriptions_def intro!: subs_step_used record_push_result_step)
  show "store_alerts_ok w' \<and> store_used w \<le> store_used w' \<and>
      (m = Inr True \<longrightarrow> \<not> store_used w i (claim_row k) \<and> store_used w' i (claim_row k))"
    if "store_alerts_ok w" "ss_mark_sent store_subscriptions i k w = (m, w')" for w i k m w'
    using that mark_push_sent_step [of i k w m w'] subs_step_used by (auto simp: store_subscriptions_def)
qed (simp_all add: store_used_def fun_eq_iff cong: option.case_cong)

end
