(* ===== verification/Queries.thy ===== *)
theory Queries
  imports Schedule_Load "HOL-Library.Sublist" "HOL-Library.Product_Lexorder" "HOL-Library.List_Lexorder" "HOL-Library.Char_ord"
begin

text \<open>
  \<open>internal/store/queries.go\<close>: the read side of the HTTP API. Reference data is read from
  the active version, rollups are filtered to enough observations and read for a station
  together with its platforms.

  Two things of the surroundings are parameters: \<open>collate\<close>, the sort keys of the
  database's collation, and \<open>lower\<close>, case folding (of Go for the search text, of the
  database for the names).
\<close>

section \<open>Pattern matching\<close>

text \<open>
  SQL \<open>LIKE\<close> with the default escape. An underscore matches one character, that is, a
  byte and the continuation bytes that follow it.
\<close>

abbreviation like_escape_char :: char where "like_escape_char \<equiv> CHR 0x5C"

definition continuation :: "char \<Rightarrow> bool" where
  "continuation c \<longleftrightarrow> 128 \<le> byte c \<and> byte c < 192"

fun sql_like :: "string \<Rightarrow> string \<Rightarrow> bool" where
  "sql_like [] s = (s = [])"
| "sql_like (p # ps) [] =
     (if p = CHR ''%'' then sql_like ps [] else False)"
| "sql_like (p # ps) (c # s) =
     (if p = CHR ''%'' then sql_like ps (c # s) \<or> sql_like (p # ps) s
      else if p = CHR ''_'' then sql_like ps (dropWhile continuation s)
      else if p = like_escape_char then (case ps of [] \<Rightarrow> False | q # qs \<Rightarrow> q = c \<and> sql_like qs s)
      else p = c \<and> sql_like ps s)"

text \<open>\<open>likeEscape\<close>: the replacer takes every byte in turn.\<close>

definition like_escape :: "string \<Rightarrow> string" where
  "like_escape s = concat (map (\<lambda>c.
     if c = like_escape_char \<or> c = CHR ''%'' \<or> c = CHR ''_'' then [like_escape_char, c] else [c]) s)"

section \<open>Floats\<close>

text \<open>
  The order of IEEE doubles on their bit patterns: sign and magnitude, zeros equal. Go's
  comparisons are false on NaN, Postgres sorts NaN above all numbers.
\<close>

definition f64_magnitude :: "64 word \<Rightarrow> int" where
  "f64_magnitude w = uint w mod 9223372036854775808"

definition f64_nan :: "64 word \<Rightarrow> bool" where
  "f64_nan w \<longleftrightarrow> 9218868437227405312 < f64_magnitude w"

definition f64_key :: "64 word \<Rightarrow> int" where
  "f64_key w = (if 9223372036854775808 \<le> uint w then - f64_magnitude w else f64_magnitude w)"

definition f64_less :: "64 word \<Rightarrow> 64 word \<Rightarrow> bool" where
  "f64_less a b \<longleftrightarrow> \<not> f64_nan a \<and> \<not> f64_nan b \<and> f64_key a < f64_key b"

definition pg_f64_le :: "64 word \<Rightarrow> 64 word \<Rightarrow> bool" where
  "pg_f64_le a b \<longleftrightarrow> f64_nan b \<or> (\<not> f64_nan a \<and> f64_key a \<le> f64_key b)"

section \<open>Reference data\<close>

definition active_version_id :: "store sys \<Rightarrow> int result \<times> store sys" where
  "active_version_id w =
     (case db_query (\<lambda>d. map_option fst (find (\<lambda>(i, r). rv_active r) (db_versions d))) w of
        (Inl e, w') \<Rightarrow> (Inl (Wrapped ''store: active schedule version'' e), w')
      | (Inr None, w') \<Rightarrow> (Inl (Wrapped ''store: active schedule version'' err_not_found), w')
      | (Inr (Some v), w') \<Rightarrow> (Inr v, w'))"

text \<open>A query, its rows scanned, with the error wrapped.\<close>

definition run_query :: "string \<Rightarrow> (db \<Rightarrow> 'a) \<Rightarrow> store sys \<Rightarrow> 'a result \<times> store sys" where
  "run_query op q w = (case db_query q w of
     (Inl e, w') \<Rightarrow> (Inl (Wrapped op e), w') | (Inr x, w') \<Rightarrow> (Inr x, w'))"

text \<open>Lists of reference data are empty while no version is active.\<close>

definition list_query :: "string \<Rightarrow> (int \<Rightarrow> db \<Rightarrow> 'a list) \<Rightarrow> store sys \<Rightarrow> 'a list result \<times> store sys" where
  "list_query op q w =
     (case active_version_id w of
        (Inl e, w1) \<Rightarrow> (if errors_is e Not_found then Inr [] else Inl e, w1)
      | (Inr v, w1) \<Rightarrow> run_query op (q v) w1)"

text \<open>Single rows report \<open>ErrNotFound\<close>.\<close>

definition row_query :: "string \<Rightarrow> (int \<Rightarrow> db \<Rightarrow> 'a option) \<Rightarrow> store sys \<Rightarrow> 'a result \<times> store sys" where
  "row_query op q w =
     (case active_version_id w of
        (Inl e, w1) \<Rightarrow> (Inl e, w1)
      | (Inr v, w1) \<Rightarrow>
          (case db_query (q v) w1 of
             (Inl e, w2) \<Rightarrow> (Inl (Wrapped op e), w2)
           | (Inr None, w2) \<Rightarrow> (Inl (Wrapped op err_not_found), w2)
           | (Inr (Some x), w2) \<Rightarrow> (Inr x, w2)))"

definition stop_of_row :: "(int \<times> string) \<times> stop_row \<Rightarrow> stop" where
  "stop_of_row x = (case x of ((v, i), r) \<Rightarrow>
     \<lparr>sto_stop_id = i, sto_name = ro_name r, sto_lat = (case ro_lat r of None \<Rightarrow> 0 | Some f \<Rightarrow> f),
      sto_lon = (case ro_lon r of None \<Rightarrow> 0 | Some f \<Rightarrow> f), sto_parent_station = ro_parent_station r,
      sto_location_type = ro_location_type r, sto_platform_code = ro_platform_code r\<rparr>)"

definition route_of_row :: "(int \<times> string) \<times> route_row \<Rightarrow> route" where
  "route_of_row x = (case x of ((v, i), r) \<Rightarrow>
     \<lparr>rou_route_id = i, rou_short_name = rw_short_name r, rou_long_name = rw_long_name r,
      rou_route_type = rw_route_type r, rou_color = rw_color r, rou_text_color = rw_text_color r,
      rou_sort_order = (case rw_sort_order r of None \<Rightarrow> 0 | Some n \<Rightarrow> n)\<rparr>)"

definition version_rows :: "int \<Rightarrow> ((int \<times> 'b) \<times> 'v) list \<Rightarrow> ((int \<times> 'b) \<times> 'v) list" where
  "version_rows v t = filter (\<lambda>x. fst (fst x) = v) t"

definition search_rows :: "(string \<Rightarrow> string) \<Rightarrow> (string \<Rightarrow> string) \<Rightarrow> (string \<Rightarrow> string) \<Rightarrow>
    string \<Rightarrow> int \<Rightarrow> int \<Rightarrow> db \<Rightarrow> stop list" where
  "search_rows collate go_lower pg_lower q limit v d =
     (let needle = like_escape (go_lower (trim_space q));
          hits = filter (\<lambda>s. sto_location_type s \<le> 1 \<and>
              (sql_like (''%'' @ needle @ ''%'') (pg_lower (sto_name s)) \<or> sto_stop_id s = q))
            (map stop_of_row (version_rows v (db_stops d)))
      in take (nat limit) (sort_key (\<lambda>s. (if sql_like (needle @ ''%'') (pg_lower (sto_name s)) then 0 :: int else 1,
            - sto_location_type s, collate (sto_name s), collate (sto_stop_id s))) hits))"

definition search_stops :: "(string \<Rightarrow> string) \<Rightarrow> (string \<Rightarrow> string) \<Rightarrow> (string \<Rightarrow> string) \<Rightarrow>
    string \<Rightarrow> int \<Rightarrow> store sys \<Rightarrow> stop list result \<times> store sys" where
  "search_stops collate go_lower pg_lower q limit =
     list_query ''store: search stops'' (search_rows collate go_lower pg_lower q limit)"

definition bbox_rows :: "(string \<Rightarrow> string) \<Rightarrow> 64 word \<Rightarrow> 64 word \<Rightarrow> 64 word \<Rightarrow> 64 word \<Rightarrow> int \<Rightarrow>
    int \<Rightarrow> db \<Rightarrow> stop list" where
  "bbox_rows collate min_lat min_lon max_lat max_lon limit v d =
     (let inside = filter (\<lambda>(k, r). ro_location_type r \<le> 1 \<and>
            (case ro_lat r of None \<Rightarrow> False | Some f \<Rightarrow> pg_f64_le min_lat f \<and> pg_f64_le f max_lat) \<and>
            (case ro_lon r of None \<Rightarrow> False | Some f \<Rightarrow> pg_f64_le min_lon f \<and> pg_f64_le f max_lon))
          (version_rows v (db_stops d))
      in take (nat limit) (sort_key (\<lambda>s. collate (sto_stop_id s)) (map stop_of_row inside)))"

definition stops_in_bbox :: "(string \<Rightarrow> string) \<Rightarrow> 64 word \<Rightarrow> 64 word \<Rightarrow> 64 word \<Rightarrow> 64 word \<Rightarrow> int \<Rightarrow>
    store sys \<Rightarrow> stop list result \<times> store sys" where
  "stops_in_bbox collate min_lat min_lon max_lat max_lon limit =
     list_query ''store: stops in bbox'' (bbox_rows collate min_lat min_lon max_lat max_lon limit)"

definition stop_row_of :: "string \<Rightarrow> int \<Rightarrow> db \<Rightarrow> stop option" where
  "stop_row_of i v d = map_option (\<lambda>r. stop_of_row ((v, i), r)) (map_of (db_stops d) (v, i))"

definition query_stop :: "string \<Rightarrow> store sys \<Rightarrow> stop result \<times> store sys" where
  "query_stop i = row_query ''store: stop'' (stop_row_of i)"

definition route_rows :: "(string \<Rightarrow> string) \<Rightarrow> int \<Rightarrow> db \<Rightarrow> route list" where
  "route_rows collate v d =
     map route_of_row (sort_key (\<lambda>((v, i), r).
         (case rw_sort_order r of None \<Rightarrow> 2147483647 | Some n \<Rightarrow> n, collate i)) (version_rows v (db_routes d)))"

definition query_routes :: "(string \<Rightarrow> string) \<Rightarrow> store sys \<Rightarrow> route list result \<times> store sys" where
  "query_routes collate = list_query ''store: routes'' (route_rows collate)"

definition route_row_of :: "string \<Rightarrow> int \<Rightarrow> db \<Rightarrow> route option" where
  "route_row_of i v d = map_option (\<lambda>r. route_of_row ((v, i), r)) (map_of (db_routes d) (v, i))"

definition query_route :: "string \<Rightarrow> store sys \<Rightarrow> route result \<times> store sys" where
  "query_route i = row_query ''store: route'' (route_row_of i)"

text \<open>A stop and the platforms that name it as their parent.\<close>

definition stop_family :: "int \<Rightarrow> string \<Rightarrow> db \<Rightarrow> string list" where
  "stop_family v i d =
     i # map (\<lambda>x. snd (fst x)) (filter (\<lambda>(k, r). ro_parent_station r = i) (version_rows v (db_stops d)))"

definition serving_rows :: "(string \<Rightarrow> string) \<Rightarrow> string \<Rightarrow> int \<Rightarrow> db \<Rightarrow> route list" where
  "serving_rows collate i v d =
     (let family = stop_family v i d;
          trips = map (\<lambda>((v, t, q), r). t) (filter (\<lambda>(k, r). rs_stop_id r \<in> set family) (version_rows v (db_stop_times d)));
          routes = map (\<lambda>(k, r). rt_route_id r) (filter (\<lambda>((v, t), r). t \<in> set trips) (version_rows v (db_trips d)))
      in sort_key (\<lambda>r. (rou_sort_order r, collate (rou_route_id r)))
           (map route_of_row (filter (\<lambda>((v, j), r). j \<in> set routes) (version_rows v (db_routes d)))))"

definition routes_serving_stop :: "(string \<Rightarrow> string) \<Rightarrow> string \<Rightarrow> store sys \<Rightarrow> route list result \<times> store sys" where
  "routes_serving_stop collate i = list_query ''store: routes serving stop'' (serving_rows collate i)"

section \<open>Rollups and recent events\<close>

text \<open>Without an active version a station is not expanded; version 0 has no rows.\<close>

definition rollup_version_id :: "store sys \<Rightarrow> int result \<times> store sys" where
  "rollup_version_id w =
     (case active_version_id w of
        (Inl e, w') \<Rightarrow> (if errors_is e Not_found then Inr 0 else Inl e, w')
      | (Inr v, w') \<Rightarrow> (Inr v, w'))"

definition rollup_query :: "string \<Rightarrow> (int \<Rightarrow> db \<Rightarrow> 'a list) \<Rightarrow> store sys \<Rightarrow> 'a list result \<times> store sys" where
  "rollup_query op q w =
     (case rollup_version_id w of
        (Inl e, w1) \<Rightarrow> (Inl e, w1)
      | (Inr v, w1) \<Rightarrow> run_query op (q v) w1)"

definition stop_hourly_rows :: "(string \<Rightarrow> string) \<Rightarrow> string \<Rightarrow> int \<Rightarrow> db \<Rightarrow> hourly_stat list" where
  "stop_hourly_rows collate i v d =
     sort_key (\<lambda>h. (collate (hs_route_id h), hs_direction_id h, hs_hour_of_week h))
       (map (\<lambda>((rt, st, dir, how), x).
           \<lparr>hs_route_id = rt, hs_stop_id = st, hs_direction_id = dir, hs_hour_of_week = how, hs_n = rx_n x,
            hs_p50_delay_secs = rx_p50_delay_secs x, hs_p90_delay_secs = rx_p90_delay_secs x,
            hs_late5_pct = rx_late5_pct x, hs_early_pct = rx_early_pct x\<rparr>)
         (filter (\<lambda>((rt, st, dir, how), x). st \<in> set (stop_family v i d) \<and> rx_n x \<ge> min_observations)
           (db_stop_hour d)))"

definition stop_hourly :: "(string \<Rightarrow> string) \<Rightarrow> string \<Rightarrow> store sys \<Rightarrow> hourly_stat list result \<times> store sys" where
  "stop_hourly collate i = rollup_query ''store: stop hourly'' (stop_hourly_rows collate i)"

definition stop_departure_rows :: "(string \<Rightarrow> string) \<Rightarrow> string \<Rightarrow> int \<Rightarrow> db \<Rightarrow> departure_stat list" where
  "stop_departure_rows collate i v d =
     sort_key (\<lambda>h. (collate (ds_route_id h), ds_direction_id h, collate (ds_day_class h), ds_scheduled_secs h))
       (map (\<lambda>((rt, st, dir, secs, cls), x).
           \<lparr>ds_route_id = rt, ds_stop_id = st, ds_direction_id = dir, ds_scheduled_secs = secs,
            ds_day_class = cls, ds_n = rx_n x, ds_p50_delay_secs = rx_p50_delay_secs x,
            ds_p90_delay_secs = rx_p90_delay_secs x, ds_late5_pct = rx_late5_pct x\<rparr>)
         (filter (\<lambda>((rt, st, dir, secs, cls), x). st \<in> set (stop_family v i d) \<and> rx_n x \<ge> min_observations)
           (db_departure d)))"

definition stop_departures :: "(string \<Rightarrow> string) \<Rightarrow> string \<Rightarrow> store sys \<Rightarrow> departure_stat list result \<times> store sys" where
  "stop_departures collate i = rollup_query ''store: stop departures'' (stop_departure_rows collate i)"

definition route_hourly_rows :: "string \<Rightarrow> db \<Rightarrow> hourly_stat list" where
  "route_hourly_rows i d =
     sort_key (\<lambda>h. (hs_direction_id h, hs_hour_of_week h))
       (map (\<lambda>((rt, dir, how), x).
           \<lparr>hs_route_id = rt, hs_stop_id = [], hs_direction_id = dir, hs_hour_of_week = how, hs_n = rx_n x,
            hs_p50_delay_secs = rx_p50_delay_secs x, hs_p90_delay_secs = rx_p90_delay_secs x,
            hs_late5_pct = rx_late5_pct x, hs_early_pct = 0\<rparr>)
         (filter (\<lambda>((rt, dir, how), x). rt = i \<and> rx_n x \<ge> min_observations) (db_route_hour d)))"

definition route_hourly :: "string \<Rightarrow> store sys \<Rightarrow> hourly_stat list result \<times> store sys" where
  "route_hourly i = run_query ''store: route hourly'' (route_hourly_rows i)"

definition event_of_row :: "row_key \<times> stop_event_row \<Rightarrow> stop_event" where
  "event_of_row x = (case x of ((day, trip, start, q), r) \<Rightarrow>
     \<lparr>se_service_date = service_date_from_time day, se_trip_id = trip, se_start_time = start,
      se_stop_sequence = q, se_stop_id = re_stop_id r, se_route_id = re_route_id r,
      se_direction_id = re_direction_id r, se_schedule_version_id = re_schedule_version_id r,
      se_vehicle_id = re_vehicle_id r, se_headsign = [],
      se_scheduled_arrival = time_or_zero (re_scheduled_arrival r),
      se_predicted_arrival = time_or_zero (re_predicted_arrival r),
      se_actual_arrival = time_or_zero (re_actual_arrival r), se_delay_secs = re_delay_secs r,
      se_final = re_final r, se_skipped = re_skipped r,
      se_feed_timestamp = re_feed_timestamp r mod 2 ^ 64, se_observed_at = re_last_updated r\<rparr>)"

text \<open>\<open>COALESCE(actual_arrival, scheduled_arrival) DESC NULLS LAST, service_date DESC, trip_id\<close>.\<close>

definition recent_key :: "(string \<Rightarrow> string) \<Rightarrow> row_key \<times> stop_event_row \<Rightarrow> bool \<times> int \<times> int \<times> string" where
  "recent_key collate x = (case x of ((day, trip, start, q), r) \<Rightarrow>
     (case (case re_actual_arrival r of None \<Rightarrow> re_scheduled_arrival r | Some t \<Rightarrow> Some t) of
        None \<Rightarrow> (True, 0, - day, collate trip)
      | Some t \<Rightarrow> (False, - t, - day, collate trip)))"

definition recent_rows :: "(string \<Rightarrow> string) \<Rightarrow> string \<Rightarrow> int \<Rightarrow> db \<Rightarrow> stop_event list" where
  "recent_rows collate i limit d =
     map event_of_row (take (nat limit) (sort_key (recent_key collate)
       (filter (\<lambda>(k, r). re_stop_id r = i \<and> re_final r) (db_stop_events d))))"

definition recent_stop_events :: "(string \<Rightarrow> string) \<Rightarrow> string \<Rightarrow> int \<Rightarrow> store sys \<Rightarrow> stop_event list result \<times> store sys" where
  "recent_stop_events collate i limit = run_query ''store: recent stop events'' (recent_rows collate i limit)"

definition store_queries :: "(string \<Rightarrow> string) \<Rightarrow> (string \<Rightarrow> string) \<Rightarrow> (string \<Rightarrow> string) \<Rightarrow> store stop_queries" where
  "store_queries collate go_lower pg_lower =
     \<lparr>sq_search_stops = search_stops collate go_lower pg_lower, sq_stops_in_bbox = stops_in_bbox collate,
      sq_stop = query_stop, sq_routes = query_routes collate, sq_route = query_route,
      sq_routes_serving_stop = routes_serving_stop collate, sq_stop_hourly = stop_hourly collate,
      sq_stop_departures = stop_departures collate, sq_route_hourly = route_hourly,
      sq_recent_stop_events = recent_stop_events collate\<rparr>"

section \<open>Search\<close>

lemma like_percent: "sql_like (CHR ''%'' # ps) s \<longleftrightarrow> (\<exists>a b. s = a @ b \<and> sql_like ps b)"
proof (induction s)
  case Nil
  then show ?case by simp
next
  case (Cons c s)
  show ?case
    by (auto simp: Cons.IH Cons_eq_append_conv)
qed

lemma like_literal: "sql_like (like_escape n @ ps) s \<longleftrightarrow> (\<exists>b. s = n @ b \<and> sql_like ps b)"
proof (induction n arbitrary: s)
  case Nil
  then show ?case by (simp add: like_escape_def)
next
  case (Cons c n)
  have step: "like_escape (c # n) =
      (if c = like_escape_char \<or> c = CHR ''%'' \<or> c = CHR ''_'' then [like_escape_char, c] else [c]) @ like_escape n"
    by (simp add: like_escape_def)
  show ?case by (cases s) (auto simp: step Cons.IH)
qed

lemma like_any [simp]: "sql_like ''%'' s"
  unfolding like_percent by (intro exI [of _ s] exI [of _ "[]"]) simp

lemma like_contains: "sql_like (''%'' @ like_escape n @ ''%'') s \<longleftrightarrow> sublist n s"
  by (auto simp: like_percent like_literal sublist_def)

lemma like_begins: "sql_like (like_escape n @ ''%'') s \<longleftrightarrow> prefix n s"
  by (simp add: like_literal prefix_def)

text \<open>
  C35: a search means its text literally. Whatever characters it contains, wildcards and
  escapes included, the hits are exactly the stops and stations of the version whose folded
  name contains the folded, trimmed text or whose id is the text, those that start with it
  first, then stations before platforms, cut off at the limit.
\<close>

theorem search_literal:
  "search_rows collate go_lower pg_lower q limit v d =
    (let n = go_lower (trim_space q) in
     take (nat limit) (sort_key (\<lambda>s. (if prefix n (pg_lower (sto_name s)) then 0 :: int else 1,
           - sto_location_type s, collate (sto_name s), collate (sto_stop_id s)))
       (filter (\<lambda>s. sto_location_type s \<le> 1 \<and> (sublist n (pg_lower (sto_name s)) \<or> sto_stop_id s = q))
         (map stop_of_row (version_rows v (db_stops d))))))"
  unfolding search_rows_def Let_def like_contains like_begins ..

section \<open>What was loaded is what is read\<close>

text \<open>Queries change nothing but the stream of faults.\<close>

definition only_faults :: "store sys \<Rightarrow> store sys \<Rightarrow> bool" where
  "only_faults w w' \<longleftrightarrow> (\<exists>f. w' = on_db (\<lambda>d. d\<lparr>db_faults := f\<rparr>) w)"

lemma only_faults_refl [simp]: "only_faults w w"
  unfolding only_faults_def on_db_def by (intro exI [of _ "db_faults (sys_db w)"]) simp

lemma only_faults_trans: "only_faults a b \<Longrightarrow> only_faults b c \<Longrightarrow> only_faults a c"
  by (auto simp: only_faults_def on_db_def)

lemma db_query_only: "db_query q w = (r, w') \<Longrightarrow> only_faults w w'"
  unfolding only_faults_def
  by (intro exI [of _ "tl (db_faults (sys_db w))"])
    (auto simp: db_query_def on_db_def split: option.splits fault.splits)

lemma active_version_id_only: "active_version_id w = (r, w') \<Longrightarrow> only_faults w w'"
  by (auto simp: active_version_id_def dest: db_query_only split: prod.splits sum.splits option.splits)

lemma row_query_only: "row_query op q w = (r, w') \<Longrightarrow> only_faults w w'"
  by (auto simp: row_query_def dest!: db_query_only active_version_id_only
      intro: only_faults_trans split: prod.splits sum.splits option.splits)

lemma row_query_up:
  assumes "db_faults (sys_db w) = []" and "db_active (sys_db w) = Some ver"
    and "\<And>v d f. q v (d\<lparr>db_faults := f\<rparr>) = q v d"
  shows "fst (row_query op q w) =
    (case q (sv_id ver) (sys_db w) of None \<Rightarrow> Inl (Wrapped op err_not_found) | Some x \<Rightarrow> Inr x)"
  using assms
  by (auto simp: row_query_def active_version_id_def db_query_def next_fault_def db_active_def version_of_row_def
      split: option.splits)

lemma table_row_lookup:
  assumes "tables_wf d"
  shows "Stop_row v i r \<in> set (table_rows Table_stops d) \<Longrightarrow> map_of (db_stops d) (v, i) = Some r"
    and "Route_row v i x \<in> set (table_rows Table_routes d) \<Longrightarrow> map_of (db_routes d) (v, i) = Some x"
    and "Trip_row v i y \<in> set (table_rows Table_trips d) \<Longrightarrow> map_of (db_trips d) (v, i) = Some y"
  using assms by (auto simp: tables_wf_def al_wf_mem)

text \<open>The stops of a trip, as the calls gave them, in the order of their sequence.\<close>

definition called_stops :: "string \<Rightarrow> (load_call \<times> go_error option) list \<Rightarrow> scheduled_stop list" where
  "called_stops trip tr = sort_key ss_stop_sequence (concat (map (\<lambda>(c, e). case c of
     Call_stop_time s \<Rightarrow> if stt_trip_id s = trip
       then [\<lparr>ss_stop_sequence = stt_stop_sequence s, ss_stop_id = stt_stop_id s,
              ss_arrival_secs = stt_arrival_secs s, ss_departure_secs = stt_departure_secs s\<rparr>] else []
   | _ \<Rightarrow> []) tr))"

definition stop_time_entry :: "string \<Rightarrow> gtfs_row \<Rightarrow> scheduled_stop list" where
  "stop_time_entry trip x = (case x of
     Stop_time_row v t q r \<Rightarrow> if t = trip
       then [\<lparr>ss_stop_sequence = q, ss_stop_id = rs_stop_id r, ss_arrival_secs = rs_arrival_secs r,
              ss_departure_secs = rs_departure_secs r\<rparr>] else []
   | _ \<Rightarrow> [])"

lemma stop_time_entry_simps [simp]:
  "stop_time_entry trip (Stop_time_row v t q r) = (if t = trip
     then [\<lparr>ss_stop_sequence = q, ss_stop_id = rs_stop_id r, ss_arrival_secs = rs_arrival_secs r,
            ss_departure_secs = rs_departure_secs r\<rparr>] else [])"
  by (simp add: stop_time_entry_def)

lemma db_trip_stops_rows:
  "db_trip_stops v trip d = sort_key ss_stop_sequence (concat (map (stop_time_entry trip)
     (filter (\<lambda>x. row_version x = v) (table_rows Table_stop_times d))))"
proof -
  have "map (\<lambda>((v', t', q), r). \<lparr>ss_stop_sequence = q, ss_stop_id = rs_stop_id r,
        ss_arrival_secs = rs_arrival_secs r, ss_departure_secs = rs_departure_secs r\<rparr>)
      (filter (\<lambda>((v', t', q), r). v' = v \<and> t' = trip) t) =
    concat (map (stop_time_entry trip) (filter (\<lambda>x. row_version x = v)
      (map (\<lambda>((v, k, q), r). Stop_time_row v k q r) t)))" for t
    by (induction t) (auto split: if_splits)
  then show ?thesis by (simp add: db_trip_stops_def)
qed

lemma called_stops_rows:
  "called_stops trip tr = sort_key ss_stop_sequence (concat (map (stop_time_entry trip) (trace_rows v Table_stop_times tr)))"
proof -
  have "concat (map (\<lambda>(c, e). case c of
     Call_stop_time s \<Rightarrow> if stt_trip_id s = trip
       then [\<lparr>ss_stop_sequence = stt_stop_sequence s, ss_stop_id = stt_stop_id s,
              ss_arrival_secs = stt_arrival_secs s, ss_departure_secs = stt_departure_secs s\<rparr>] else []
   | _ \<Rightarrow> []) tr) = concat (map (stop_time_entry trip) (trace_rows v Table_stop_times tr))"
    by (induction tr) (auto split: load_call.splits sum.splits)
  then show ?thesis by (simp add: called_stops_def)
qed

text \<open>
  C11: what was loaded is what is read. After a load that succeeded, the active version
  answers for every stop and route of the feed with exactly the values given, and the
  schedule that reconciliation reads for a trip has the trip's values and its stop times in
  the order of their sequence, however the rows were batched.
\<close>

theorem load_read_back:
  assumes ok: "schedule_ok (sys_db w0)"
    and new: "new_schedule_load sha t w0 = (Inr l, w1)"
    and run: "load_run (l, w1) tr (l2, w2)" and fine: "no_errors tr"
    and commit: "load_commit (l2, w2) = (Inr v, (l3, w))" and up: "db_faults (sys_db w) = []"
  shows "(\<forall>s. (Call_stop s, None) \<in> set tr \<longrightarrow> fst (query_stop (sto_stop_id s) w) = Inr s) \<and>
    (\<forall>r. (Call_route r, None) \<in> set tr \<longrightarrow> fst (query_route (rou_route_id r) w) = Inr r) \<and>
    (\<forall>p. (Call_trip p, None) \<in> set tr \<longrightarrow> db_trip v (tri_trip_id p) (sys_db w) =
      Some \<lparr>ts_trip_id = tri_trip_id p, ts_route_id = tri_route_id p, ts_service_id = tri_service_id p,
        ts_direction_id = tri_direction_id p, ts_headsign = tri_headsign p,
        ts_stops = called_stops (tri_trip_id p) tr\<rparr>)"
proof -
  have "loader_ok (None, w0)" using ok by (simp add: loader_ok_def)
  note loader_ok_step [OF load_commits [OF commit] loader_ok_step [OF load_calls [OF run]
    loader_ok_step [OF load_begins [OF new] this]]]
  then have wf: "tables_wf (sys_db w)" by (simp add: loader_ok_def schedule_ok_def)
  note exact = load_rows_exact [OF ok new run fine commit, simplified snd_conv]
  obtain ver where ver: "db_active (sys_db w) = Some ver" "sv_id ver = v"
    using exact by (auto simp: version_of_row_def)
  have rows: "filter (\<lambda>x. row_version x = v) (table_rows tb (sys_db w)) = trace_rows v tb tr" for tb
    using exact by blast
  have mem: "x \<in> set (table_rows (row_table x) (sys_db w))" if "(c, None) \<in> set tr" "x \<in> set (call_rows v c)" for c x
  proof -
    have "x \<in> set (trace_rows v (row_table x) tr)" using that by force
    then show ?thesis using rows [of "row_table x", symmetric] by (metis (no_types, lifting) filter_is_subset subsetD)
  qed
  have "fst (query_stop (sto_stop_id s) w) = Inr s" if "(Call_stop s, None) \<in> set tr" for s
    using mem [OF that] table_row_lookup(1) [OF wf] row_query_up [OF up ver(1), of "stop_row_of (sto_stop_id s)"]
    by (simp add: query_stop_def stop_row_of_def stop_of_row_def ver(2))
  moreover have "fst (query_route (rou_route_id r) w) = Inr r" if "(Call_route r, None) \<in> set tr" for r
    using mem [OF that] table_row_lookup(2) [OF wf] row_query_up [OF up ver(1), of "route_row_of (rou_route_id r)"]
    by (simp add: query_route_def route_row_of_def route_of_row_def ver(2))
  moreover have "db_trip v (tri_trip_id p) (sys_db w) =
      Some \<lparr>ts_trip_id = tri_trip_id p, ts_route_id = tri_route_id p, ts_service_id = tri_service_id p,
        ts_direction_id = tri_direction_id p, ts_headsign = tri_headsign p,
        ts_stops = called_stops (tri_trip_id p) tr\<rparr>" if "(Call_trip p, None) \<in> set tr" for p
  proof -
    have "db_trip_stops v (tri_trip_id p) (sys_db w) = called_stops (tri_trip_id p) tr"
      unfolding db_trip_stops_rows rows called_stops_rows [of _ _ v] ..
    then show ?thesis using mem [OF that] table_row_lookup(3) [OF wf] by (simp add: db_trip_def)
  qed
  ultimately show ?thesis by blast
qed

theorem load_read_back_witness:
  "\<exists>w. db_trip 1 ''T1'' (sys_db w) = Some \<lparr>ts_trip_id = ''T1'', ts_route_id = ''1'', ts_service_id = ''W'',
     ts_direction_id = 0, ts_headsign = ''Depot'', ts_stops =
       [\<lparr>ss_stop_sequence = 1, ss_stop_id = ''A'', ss_arrival_secs = 3600, ss_departure_secs = 3600\<rparr>]\<rparr>"
proof -
  obtain l w where new: "new_schedule_load ''abc'' 5 (opened_store []) = (Inr l, w)"
    using sample_load_run by blast
  have s: "sample_load [] = snd (writer_calls load_writer sample_calls (l, w))"
    by (simp add: sample_load_def new)
  have "fst (writer_calls load_writer sample_calls (case sample_new [] of (Inr l, w) \<Rightarrow> (l, w))) = None"
    by code_simp
  then have "writer_calls load_writer sample_calls (l, w) = (None, sample_load [])"
    using s by (simp add: sample_new_def new prod_eq_iff)
  from writer_calls_run [OF this run_start] have
    run: "load_run (l, w) (map (\<lambda>c. (c, None)) sample_calls) (sample_load [])"
    and fine: "no_errors (map (\<lambda>c. (c, None)) sample_calls)" by auto
  have "fst (load_commit (sample_load [])) = Inr 1" by code_simp
  then obtain l3 w3 where c: "load_commit (sample_load []) = (Inr 1, (l3, w3))" by (metis prod.collapse)
  obtain l2 w2 where lw2: "sample_load [] = (l2, w2)" by (metis surj_pair)
  have "w3 = sample_loaded" by (simp add: sample_loaded_def c)
  moreover have "db_faults (sys_db sample_loaded) = []" by code_simp
  ultimately have up: "db_faults (sys_db w3) = []" by simp
  have "called_stops ''T1'' (map (\<lambda>c. (c, None)) sample_calls) =
      [\<lparr>ss_stop_sequence = 1, ss_stop_id = ''A'', ss_arrival_secs = 3600, ss_departure_secs = 3600\<rparr>]" by code_simp
  then show ?thesis
    using load_read_back [OF schedule_ok_opened new run [unfolded lw2] fine c [unfolded lw2] up]
    by (intro exI [of _ w3]) (auto simp: sample_calls_def)
qed

end
