(* ===== verification/Reconcile.thy ===== *)
theory Reconcile
  imports Domain_Types "HOL-Library.Sublist"
begin

text \<open>
  \<open>internal/reconcile/process.go\<close>, the part that computes: one trip update against the
  static schedule of its trip. \<open>expand_trip\<close> is \<open>reconcileTrip\<close> after the schedule
  lookup, whose state the engine threads. An index that Go writes as -1 when there is none
  is an option, and the loop over \<open>ts.Stops[startIdx:]\<close> carries the running delay as an
  option in place of the pair of \<open>propDelay\<close> and \<open>propSet\<close>.

  The lemmas say what the emitted events are: a subsequence of the scheduled stops, each
  with the key and times of its stop, with the arrival the update predicts or the last
  known delay predicts.
\<close>

section \<open>Operations\<close>

definition resolve_stop_index :: "trip_schedule \<Rightarrow> stop_time_update \<Rightarrow> nat option" where
  "resolve_stop_index ts stu =
     (if stu_stop_sequence stu \<ge> 0
      then index_where (\<lambda>s. ss_stop_sequence s = stu_stop_sequence stu) (ts_stops ts)
      else if stu_stop_id stu \<noteq> []
      then index_where (\<lambda>s. ss_stop_id s = stu_stop_id stu) (ts_stops ts)
      else None)"

definition scheduled_or_zero :: "string \<Rightarrow> int \<Rightarrow> location \<Rightarrow> instant" where
  "scheduled_or_zero service_date secs loc =
     (if secs < 0 then zero_time
      else case scheduled_time service_date secs loc of Inl e \<Rightarrow> zero_time | Inr t \<Rightarrow> t)"

definition first_positive :: "int \<Rightarrow> int \<Rightarrow> int" where
  "first_positive a b = (if a > 0 then a else b)"

text \<open>The result is \<open>None\<close> where the code returns \<open>ok = false\<close>.\<close>

definition prediction_from_update ::
    "stop_time_update \<Rightarrow> trip_update \<Rightarrow> scheduled_stop \<Rightarrow> string \<Rightarrow> location \<Rightarrow>
      (instant \<times> int option) option" where
  "prediction_from_update stu tu stop service_date loc =
     (let sched = scheduled_or_zero service_date (best_secs stop) loc;
          t = first_positive (stu_arrival_time stu) (stu_departure_time stu)
      in if t > 0 then
           (let pred = unix_time t
            in Some (pred, if is_zero sched then None else Some (go_div (go_sub pred sched) second)))
         else
           (case (if stu_arrival_delay_set stu then Some (stu_arrival_delay stu)
                  else if stu_departure_delay_set stu then Some (stu_departure_delay stu)
                  else if tu_delay_set tu then Some (tu_delay_secs tu)
                  else None) of
              None \<Rightarrow> None
            | Some d \<Rightarrow>
                if is_zero sched then None else Some (go_add sched (secs_dur d), Some d)))"

text \<open>
  The first loop of \<open>resolveServiceDate\<close>: the anchor time and instant, starting from -1
  and the poll time.
\<close>

fun service_date_ref ::
    "trip_schedule \<Rightarrow> stop_time_update list \<Rightarrow> int \<Rightarrow> instant \<Rightarrow> int \<times> instant" where
  "service_date_ref ts [] ref_secs ref_instant = (ref_secs, ref_instant)"
| "service_date_ref ts (stu # stus) ref_secs ref_instant =
     (case resolve_stop_index ts stu of
        None \<Rightarrow> service_date_ref ts stus ref_secs ref_instant
      | Some idx \<Rightarrow>
          (let best = best_secs (ts_stops ts ! idx);
               t = first_positive (stu_arrival_time stu) (stu_departure_time stu)
           in if best < 0 then service_date_ref ts stus ref_secs ref_instant
              else if t > 0 then (best, unix_time t)
              else service_date_ref ts stus (if ref_secs < 0 then best else ref_secs) ref_instant))"

fun first_best_secs :: "scheduled_stop list \<Rightarrow> int" where
  "first_best_secs [] = - 1"
| "first_best_secs (s # ss) = (if best_secs s \<ge> 0 then best_secs s else first_best_secs ss)"

definition abs_duration :: "duration \<Rightarrow> duration" where
  "abs_duration d = (if d < 0 then wrap64 (- d) else d)"

fun closest_date ::
    "location \<Rightarrow> int \<Rightarrow> instant \<Rightarrow> string list \<Rightarrow> string \<Rightarrow> duration \<Rightarrow> string result" where
  "closest_date loc secs ref [] best best_diff = Inr best"
| "closest_date loc secs ref (d # ds) best best_diff =
     (case scheduled_time d secs loc of
        Inl e \<Rightarrow> Inl e
      | Inr st \<Rightarrow>
          (let diff = abs_duration (go_sub st ref)
           in if best = [] \<or> diff < best_diff then closest_date loc secs ref ds d diff
              else closest_date loc secs ref ds best best_diff))"

definition resolve_service_date ::
    "trip_update \<Rightarrow> trip_schedule \<Rightarrow> location \<Rightarrow> instant \<Rightarrow> string result" where
  "resolve_service_date tu ts loc polled_at =
     (if tu_start_date tu \<noteq> [] then
        (case parse_service_date (tu_start_date tu) of
           Inl e \<Rightarrow> Inl e
         | Inr _ \<Rightarrow> Inr (tu_start_date tu))
      else
        (let (secs0, ref) = service_date_ref ts (tu_stop_time_updates tu) (- 1) polled_at;
             secs = (if secs0 < 0 then first_best_secs (ts_stops ts) else secs0)
         in if secs < 0 then Inl (Message ''trip has no scheduled times'')
            else
              (let today = civil_date ref loc
               in case add_days today (- 1) of
                    Inl e \<Rightarrow> Inl e
                  | Inr yesterday \<Rightarrow> closest_date loc secs ref [yesterday, today] [] 0)))"

text \<open>The event every stop of the trip starts from.\<close>

definition base_event ::
    "trip_update \<Rightarrow> snapshot \<Rightarrow> schedule_version \<Rightarrow> trip_schedule \<Rightarrow> string \<Rightarrow> stop_event" where
  "base_event tu snap ver ts service_date =
     \<lparr>se_service_date = service_date, se_trip_id = tu_trip_id tu, se_start_time = tu_start_time tu,
      se_stop_sequence = 0, se_stop_id = [],
      se_route_id = (if ts_route_id ts = [] then tu_route_id tu else ts_route_id ts),
      se_direction_id = (if ts_direction_id ts < 0 then tu_direction_id tu else ts_direction_id ts),
      se_schedule_version_id = sv_id ver, se_vehicle_id = tu_vehicle_id tu,
      se_headsign = ts_headsign ts, se_scheduled_arrival = zero_time,
      se_predicted_arrival = zero_time, se_actual_arrival = zero_time, se_delay_secs = None,
      se_final = False, se_skipped = False,
      se_feed_timestamp = (if tu_timestamp tu > 0 then tu_timestamp tu else sn_feed_timestamp snap),
      se_observed_at = sn_polled_at snap\<rparr>"

definition at_stop :: "stop_event \<Rightarrow> location \<Rightarrow> scheduled_stop \<Rightarrow> stop_event" where
  "at_stop base loc stop = base
     \<lparr>se_stop_sequence := ss_stop_sequence stop, se_stop_id := ss_stop_id stop,
      se_scheduled_arrival := scheduled_or_zero (se_service_date base) (best_secs stop) loc\<rparr>"

definition canceled_events :: "stop_event \<Rightarrow> location \<Rightarrow> trip_schedule \<Rightarrow> stop_event list" where
  "canceled_events base loc ts =
     map (\<lambda>stop. (at_stop base loc stop)\<lparr>se_skipped := True\<rparr>) (ts_stops ts)"

text \<open>\<open>matches\<close>: a later update of the same stop replaces an earlier one.\<close>

definition stop_matches :: "trip_schedule \<Rightarrow> stop_time_update list \<Rightarrow> (nat \<times> stop_time_update) list" where
  "stop_matches ts stus = fold (\<lambda>stu ms. case resolve_stop_index ts stu of
      None \<Rightarrow> ms | Some idx \<Rightarrow> al_put idx stu ms) stus []"

definition start_index :: "trip_update \<Rightarrow> trip_schedule \<Rightarrow> (nat \<times> stop_time_update) list \<Rightarrow> nat" where
  "start_index tu ts ms =
     (if tu_delay_set tu \<and> ms = [] then 0
      else fold (\<lambda>idx start. if idx < start then idx else start) (al_keys ms) (length (ts_stops ts)))"

text \<open>
  One stop of the loop: the event it emits, if any, and the running delay after it.
\<close>

definition stop_step ::
    "trip_update \<Rightarrow> stop_event \<Rightarrow> location \<Rightarrow> scheduled_stop \<Rightarrow> stop_time_update option \<Rightarrow>
      int option \<Rightarrow> stop_event option \<times> int option" where
  "stop_step tu base loc stop m run =
     (let ev = at_stop base loc stop
      in case m of
        Some stu \<Rightarrow>
          (if stu_relationship stu = ''SKIPPED'' then (Some (ev\<lparr>se_skipped := True\<rparr>), run)
           else if stu_relationship stu = ''NO_DATA'' then (None, None)
           else case prediction_from_update stu tu stop (se_service_date base) loc of
               None \<Rightarrow> (None, run)
             | Some (pred, delay) \<Rightarrow>
                 (Some (ev\<lparr>se_predicted_arrival := pred, se_delay_secs := delay\<rparr>),
                  case delay of None \<Rightarrow> run | Some d \<Rightarrow> Some d))
      | None \<Rightarrow>
          (case run of
             None \<Rightarrow> (None, run)
           | Some d \<Rightarrow>
               if is_zero (se_scheduled_arrival ev) then (None, run)
               else (Some (ev\<lparr>se_predicted_arrival := go_add (se_scheduled_arrival ev) (secs_dur d),
                              se_delay_secs := Some d\<rparr>), run)))"

fun stop_events_from ::
    "trip_update \<Rightarrow> stop_event \<Rightarrow> location \<Rightarrow> (nat \<times> stop_time_update) list \<Rightarrow> nat \<Rightarrow>
      scheduled_stop list \<Rightarrow> int option \<Rightarrow> stop_event list" where
  "stop_events_from tu base loc ms i [] run = []"
| "stop_events_from tu base loc ms i (stop # stops) run =
     (case stop_step tu base loc stop (map_of ms i) run of
        (ev, run') \<Rightarrow>
          (case ev of None \<Rightarrow> [] | Some e \<Rightarrow> [e])
            @ stop_events_from tu base loc ms (Suc i) stops run')"

text \<open>\<open>None\<close> where the service date cannot be resolved, which counts as an unmatched trip.\<close>

definition expand_trip ::
    "trip_update \<Rightarrow> snapshot \<Rightarrow> schedule_version \<Rightarrow> location \<Rightarrow> trip_schedule \<Rightarrow>
      stop_event list option" where
  "expand_trip tu snap ver loc ts =
     (case resolve_service_date tu ts loc (sn_polled_at snap) of
        Inl e \<Rightarrow> None
      | Inr service_date \<Rightarrow>
          (let base = base_event tu snap ver ts service_date
           in if tu_schedule_relationship tu = ''CANCELED'' then Some (canceled_events base loc ts)
              else
                (let ms = stop_matches ts (tu_stop_time_updates tu);
                     start = start_index tu ts ms;
                     run = (if tu_delay_set tu then Some (tu_delay_secs tu) else None)
                 in Some (stop_events_from tu base loc ms start (drop start (ts_stops ts)) run))))"

section \<open>The service date\<close>

text \<open>
  The anchor of an update without start date: the scheduled seconds compared and the
  instant they are compared with.
\<close>

definition date_anchor :: "trip_update \<Rightarrow> trip_schedule \<Rightarrow> instant \<Rightarrow> int \<times> instant" where
  "date_anchor tu ts polled_at =
     (case service_date_ref ts (tu_stop_time_updates tu) (- 1) polled_at of
        (secs0, ref) \<Rightarrow> (if secs0 < 0 then first_best_secs (ts_stops ts) else secs0, ref))"

lemma abs_duration_abs: "- 9223372036854775808 < d \<Longrightarrow> d \<le> 9223372036854775807 \<Longrightarrow> abs_duration d = \<bar>d\<bar>"
  by (simp add: abs_duration_def wrap64_id)

lemma date_string_nonempty [simp]: "date_string n \<noteq> []"
  by (cases "civil_of_days n") (simp add: date_string_def format_date_def append_int_def)

lemma closest_date_two:
  assumes "scheduled_time d1 secs loc = Inr s1" and "scheduled_time d2 secs loc = Inr s2"
    and "d1 \<noteq> []" and "\<bar>s1 - ref\<bar> \<le> 9223372036854775807" and "\<bar>s2 - ref\<bar> \<le> 9223372036854775807"
  shows "closest_date loc secs ref [d1, d2] [] 0 = Inr (if \<bar>s2 - ref\<bar> < \<bar>s1 - ref\<bar> then d2 else d1)"
  using assms by (simp add: go_sub_small abs_duration_abs)

lemma resolve_service_date_absent:
  assumes absent: "tu_start_date tu = []"
    and anchor: "date_anchor tu ts polled_at = (secs, ref)"
    and secs: "0 \<le> secs" "secs \<le> 4000000000"
    and zone: "small_offsets loc"
    and day: "four_digit_day (local_day loc ref)" "four_digit_day (local_day loc ref - 1)"
    and near: "\<bar>noon_of (local_day loc ref) loc + (secs - 43200) * second - ref\<bar> \<le> 9223372036854775807"
      "\<bar>noon_of (local_day loc ref - 1) loc + (secs - 43200) * second - ref\<bar> \<le> 9223372036854775807"
  shows "resolve_service_date tu ts loc polled_at =
    Inr (date_string
      (if \<bar>noon_of (local_day loc ref) loc + (secs - 43200) * second - ref\<bar>
           < \<bar>noon_of (local_day loc ref - 1) loc + (secs - 43200) * second - ref\<bar>
       then local_day loc ref else local_day loc ref - 1))"
proof -
  let ?n = "local_day loc ref"
  obtain secs0 where r: "service_date_ref ts (tu_stop_time_updates tu) (- 1) polled_at = (secs0, ref)"
    and s: "(if secs0 < 0 then first_best_secs (ts_stops ts) else secs0) = secs"
    using anchor by (auto simp: date_anchor_def split: prod.splits)
  have today: "civil_date ref loc = date_string ?n"
    by (simp add: civil_date_def date_string_def)
  have yesterday: "add_days (date_string ?n) (- 1) = Inr (date_string (?n - 1))"
    using add_days_date_string [OF day(1), of "- 1"] by simp
  have st: "scheduled_time (date_string k) secs loc = Inr (noon_of k loc + (secs - 43200) * second)"
    if "four_digit_day k" for k
    using scheduled_time_date_string [OF that zone] secs by simp
  show ?thesis
    using secs(1) closest_date_two [OF st [OF day(2)] st [OF day(1)] date_string_nonempty near(2,1)]
    unfolding resolve_service_date_def r Let_def prod.case s today yesterday
    by (simp add: absent)
qed

section \<open>The scheduled stops of the events\<close>

text \<open>
  \<open>e\<close> is the event of \<open>stop\<close>: but for the prediction, the delay and the skip mark it is
  the base event at the stop, and a skipped stop has neither prediction nor delay.
\<close>

definition bare_event :: "stop_event \<Rightarrow> stop_event" where
  "bare_event e =
     e\<lparr>se_predicted_arrival := zero_time, se_delay_secs := None, se_skipped := False\<rparr>"

definition of_stop :: "stop_event \<Rightarrow> location \<Rightarrow> stop_event \<Rightarrow> scheduled_stop \<Rightarrow> bool" where
  "of_stop base loc e stop \<longleftrightarrow>
     bare_event e = at_stop base loc stop \<and>
     (se_skipped e \<longrightarrow> is_zero (se_predicted_arrival e) \<and> se_delay_secs e = None)"

definition bare :: "stop_event \<Rightarrow> bool" where
  "bare e \<longleftrightarrow> \<not> se_skipped e \<and> se_predicted_arrival e = zero_time \<and> se_delay_secs e = None"

lemma bare_base_event [simp]: "bare (base_event tu snap ver ts d)"
  by (simp add: bare_def base_event_def)

lemma bare_event_simps [simp]:
  "bare_event (e\<lparr>se_skipped := b\<rparr>) = bare_event e"
  "bare_event (e\<lparr>se_predicted_arrival := p\<rparr>) = bare_event e"
  "bare_event (e\<lparr>se_delay_secs := d\<rparr>) = bare_event e"
  by (simp_all add: bare_event_def)

lemma bare_at_stop: "bare base \<Longrightarrow> bare_event (at_stop base loc stop) = at_stop base loc stop"
  by (simp add: bare_event_def at_stop_def bare_def)

lemma at_stop_fields [simp]:
  "bare base \<Longrightarrow> \<not> se_skipped (at_stop base loc stop)"
  "bare base \<Longrightarrow> se_predicted_arrival (at_stop base loc stop) = zero_time"
  "bare base \<Longrightarrow> se_delay_secs (at_stop base loc stop) = None"
  "se_stop_sequence (at_stop base loc stop) = ss_stop_sequence stop"
  "se_stop_id (at_stop base loc stop) = ss_stop_id stop"
  "se_scheduled_arrival (at_stop base loc stop)
    = scheduled_or_zero (se_service_date base) (best_secs stop) loc"
  by (simp_all add: at_stop_def bare_def)

lemma stop_step_of_stop:
  assumes "stop_step tu base loc stop m run = (Some e, run')" and "bare base"
  shows "of_stop base loc e stop"
  using assms bare_at_stop [OF assms(2)]
  by (auto simp: stop_step_def of_stop_def Let_def is_zero_def split: option.splits if_splits)

lemma of_stop_fields:
  assumes "of_stop base loc e stop"
  shows "se_stop_sequence e = ss_stop_sequence stop" "se_stop_id e = ss_stop_id stop"
    "se_scheduled_arrival e = scheduled_or_zero (se_service_date base) (best_secs stop) loc"
    "se_service_date e = se_service_date base" "se_trip_id e = se_trip_id base"
    "se_start_time e = se_start_time base"
    "se_feed_timestamp e = se_feed_timestamp base" "se_final e = se_final base"
proof -
  have b: "bare_event e = at_stop base loc stop" using assms by (simp add: of_stop_def)
  show "se_stop_sequence e = ss_stop_sequence stop" "se_stop_id e = ss_stop_id stop"
    "se_scheduled_arrival e = scheduled_or_zero (se_service_date base) (best_secs stop) loc"
    "se_service_date e = se_service_date base" "se_trip_id e = se_trip_id base"
    "se_start_time e = se_start_time base"
    "se_feed_timestamp e = se_feed_timestamp base" "se_final e = se_final base"
    using arg_cong [OF b, of se_stop_sequence] arg_cong [OF b, of se_stop_id]
      arg_cong [OF b, of se_scheduled_arrival] arg_cong [OF b, of se_service_date]
      arg_cong [OF b, of se_trip_id] arg_cong [OF b, of se_start_time]
      arg_cong [OF b, of se_feed_timestamp] arg_cong [OF b, of se_final]
    by (simp_all add: bare_event_def at_stop_def)
qed

text \<open>The stops the events of a list belong to: a subsequence of the scheduled ones.\<close>

lemma stop_events_from_subseq:
  "bare base \<Longrightarrow> \<exists>ss. subseq ss stops \<and>
     list_all2 (of_stop base loc) (stop_events_from tu base loc ms i stops run) ss"
proof (induction stops arbitrary: i run)
  case Nil
  then show ?case by (intro exI [of _ "[]"]) simp
next
  case (Cons stop stops)
  obtain ev run' where st: "stop_step tu base loc stop (map_of ms i) run = (ev, run')" by force
  obtain ss where ss: "subseq ss stops"
    "list_all2 (of_stop base loc) (stop_events_from tu base loc ms (Suc i) stops run') ss"
    using Cons.IH [OF Cons.prems] by blast
  show ?case
  proof (cases ev)
    case None
    then show ?thesis using ss st by (intro exI [of _ ss]) auto
  next
    case (Some e)
    then show ?thesis
      using ss st stop_step_of_stop [of tu base loc stop "map_of ms i" run e run'] Cons.prems
      by (intro exI [of _ "stop # ss"]) auto
  qed
qed

lemma canceled_events_all: "bare base \<Longrightarrow> list_all2 (of_stop base loc) (canceled_events base loc ts) (ts_stops ts)"
  using bare_at_stop
  by (auto simp: canceled_events_def list_all2_map1 of_stop_def is_zero_def list.rel_refl)

text \<open>The stops of the events that a trip update expands to.\<close>

lemma expand_trip_subseq:
  assumes "expand_trip tu snap ver loc ts = Some evs"
  obtains d ss where "resolve_service_date tu ts loc (sn_polled_at snap) = Inr d"
    and "subseq ss (ts_stops ts)"
    and "list_all2 (of_stop (base_event tu snap ver ts d) loc) evs ss"
proof -
  obtain d where d: "resolve_service_date tu ts loc (sn_polled_at snap) = Inr d"
    using assms by (auto simp: expand_trip_def split: sum.splits)
  let ?base = "base_event tu snap ver ts d"
  have "\<exists>ss. subseq ss (ts_stops ts) \<and> list_all2 (of_stop ?base loc) evs ss"
  proof (cases "tu_schedule_relationship tu = ''CANCELED''")
    case True
    then have "evs = canceled_events ?base loc ts"
      using assms d by (simp add: expand_trip_def Let_def)
    then show ?thesis using canceled_events_all [of ?base loc ts] by auto
  next
    case False
    then obtain ms start run where
      "evs = stop_events_from tu ?base loc ms start (drop start (ts_stops ts)) run"
      using assms d by (auto simp: expand_trip_def Let_def)
    moreover obtain ss where "subseq ss (drop start (ts_stops ts))"
      "list_all2 (of_stop ?base loc)
        (stop_events_from tu ?base loc ms start (drop start (ts_stops ts)) run) ss"
      using stop_events_from_subseq [OF bare_base_event] by blast
    ultimately show ?thesis
      by (meson subseq_order.order_trans suffix_drop suffix_imp_subseq)
  qed
  with d that show ?thesis by blast
qed

lemma of_stops_sequences:
  "list_all2 (of_stop base loc) evs ss \<Longrightarrow> map se_stop_sequence evs = map ss_stop_sequence ss"
  by (induction rule: list_all2_induct) (auto dest: of_stop_fields)

lemma subseq_set: "subseq xs ys \<Longrightarrow> set xs \<subseteq> set ys"
  by (induction rule: list_emb.induct) auto

lemma sorted_wrt_subseq: "subseq xs ys \<Longrightarrow> sorted_wrt P ys \<Longrightarrow> sorted_wrt P xs"
proof (induction rule: list_emb.induct)
  case (list_emb_Cons2 x y xs ys)
  with subseq_set [of xs ys] show ?case by auto
qed auto

lemma list_all2_mem:
  "list_all2 R xs ys \<Longrightarrow> x \<in> set xs \<Longrightarrow> \<exists>y \<in> set ys. R x y"
  by (induction rule: list_all2_induct) auto

lemma expand_trip_sequences:
  assumes "expand_trip tu snap ver loc ts = Some evs" and "schedule_wf ts"
  shows "sorted_wrt (<) (map se_stop_sequence evs)"
proof -
  obtain d ss where ss: "subseq ss (ts_stops ts)"
    "list_all2 (of_stop (base_event tu snap ver ts d) loc) evs ss"
    by (rule expand_trip_subseq [OF assms(1)])
  have "sorted_wrt (<) (map ss_stop_sequence ss)"
    using subseq_map [OF ss(1), of ss_stop_sequence] assms(2)
    unfolding schedule_wf_def by (rule sorted_wrt_subseq)
  then show ?thesis by (simp only: of_stops_sequences [OF ss(2)])
qed


lemma expand_trip_event:
  assumes "expand_trip tu snap ver loc ts = Some evs" and "e \<in> set evs"
  obtains d stop where "resolve_service_date tu ts loc (sn_polled_at snap) = Inr d"
    and "stop \<in> set (ts_stops ts)" and "of_stop (base_event tu snap ver ts d) loc e stop"
proof -
  obtain d ss where d: "resolve_service_date tu ts loc (sn_polled_at snap) = Inr d"
    and ss: "subseq ss (ts_stops ts)" "list_all2 (of_stop (base_event tu snap ver ts d) loc) evs ss"
    by (rule expand_trip_subseq [OF assms(1)])
  obtain stop where stop: "stop \<in> set ss" "of_stop (base_event tu snap ver ts d) loc e stop"
    using list_all2_mem [OF ss(2) assms(2)] by auto
  then have "stop \<in> set (ts_stops ts)" using subseq_set [OF ss(1)] by auto
  from that [OF d this stop(2)] show ?thesis .
qed

section \<open>Delays\<close>

text \<open>The bounds under which no delay computation overflows.\<close>

definition bounded_update :: "trip_update \<Rightarrow> bool" where
  "bounded_update tu \<longleftrightarrow> in_range 32 (tu_delay_secs tu) \<and>
     list_all (\<lambda>stu. in_range 32 (stu_arrival_delay stu) \<and> in_range 32 (stu_departure_delay stu))
       (tu_stop_time_updates tu)"

definition bounded_schedule :: "trip_schedule \<Rightarrow> bool" where
  "bounded_schedule ts \<longleftrightarrow> list_all (\<lambda>s. best_secs s \<le> 2147483647) (ts_stops ts)"

text \<open>The delay of an event is its predicted minus its scheduled arrival, in whole seconds.\<close>

definition delay_ok :: "stop_event \<Rightarrow> bool" where
  "delay_ok e \<longleftrightarrow> (case se_delay_secs e of
     None \<Rightarrow> is_zero (se_predicted_arrival e) \<or> is_zero (se_scheduled_arrival e)
   | Some d \<Rightarrow> \<not> is_zero (se_scheduled_arrival e) \<and> \<not> se_skipped e \<and>
       d = go_div (go_sub (se_predicted_arrival e) (se_scheduled_arrival e)) second)"


lemma delay_round_trip:
  assumes "\<bar>sched\<bar> \<le> 4611686018427387904 * second" and "\<bar>d\<bar> \<le> 9223372036"
  shows "go_div (go_sub (go_add sched (secs_dur d)) sched) second = d"
proof -
  have "go_add sched (secs_dur d) = sched + d * second"
    using assms by (subst go_add_sane) (auto simp: secs_dur_small abs_le_iff second_def)
  moreover have "go_sub (sched + d * second) sched = d * second"
    using assms(2) by (subst go_sub_small) (auto simp: second_def abs_le_iff)
  ultimately show ?thesis by (simp add: go_div_exact)
qed

lemma go_sub_secs_bound: "\<bar>go_div (go_sub t u) second\<bar> \<le> 9223372036"
proof -
  define x where "x = go_sub t u"
  have x: "\<bar>x\<bar> \<le> 9223372036854775808" by (auto simp: x_def go_sub_def clamp_def abs_le_iff)
  have "\<bar>x\<bar> div second \<le> 9223372036854775808 div second"
    using x by (intro zdiv_mono1) simp_all
  then have "\<bar>x\<bar> div second \<le> 9223372036" by (simp add: second_def)
  moreover have "\<bar>go_div x second\<bar> \<le> \<bar>x\<bar> div second"
    by (cases "x = 0") (simp_all add: go_div_def abs_mult abs_sgn_eq second_def pos_imp_zdiv_nonneg_iff)
  ultimately show ?thesis by (simp add: x_def)
qed

lemma scheduled_or_zero_sane:
  assumes "small_offsets loc" and "secs \<le> 2147483647"
  shows "\<bar>scheduled_or_zero sd secs loc\<bar> \<le> 4611686018427387904 * second"
proof (cases "scheduled_time sd secs loc")
  case (Inl e)
  then show ?thesis by (simp add: scheduled_or_zero_def zero_time_def second_def)
next
  case (Inr t)
  show ?thesis
  proof (cases "secs < 0")
    case True
    then show ?thesis by (simp add: scheduled_or_zero_def zero_time_def second_def)
  next
    case False
    then have "\<bar>t\<bar> \<le> 500000000000 * second"
      using assms(2) by (intro scheduled_time_sane [OF Inr assms(1)]) simp
    with False Inr show ?thesis by (simp add: scheduled_or_zero_def second_def)
  qed
qed

text \<open>The delays that the loop carries along.\<close>

definition run_ok :: "int option \<Rightarrow> bool" where
  "run_ok r \<longleftrightarrow> (case r of None \<Rightarrow> True | Some d \<Rightarrow> \<bar>d\<bar> \<le> 9223372036)"

lemma prediction_delay:
  assumes "prediction_from_update stu tu stop sd loc = Some (pred, delay)"
    and "small_offsets loc" and "best_secs stop \<le> 2147483647"
    and "in_range 32 (stu_arrival_delay stu)" "in_range 32 (stu_departure_delay stu)"
      "in_range 32 (tu_delay_secs tu)"
  shows "run_ok delay \<and> (case delay of
     None \<Rightarrow> is_zero (scheduled_or_zero sd (best_secs stop) loc)
   | Some d \<Rightarrow> \<not> is_zero (scheduled_or_zero sd (best_secs stop) loc) \<and>
       d = go_div (go_sub pred (scheduled_or_zero sd (best_secs stop) loc)) second)"
proof -
  have i32: "\<bar>n\<bar> \<le> 9223372036" if "in_range 32 n" for n
    using that by (auto simp: in_range_def abs_le_iff)
  note rt = delay_round_trip [OF scheduled_or_zero_sane [OF assms(2,3)], symmetric]
  show ?thesis
    using assms(1) i32 [OF assms(4)] i32 [OF assms(5)] i32 [OF assms(6)] go_sub_secs_bound rt
    by (auto simp: prediction_from_update_def Let_def run_ok_def split: if_splits option.splits)
qed

lemma stop_step_delay:
  assumes "stop_step tu base loc stop m run = (ev, run')" and "bare base" and "run_ok run"
    and "small_offsets loc" and "best_secs stop \<le> 2147483647" and "in_range 32 (tu_delay_secs tu)"
    and "\<And>stu. m = Some stu \<Longrightarrow> in_range 32 (stu_arrival_delay stu) \<and> in_range 32 (stu_departure_delay stu)"
  shows "run_ok run' \<and> (\<forall>e. ev = Some e \<longrightarrow> delay_ok e)"
proof (cases m)
  case None
  have "d = go_div (go_sub (go_add (scheduled_or_zero sd (best_secs stop) loc) (secs_dur d))
      (scheduled_or_zero sd (best_secs stop) loc)) second" if "run = Some d" for d sd
    using delay_round_trip [OF scheduled_or_zero_sane [OF assms(4,5)], symmetric] that assms(3)
    by (simp add: run_ok_def)
  then show ?thesis
    using assms(1-3) None by (auto simp: stop_step_def delay_ok_def Let_def split: option.splits if_splits)
next
  case (Some stu)
  note m = this
  show ?thesis
  proof (cases "prediction_from_update stu tu stop (se_service_date base) loc")
    case None
    then show ?thesis
      using assms(1-3) m
      by (auto simp: stop_step_def delay_ok_def Let_def is_zero_def run_ok_def split: if_splits)
  next
    case (Some pd)
    obtain pred delay where p: "pd = (pred, delay)" by force
    note pd = prediction_delay [OF Some [unfolded p] assms(4,5) _ _ assms(6)]
    show ?thesis
      using assms(1-3) m Some p pd assms(7) [OF m]
      by (cases delay)
        (auto simp: stop_step_def delay_ok_def Let_def is_zero_def run_ok_def split: if_splits)
  qed
qed

lemma stop_events_from_delays:
  assumes "bare base" "small_offsets loc" "in_range 32 (tu_delay_secs tu)"
    and "\<And>i stu. map_of ms i = Some stu \<Longrightarrow>
      in_range 32 (stu_arrival_delay stu) \<and> in_range 32 (stu_departure_delay stu)"
  shows "run_ok run \<Longrightarrow> \<forall>s \<in> set stops. best_secs s \<le> 2147483647 \<Longrightarrow>
    \<forall>e \<in> set (stop_events_from tu base loc ms i stops run). delay_ok e"
proof (induction stops arbitrary: i run)
  case (Cons stop stops)
  obtain ev run' where st: "stop_step tu base loc stop (map_of ms i) run = (ev, run')" by force
  have "run_ok run' \<and> (\<forall>e. ev = Some e \<longrightarrow> delay_ok e)"
    using Cons.prems assms(4)
    by (intro stop_step_delay [OF st assms(1) _ assms(2) _ assms(3)]) auto
  with Cons show ?case by (auto simp: st split: option.splits)
qed simp

lemma stop_matches_updates:
  "map_of (stop_matches ts stus) i = Some stu \<Longrightarrow> stu \<in> set stus"
proof -
  define P where "P = (\<lambda>ms :: (nat \<times> stop_time_update) list. \<forall>i stu. map_of ms i = Some stu \<longrightarrow> stu \<in> set stus)"
  have "P (stop_matches ts stus)"
    unfolding stop_matches_def by (rule fold_inv) (auto simp: P_def split: option.splits if_splits)
  then show "map_of (stop_matches ts stus) i = Some stu \<Longrightarrow> stu \<in> set stus"
    by (simp add: P_def)
qed

lemma expand_trip_delay_ok:
  assumes "expand_trip tu snap ver loc ts = Some evs" and "e \<in> set evs"
    and "small_offsets loc" "bounded_update tu" "bounded_schedule ts"
  shows "delay_ok e"
proof -
  obtain d where d: "resolve_service_date tu ts loc (sn_polled_at snap) = Inr d"
    using assms(1) by (auto simp: expand_trip_def split: sum.splits)
  let ?base = "base_event tu snap ver ts d"
  show ?thesis
  proof (cases "tu_schedule_relationship tu = ''CANCELED''")
    case True
    then have "evs = canceled_events ?base loc ts"
      using assms(1) d by (simp add: expand_trip_def Let_def)
    with assms(2) show ?thesis
      by (auto simp: canceled_events_def delay_ok_def is_zero_def)
  next
    case False
    define ms where "ms = stop_matches ts (tu_stop_time_updates tu)"
    define run where "run = (if tu_delay_set tu then Some (tu_delay_secs tu) else None)"
    have tu: "in_range 32 (tu_delay_secs tu)" and run: "run_ok run"
      using assms(4) by (auto simp: bounded_update_def run_def run_ok_def in_range_def)
    have ms: "in_range 32 (stu_arrival_delay stu) \<and> in_range 32 (stu_departure_delay stu)"
      if "map_of ms i = Some stu" for i stu
      using that stop_matches_updates assms(4)
      by (force simp: ms_def bounded_update_def list_all_iff)
    obtain start where
      evs: "evs = stop_events_from tu ?base loc ms start (drop start (ts_stops ts)) run"
      using assms(1) d False by (auto simp: expand_trip_def Let_def ms_def run_def)
    have "\<forall>s \<in> set (drop start (ts_stops ts)). best_secs s \<le> 2147483647"
      using assms(5) by (auto simp: bounded_schedule_def list_all_iff dest: in_set_dropD)
    then have "\<forall>e \<in> set evs. delay_ok e"
      unfolding evs by (intro stop_events_from_delays [OF bare_base_event assms(3) tu ms run])
    then show ?thesis using assms(2) by blast
  qed
qed


section \<open>Propagation\<close>

text \<open>
  What an update does to the running delay: nothing, stop it, or replace it. The delay
  that holds before a stop is the effect of the last stop before it that has one, and the
  trip-level delay where none has.
\<close>

definition delay_effect ::
    "trip_update \<Rightarrow> stop_event \<Rightarrow> location \<Rightarrow> scheduled_stop \<Rightarrow> stop_time_update option \<Rightarrow>
      int option option" where
  "delay_effect tu base loc stop m =
     (case m of
        None \<Rightarrow> None
      | Some stu \<Rightarrow>
          (if stu_relationship stu = ''SKIPPED'' then None
           else if stu_relationship stu = ''NO_DATA'' then Some None
           else case prediction_from_update stu tu stop (se_service_date base) loc of
               None \<Rightarrow> None
             | Some (pred, delay) \<Rightarrow> map_option Some delay))"

fun last_effect :: "'a option list \<Rightarrow> 'a \<Rightarrow> 'a" where
  "last_effect [] d = d"
| "last_effect (e # es) d = last_effect es (case e of None \<Rightarrow> d | Some d' \<Rightarrow> d')"

definition delay_before ::
    "trip_update \<Rightarrow> stop_event \<Rightarrow> location \<Rightarrow> (nat \<times> stop_time_update) list \<Rightarrow>
      scheduled_stop list \<Rightarrow> nat \<Rightarrow> int option \<Rightarrow> nat \<Rightarrow> int option" where
  "delay_before tu base loc ms stops start run i =
     last_effect (map (\<lambda>j. delay_effect tu base loc (stops ! j) (map_of ms j)) [start..<i]) run"

lemma last_effect_spec:
  "last_effect es d = (case filter (\<lambda>e. e \<noteq> None) (rev es) of [] \<Rightarrow> d | e # _ \<Rightarrow> the e)"
proof (induction es arbitrary: d)
  case (Cons e es)
  then show ?case by (cases "filter (\<lambda>e. e \<noteq> None) (rev es)") (auto split: option.splits)
qed simp

lemma stop_step_run:
  "snd (stop_step tu base loc stop m run) =
     (case delay_effect tu base loc stop m of None \<Rightarrow> run | Some r \<Rightarrow> r)"
  by (auto simp: stop_step_def delay_effect_def Let_def split: option.splits)

definition list_of_option :: "'a option \<Rightarrow> 'a list" where
  "list_of_option x = (case x of None \<Rightarrow> [] | Some y \<Rightarrow> [y])"

lemma stop_events_from_spec:
  "stop_events_from tu base loc ms start (drop start stops) run =
     concat (map (\<lambda>i. list_of_option (fst (stop_step tu base loc (stops ! i) (map_of ms i)
       (delay_before tu base loc ms stops start run i)))) [start..<length stops])"
proof (induction "length stops - start" arbitrary: start run)
  case 0
  then show ?case by simp
next
  case (Suc n)
  then have lt: "start < length stops" by simp
  obtain ev run' where st: "stop_step tu base loc (stops ! start) (map_of ms start) run = (ev, run')"
    by force
  have run': "run' = (case delay_effect tu base loc (stops ! start) (map_of ms start) of
      None \<Rightarrow> run | Some r \<Rightarrow> r)"
    using stop_step_run [of tu base loc "stops ! start" "map_of ms start" run] st by simp
  have before: "delay_before tu base loc ms stops (Suc start) run' i
      = delay_before tu base loc ms stops start run i" if "Suc start \<le> i" for i
    using that by (simp add: delay_before_def run' upt_conv_Cons)
  have "stop_events_from tu base loc ms (Suc start) (drop (Suc start) stops) run' =
     concat (map (\<lambda>i. list_of_option (fst (stop_step tu base loc (stops ! i) (map_of ms i)
       (delay_before tu base loc ms stops (Suc start) run' i)))) [Suc start..<length stops])"
    using Suc by simp
  also have "\<dots> = concat (map (\<lambda>i. list_of_option (fst (stop_step tu base loc (stops ! i) (map_of ms i)
       (delay_before tu base loc ms stops start run i)))) [Suc start..<length stops])"
    by (intro arg_cong [where f = concat] map_cong refl) (simp add: before)
  finally show ?case
    using lt st
    by (simp add: Cons_nth_drop_Suc [symmetric] upt_conv_Cons list_of_option_def delay_before_def [where i = start])
qed

lemma fold_min:
  "fold (\<lambda>(k :: nat) m. if k < m then k else m) ks n = Min (insert n (set ks))"
proof (induction ks arbitrary: n)
  case (Cons k ks)
  then show ?case by (cases "ks = []") (auto simp: min_def Min_insert2 insert_commute)
qed simp

lemma start_index_min:
  "start_index tu ts ms =
     (if tu_delay_set tu \<and> ms = [] then 0 else Min (insert (length (ts_stops ts)) (set (al_keys ms))))"
  by (simp add: start_index_def fold_min)


section \<open>The nearest service day\<close>

text \<open>The scheduled instant of a day and seconds after its origin, in nanoseconds.\<close>

definition slot :: "location \<Rightarrow> int \<Rightarrow> int \<Rightarrow> instant" where
  "slot loc n secs = noon_of n loc + (secs - 43200) * second"

text \<open>Consecutive service days are between 23 and 25 hours apart.\<close>

definition regular_noon :: "location \<Rightarrow> int \<Rightarrow> bool" where
  "regular_noon loc n \<longleftrightarrow> 82800 * second \<le> noon_of n loc - noon_of (n - 1) loc \<and>
     noon_of n loc - noon_of (n - 1) loc \<le> 90000 * second"

lemma slot_gap:
  assumes "regular_noon loc n"
  shows "82800 * second \<le> slot loc n secs - slot loc (n - 1) secs"
    and "slot loc n secs - slot loc (n - 1) secs \<le> 90000 * second"
  using assms by (simp_all add: slot_def regular_noon_def)

lemma resolve_nearest:
  assumes "tu_start_date tu = []" and "date_anchor tu ts polled_at = (secs, ref)"
    and "0 \<le> secs" "secs \<le> 4000000000" and "small_offsets loc"
    and "four_digit_day (local_day loc ref)" "four_digit_day (local_day loc ref - 1)"
    and "regular_noon loc (local_day loc ref)"
    and "\<bar>slot loc (local_day loc ref) secs - ref\<bar> \<le> 180000 * second"
  shows "resolve_service_date tu ts loc polled_at = Inr (date_string
    (if \<bar>slot loc (local_day loc ref) secs - ref\<bar> < \<bar>slot loc (local_day loc ref - 1) secs - ref\<bar>
     then local_day loc ref else local_day loc ref - 1))"
proof -
  have "\<bar>slot loc (local_day loc ref) secs - ref\<bar> \<le> 9223372036854775807"
    "\<bar>slot loc (local_day loc ref - 1) secs - ref\<bar> \<le> 9223372036854775807"
    using assms(9) slot_gap [OF assms(8), of secs] by (auto simp: second_def abs_le_iff)
  then show ?thesis
    using resolve_service_date_absent [OF assms(1-7)] by (simp add: slot_def)
qed

section \<open>Samples\<close>

definition sample_update :: "int \<Rightarrow> string \<Rightarrow> int \<Rightarrow> stop_time_update" where
  "sample_update sequence rel arrival =
     \<lparr>stu_stop_sequence = sequence, stu_stop_id = [], stu_arrival_time = arrival,
      stu_arrival_delay = 0, stu_arrival_delay_set = False, stu_departure_time = 0,
      stu_departure_delay = 0, stu_departure_delay_set = False, stu_relationship = rel\<rparr>"

definition sample_trip :: "string \<Rightarrow> string \<Rightarrow> stop_time_update list \<Rightarrow> trip_update" where
  "sample_trip start_date rel stus =
     \<lparr>tu_trip_id = ''T1'', tu_route_id = ''R'', tu_direction_id = 0, tu_start_date = start_date,
      tu_start_time = [], tu_schedule_relationship = rel, tu_vehicle_id = ''V'', tu_timestamp = 7,
      tu_delay_secs = 0, tu_delay_set = False, tu_stop_time_updates = stus\<rparr>"

definition sample_stop :: "int \<Rightarrow> int \<Rightarrow> scheduled_stop" where
  "sample_stop sequence secs =
     \<lparr>ss_stop_sequence = sequence, ss_stop_id = ''S'', ss_arrival_secs = secs,
      ss_departure_secs = secs\<rparr>"

definition sample_schedule :: "scheduled_stop list \<Rightarrow> trip_schedule" where
  "sample_schedule stops =
     \<lparr>ts_trip_id = ''T1'', ts_route_id = ''R'', ts_service_id = ''WK'', ts_direction_id = 0,
      ts_headsign = ''Downtown'', ts_stops = stops\<rparr>"

definition sample_snapshot :: "trip_update list \<Rightarrow> snapshot" where
  "sample_snapshot tus =
     \<lparr>sn_feed = feed_trip_updates, sn_polled_at = unix_time 1785585600, sn_feed_timestamp = 1785585600,
      sn_raw_sha256 = [], sn_raw_path = [], sn_trip_updates = tus, sn_vehicles = []\<rparr>"

definition sample_version :: schedule_version where
  "sample_version =
     \<lparr>sv_id = 1, sv_sha256 = ''aa'', sv_feed_version = [], sv_agency_tz = ''UTC'', sv_fetched_at = 0,
      sv_loaded_at = 0, sv_active = True\<rparr>"

text \<open>
  A trip with stops at 10:00, 10:05, 10:10 and 10:15 UTC on 1 August 2026, of which the
  second is predicted one minute late and the third skipped.
\<close>

definition sample_stops :: "scheduled_stop list" where
  "sample_stops = [sample_stop 1 36000, sample_stop 2 36300, sample_stop 3 36600, sample_stop 4 36900]"

definition sample_late :: trip_update where
  "sample_late = sample_trip ''20260801'' ''SCHEDULED''
     [sample_update 2 ''SCHEDULED'' 1785578760, sample_update 3 ''SKIPPED'' 0]"

definition sample_events :: "stop_event list" where
  "sample_events = the (expand_trip sample_late (sample_snapshot [sample_late]) sample_version utc
     (sample_schedule sample_stops))"

section \<open>Properties\<close>

text \<open>
  The events of a trip update belong to stops of the trip's schedule. They come in
  strictly ascending stop order, so that their natural keys are distinct, and each carries
  the identity of its stop, the trip of the update and no final mark.
\<close>

theorem expand_trip_keys:
  assumes "expand_trip tu snap ver loc ts = Some evs" and "schedule_wf ts"
  shows "sorted_wrt (<) (map se_stop_sequence evs) \<and> distinct (map event_key_of evs) \<and>
    (\<forall>e \<in> set evs. se_trip_id e = tu_trip_id tu \<and> se_start_time e = tu_start_time tu \<and> \<not> se_final e \<and>
      (\<exists>stop \<in> set (ts_stops ts). se_stop_sequence e = ss_stop_sequence stop \<and> se_stop_id e = ss_stop_id stop))"
proof -
  have sq: "sorted_wrt (<) (map se_stop_sequence evs)" by (rule expand_trip_sequences [OF assms])
  then have "distinct (map se_stop_sequence evs)" by (simp add: strict_sorted_iff)
  then have "distinct (map ek_stop_sequence (map event_key_of evs))"
    by (simp add: comp_def event_key_of_def)
  then have "distinct (map event_key_of evs)" unfolding distinct_map [of ek_stop_sequence] ..
  moreover have "se_trip_id e = tu_trip_id tu \<and> se_start_time e = tu_start_time tu \<and> \<not> se_final e \<and>
      (\<exists>stop \<in> set (ts_stops ts). se_stop_sequence e = ss_stop_sequence stop \<and> se_stop_id e = ss_stop_id stop)"
    if e: "e \<in> set evs" for e
  proof -
    obtain d stop where stop: "stop \<in> set (ts_stops ts)"
      and of: "of_stop (base_event tu snap ver ts d) loc e stop"
      by (rule expand_trip_event [OF assms(1) e])
    then show ?thesis using of_stop_fields [OF of] by (auto simp: base_event_def)
  qed
  ultimately show ?thesis using sq by blast
qed



text \<open>
  C23: the propagation rule. Events start at the first stop the feed says anything about, or
  at the first stop when the trip only carries a delay of its own, and the event of every
  later stop is a function of its own update and of the last delay that an earlier update
  set: a stop without update is predicted by that delay, a \<open>NO_DATA\<close> stop ends it, a
  skipped one does not.
\<close>

theorem expand_trip_propagation:
  fixes ver :: schedule_version
  assumes "resolve_service_date tu ts loc (sn_polled_at snap) = Inr d"
    and "tu_schedule_relationship tu \<noteq> ''CANCELED''"
  defines "base \<equiv> base_event tu snap ver ts d"
    and "ms \<equiv> stop_matches ts (tu_stop_time_updates tu)"
    and "run \<equiv> if tu_delay_set tu then Some (tu_delay_secs tu) else None"
  shows "\<exists>start. expand_trip tu snap ver loc ts = Some (concat (map (\<lambda>i.
        list_of_option (fst (stop_step tu base loc (ts_stops ts ! i) (map_of ms i)
          (delay_before tu base loc ms (ts_stops ts) start run i)))) [start..<length (ts_stops ts)])) \<and>
      start = (if tu_delay_set tu \<and> ms = [] then 0
               else Min (insert (length (ts_stops ts)) (set (al_keys ms))))"
  using assms(1,2) stop_events_from_spec [of tu base loc ms "start_index tu ts ms" "ts_stops ts" run]
  by (intro exI [of _ "start_index tu ts ms"])
    (simp add: expand_trip_def Let_def base_def ms_def run_def start_index_min)

theorem expand_trip_propagation_witness:
  "\<exists>start. sample_events = concat (map (\<lambda>i.
        list_of_option (fst (stop_step sample_late (base_event sample_late (sample_snapshot [sample_late])
            sample_version (sample_schedule sample_stops) ''20260801'') utc (sample_stops ! i)
          (map_of (stop_matches (sample_schedule sample_stops) (tu_stop_time_updates sample_late)) i)
          (delay_before sample_late (base_event sample_late (sample_snapshot [sample_late])
            sample_version (sample_schedule sample_stops) ''20260801'') utc
            (stop_matches (sample_schedule sample_stops) (tu_stop_time_updates sample_late))
            sample_stops start None i)))) [start..<4]) \<and>
     map se_predicted_arrival sample_events = [unix_time 1785578760, zero_time, unix_time 1785579360]"
proof -
  have res: "resolve_service_date sample_late (sample_schedule sample_stops) utc
      (sn_polled_at (sample_snapshot [sample_late])) = Inr ''20260801''"
    and rel: "tu_schedule_relationship sample_late \<noteq> ''CANCELED''" by code_simp+
  have stops: "ts_stops (sample_schedule sample_stops) = sample_stops" "length sample_stops = 4"
    by (simp_all add: sample_schedule_def sample_stops_def)
  have delay: "\<not> tu_delay_set sample_late" by code_simp
  have "map se_predicted_arrival sample_events = [unix_time 1785578760, zero_time, unix_time 1785579360]"
    by code_simp
  with expand_trip_propagation [OF res rel, of sample_version] show ?thesis
    by (auto simp: sample_events_def stops delay)
qed

text \<open>
  A canceled trip yields one event per scheduled stop, all of them skipped, with the
  scheduled time and without prediction or delay.
\<close>

theorem expand_trip_canceled:
  assumes "resolve_service_date tu ts loc (sn_polled_at snap) = Inr d"
    and "tu_schedule_relationship tu = ''CANCELED''"
  shows "\<exists>evs. expand_trip tu snap ver loc ts = Some evs \<and>
    map se_stop_sequence evs = map ss_stop_sequence (ts_stops ts) \<and>
    map se_scheduled_arrival evs = map (\<lambda>s. scheduled_or_zero d (best_secs s) loc) (ts_stops ts) \<and>
    list_all (\<lambda>e. se_skipped e \<and> is_zero (se_predicted_arrival e) \<and> se_delay_secs e = None) evs"
proof -
  have sd: "se_service_date (base_event tu snap ver ts d) = d" by (simp add: base_event_def)
  show ?thesis
    using assms
    by (auto simp: expand_trip_def Let_def canceled_events_def list_all_iff is_zero_def sd)
qed

theorem expand_trip_canceled_witness:
  "map se_skipped (the (expand_trip (sample_trip ''20260801'' ''CANCELED'' []) (sample_snapshot [])
     sample_version utc (sample_schedule sample_stops))) = [True, True, True, True]"
proof -
  let ?tu = "sample_trip ''20260801'' ''CANCELED'' []"
  have "resolve_service_date ?tu (sample_schedule sample_stops) utc (sn_polled_at (sample_snapshot []))
      = Inr ''20260801''" "tu_schedule_relationship ?tu = ''CANCELED''" by code_simp+
  from expand_trip_canceled [OF this, of sample_version] obtain evs where evs:
    "expand_trip ?tu (sample_snapshot []) sample_version utc (sample_schedule sample_stops) = Some evs"
    "map se_stop_sequence evs = map ss_stop_sequence (ts_stops (sample_schedule sample_stops))"
    "\<forall>e \<in> set evs. se_skipped e"
    by (auto simp: list_all_iff)
  have "length (ts_stops (sample_schedule sample_stops)) = 4" by code_simp
  then have "length evs = 4" using arg_cong [OF evs(2), of length] by simp
  then have "map se_skipped evs = replicate 4 True"
    using evs(3) by (intro replicate_eqI) auto
  then show ?thesis by (simp add: evs(1) numeral_eq_Suc)
qed


definition sample_anchor :: "int \<Rightarrow> trip_update" where
  "sample_anchor t = sample_trip [] ''SCHEDULED'' [sample_update 1 ''SCHEDULED'' t]"


text \<open>
  Yesterday and today are the only candidates. A prediction that falls before midnight
  for a trip scheduled after it, as when the trip runs early, resolves to the day before,
  a whole day off.
\<close>

theorem service_date_early:
  assumes "tu_start_date tu = []" and "date_anchor tu ts polled_at = (secs, ref)"
    and "0 \<le> secs" "secs \<le> 4000000000" and "small_offsets loc"
    and "four_digit_day (n - 2)" "four_digit_day (n - 1)"
    and "regular_noon loc n" "regular_noon loc (n - 1)"
    and "local_day loc ref = n - 1" and "\<bar>slot loc n secs - ref\<bar> < 41400 * second"
  shows "resolve_service_date tu ts loc polled_at = Inr (date_string (n - 1))"
proof -
  have "\<bar>slot loc (n - 1) secs - ref\<bar> < \<bar>slot loc (n - 2) secs - ref\<bar>"
    and "\<bar>slot loc (n - 1) secs - ref\<bar> \<le> 180000 * second"
    using slot_gap [OF assms(8), of secs] slot_gap [OF assms(9), of secs] assms(11)
    by (simp_all add: second_def abs_if split: if_splits)
  then show ?thesis using resolve_nearest [OF assms(1-5)] assms(6,7,9,10) by simp
qed


theorem service_date_early_witness:
  "resolve_service_date (sample_anchor 1785542100) (sample_schedule [sample_stop 1 300]) utc 0
     = Inr ''20260731''"
proof -
  let ?tu = "sample_anchor 1785542100" and ?ts = "sample_schedule [sample_stop 1 300]"
  have "resolve_service_date ?tu ?ts utc 0 = Inr (date_string (739828 - 1))"
  proof (rule service_date_early)
    show "date_anchor ?tu ?ts 0 = (300, unix_time 1785542100)" by code_simp
  qed code_simp+
  moreover have "date_string (739828 - 1) = ''20260731''" by code_simp
  ultimately show ?thesis by simp
qed

end
