(* ===== verification/Trip_Cache.thy ===== *)
theory Trip_Cache
  imports Domain_Types
begin

text \<open>
  \<open>internal/reconcile/cache.go\<close>: the bounded cache of schedule lookups, one schedule
  version at a time, with \<open>None\<close> entries for trips the schedule does not know.

  The entry Go evicts is an arbitrary one, the first of a map iteration. The record carries
  the sequence of these choices, so that a statement about every record is a statement
  about every choice.
\<close>

record trip_cache =
  tc_max :: int
  tc_version :: int
  tc_entries :: "(string \<times> trip_schedule option) list"
  tc_choices :: "nat list"

definition trip_cache_max :: int where
  "trip_cache_max = 20000"

definition new_trip_cache :: "int \<Rightarrow> nat list \<Rightarrow> trip_cache" where
  "new_trip_cache n choices = \<lparr>tc_max = n, tc_version = 0, tc_entries = [], tc_choices = choices\<rparr>"

definition cache_set_version :: "int \<Rightarrow> trip_cache \<Rightarrow> trip_cache" where
  "cache_set_version v c = (if tc_version c \<noteq> v then c\<lparr>tc_version := v, tc_entries := []\<rparr> else c)"

text \<open>\<open>Some None\<close> is a cached negative entry, \<open>None\<close> a miss.\<close>

definition cache_get :: "int \<Rightarrow> string \<Rightarrow> trip_cache \<Rightarrow> trip_schedule option option" where
  "cache_get version trip_id c =
     (if tc_version c \<noteq> version then None else map_of (tc_entries c) trip_id)"

definition evict_one :: "trip_cache \<Rightarrow> trip_cache" where
  "evict_one c =
     (if tc_entries c = [] then c
      else let i = (case tc_choices c of [] \<Rightarrow> 0 | n # _ \<Rightarrow> n mod length (tc_entries c))
           in c\<lparr>tc_entries := al_del (fst (tc_entries c ! i)) (tc_entries c),
                tc_choices := tl (tc_choices c)\<rparr>)"

definition cache_put :: "int \<Rightarrow> string \<Rightarrow> trip_schedule option \<Rightarrow> trip_cache \<Rightarrow> trip_cache" where
  "cache_put version trip_id ts c =
     (if tc_version c \<noteq> version then c
      else let c' = (if map_of (tc_entries c) trip_id = None \<and> int (length (tc_entries c)) \<ge> tc_max c
                     then evict_one c else c)
           in c'\<lparr>tc_entries := al_put trip_id ts (tc_entries c')\<rparr>)"

section \<open>The bound\<close>

definition cache_bounded :: "trip_cache \<Rightarrow> bool" where
  "cache_bounded c \<longleftrightarrow> al_wf (tc_entries c) \<and> int (length (tc_entries c)) \<le> max 1 (tc_max c)"

lemma evict_one_fields [simp]:
  "tc_max (evict_one c) = tc_max c" "tc_version (evict_one c) = tc_version c"
  by (simp_all add: evict_one_def Let_def)

lemma evict_one_shrinks:
  assumes "tc_entries c \<noteq> []"
  shows "length (tc_entries (evict_one c)) < length (tc_entries c)"
proof -
  have "fst (tc_entries c ! i) \<in> fst ` set (tc_entries c)" if "i < length (tc_entries c)" for i
    using that by (intro imageI nth_mem)
  with assms show ?thesis
    by (simp add: evict_one_def Let_def length_del_present split: list.splits)
qed

lemma evict_one_wf: "al_wf (tc_entries c) \<Longrightarrow> al_wf (tc_entries (evict_one c))"
  by (simp add: evict_one_def Let_def)

lemma evict_one_entry:
  "map_of (tc_entries (evict_one c)) k = Some v \<Longrightarrow> map_of (tc_entries c) k = Some v"
  by (simp add: evict_one_def Let_def split: if_splits)

lemma cache_put_bounded: "cache_bounded c \<Longrightarrow> cache_bounded (cache_put version trip_id ts c)"
proof -
  assume b: "cache_bounded c"
  show ?thesis
  proof (cases "tc_version c = version")
    case False
    with b show ?thesis by (simp add: cache_put_def)
  next
    case True
    consider (known) "map_of (tc_entries c) trip_id \<noteq> None"
      | (room) "int (length (tc_entries c)) < tc_max c"
      | (full) "map_of (tc_entries c) trip_id = None" "tc_max c \<le> int (length (tc_entries c))"
      by linarith
    then show ?thesis
    proof cases
      case known
      then have "trip_id \<in> fst ` set (tc_entries c)" by (simp add: map_of_eq_None_iff)
      with b known show ?thesis
        by (auto simp: cache_put_def cache_bounded_def length_put_present)
    next
      case room
      then show ?thesis
        using b length_put [of trip_id ts "tc_entries c"]
        by (simp add: cache_put_def cache_bounded_def)
    next
      case full
      have "int (length (tc_entries (evict_one c))) < max 1 (tc_max c)"
      proof (cases "tc_entries c = []")
        case True
        then show ?thesis by (simp add: evict_one_def)
      next
        case False
        with b evict_one_shrinks [OF False] show ?thesis by (simp add: cache_bounded_def)
      qed
      with full b show ?thesis
        using length_put [of trip_id ts "tc_entries (evict_one c)"]
        by (simp add: cache_put_def cache_bounded_def evict_one_wf Let_def)
    qed
  qed
qed

section \<open>Transparency\<close>

text \<open>
  Every entry says what a lookup of the schedule would: \<open>lookup\<close> is the schedule, with
  \<open>None\<close> for unknown trips.
\<close>

definition cache_faithful :: "(int \<Rightarrow> string \<Rightarrow> trip_schedule option) \<Rightarrow> trip_cache \<Rightarrow> bool" where
  "cache_faithful lookup c \<longleftrightarrow>
     (\<forall>trip_id ts. map_of (tc_entries c) trip_id = Some ts \<longrightarrow> lookup (tc_version c) trip_id = ts)"

lemma cache_faithful_new [simp]: "cache_faithful lookup (new_trip_cache n choices)"
  by (simp add: cache_faithful_def new_trip_cache_def)

lemma cache_faithful_set_version:
  "cache_faithful lookup c \<Longrightarrow> cache_faithful lookup (cache_set_version v c)"
  by (auto simp: cache_faithful_def cache_set_version_def)

lemma cache_get_faithful:
  "cache_faithful lookup c \<Longrightarrow> cache_get version trip_id c = Some ts \<Longrightarrow> lookup version trip_id = ts"
  by (auto simp: cache_faithful_def cache_get_def split: if_splits)

lemma cache_put_faithful:
  assumes "cache_faithful lookup c" and "lookup version trip_id = ts"
  shows "cache_faithful lookup (cache_put version trip_id ts c)"
  using assms by (auto simp: cache_faithful_def cache_put_def Let_def dest: evict_one_entry)

lemma cache_put_get:
  "tc_version c = version \<Longrightarrow> cache_get version trip_id (cache_put version trip_id ts c) = Some ts"
  by (simp add: cache_put_def cache_get_def Let_def)

lemma cache_version_fields [simp]:
  "tc_version (cache_put version trip_id ts c) = tc_version c"
  "tc_max (cache_put version trip_id ts c) = tc_max c"
  "tc_version (cache_set_version v c) = v"
  "tc_max (cache_set_version v c) = tc_max c"
  by (simp_all add: cache_put_def cache_set_version_def Let_def)

lemma cache_set_version_bounded: "cache_bounded c \<Longrightarrow> cache_bounded (cache_set_version v c)"
  by (simp add: cache_set_version_def cache_bounded_def)

end
