(* ===== verification/Event_Store.thy ===== *)
theory Event_Store
  imports Database
begin

text \<open>
  \<open>internal/store/events.go\<close>: the idempotent upsert of stop events, the position history
  and finalization, as operations on the tables. The lemmas describe the upsert as a
  last-writer-wins register per natural key that finalization freezes.
\<close>

section \<open>Upserting stop events\<close>

definition row_key :: "int \<Rightarrow> stop_event \<Rightarrow> row_key" where
  "row_key day e = (day, se_trip_id e, se_start_time e, se_stop_sequence e)"

definition new_row :: "stop_event \<Rightarrow> stop_event_row" where
  "new_row e =
     \<lparr>re_stop_id = se_stop_id e, re_route_id = se_route_id e, re_direction_id = se_direction_id e,
      re_schedule_version_id = se_schedule_version_id e, re_vehicle_id = se_vehicle_id e,
      re_scheduled_arrival = null_time (se_scheduled_arrival e),
      re_predicted_arrival = null_time (se_predicted_arrival e), re_actual_arrival = None,
      re_delay_secs = se_delay_secs e, re_final = False, re_skipped = se_skipped e,
      re_feed_timestamp = wrap64 (se_feed_timestamp e), re_first_seen = se_observed_at e,
      re_last_updated = se_observed_at e, re_update_count = 1\<rparr>"

definition advance_row :: "stop_event \<Rightarrow> stop_event_row \<Rightarrow> stop_event_row" where
  "advance_row e r = r
     \<lparr>re_predicted_arrival := null_time (se_predicted_arrival e),
      re_delay_secs := se_delay_secs e, re_vehicle_id := se_vehicle_id e,
      re_feed_timestamp := wrap64 (se_feed_timestamp e), re_last_updated := se_observed_at e,
      re_update_count := re_update_count r + 1, re_skipped := se_skipped e\<rparr>"

text \<open>\<open>upsertStopEventSQL\<close> with its guard.\<close>

definition upsert_stmt :: "int \<times> stop_event \<Rightarrow> (row_key \<times> stop_event_row) list \<Rightarrow>
    (row_key \<times> stop_event_row) list \<times> int" where
  "upsert_stmt x t =
     (case x of (day, e) \<Rightarrow>
       (case map_of t (row_key day e) of
          None \<Rightarrow> (al_put (row_key day e) (new_row e) t, 1)
        | Some r \<Rightarrow>
            if re_feed_timestamp r < wrap64 (se_feed_timestamp e) \<and> \<not> re_final r
            then (al_put (row_key day e) (advance_row e r) t, 1)
            else (t, 0)))"

text \<open>The loop that queues the batch: the dates are resolved before anything is sent.\<close>

fun queue_events :: "stop_event list \<Rightarrow> (int \<times> stop_event) list result" where
  "queue_events [] = Inr []"
| "queue_events (e # es) =
     (case date_from_service_date (se_service_date e) of
        Inl err \<Rightarrow> Inl (Wrapped ''store: stop event'' err)
      | Inr day \<Rightarrow> (case queue_events es of Inl err \<Rightarrow> Inl err | Inr xs \<Rightarrow> Inr ((day, e) # xs)))"

text \<open>The parameters fit their columns: \<open>INT\<close> for the sequence and the delay.\<close>

definition encodable :: "stop_event \<Rightarrow> bool" where
  "encodable e \<longleftrightarrow> in_range 32 (se_stop_sequence e) \<and>
     (case se_delay_secs e of None \<Rightarrow> True | Some d \<Rightarrow> in_range 32 d)"

abbreviation add_upserted :: "int \<Rightarrow> metrics \<Rightarrow> metrics" where
  "add_upserted n m \<equiv> m\<lparr>mt_stop_events_upserted := mt_stop_events_upserted m + n\<rparr>"

definition upsert_stop_events :: "stop_event list \<Rightarrow> store sys \<Rightarrow> (int \<times> go_error option) \<times> store sys" where
  "upsert_stop_events events w =
     (if events = [] then ((0, None), w)
      else case queue_events events of
        Inl e \<Rightarrow> ((0, Some e), w)
      | Inr xs \<Rightarrow>
          (if \<not> list_all encodable events
           then ((0, Some (Wrapped ''store: upsert stop events'' (Message ''cannot encode''))), w)
           else case exec_batch upsert_stmt xs (next_fault (sys_db w)) (db_stop_events (sys_db w)) of
             (t, applied, err) \<Rightarrow>
               ((applied, map_option (Wrapped ''store: upsert stop events'') err),
                on_metrics (add_upserted applied)
                  (on_db (\<lambda>d. drop_fault (d\<lparr>db_stop_events := t\<rparr>)) w))))"

section \<open>Vehicle positions\<close>

text \<open>\<open>f < 0\<close> on the bits of a float: the sign is set, it is not a NaN and not -0.\<close>

definition float32_neg :: "32 word \<Rightarrow> bool" where
  "float32_neg f \<longleftrightarrow> 0x80000000 < f \<and> f \<le> 0xFF800000"

definition null_neg_float32 :: "32 word \<Rightarrow> 32 word option" where
  "null_neg_float32 f = (if float32_neg f then None else Some f)"

definition null_neg_int :: "int \<Rightarrow> int option" where
  "null_neg_int n = (if n < 0 then None else Some n)"

definition position_stmt :: "vehicle_position \<Rightarrow> ((string \<times> instant) \<times> position_row) list \<Rightarrow>
    ((string \<times> instant) \<times> position_row) list \<times> int" where
  "position_stmt p t =
     (let k = (vp_vehicle_id p, unix_time (wrap64 (vp_timestamp p)))
      in case map_of t k of
        Some r \<Rightarrow> (t, 0)
      | None \<Rightarrow>
          (al_put k
             \<lparr>rp_trip_id = vp_trip_id p, rp_route_id = vp_route_id p, rp_lat = vp_lat p,
              rp_lon = vp_lon p, rp_bearing = null_neg_float32 (vp_bearing p),
              rp_speed_mps = null_neg_float32 (vp_speed_mps p),
              rp_stop_sequence = null_neg_int (vp_stop_sequence p), rp_status = vp_status p\<rparr> t, 1))"

definition insert_vehicle_positions :: "vehicle_position list \<Rightarrow> store sys \<Rightarrow>
    (int \<times> go_error option) \<times> store sys" where
  "insert_vehicle_positions positions w =
     (let xs = filter (\<lambda>p. vp_timestamp p \<noteq> 0) positions
      in if xs = [] then ((0, None), w)
         else if \<not> list_all (\<lambda>p. vp_stop_sequence p < 2147483648) xs
         then ((0, Some (Wrapped ''store: insert vehicle positions'' (Message ''cannot encode''))), w)
         else case exec_batch position_stmt xs (next_fault (sys_db w)) (db_positions (sys_db w)) of
           (t, applied, err) \<Rightarrow>
             ((applied, map_option (Wrapped ''store: insert vehicle positions'') err),
              on_metrics (\<lambda>m. m\<lparr>mt_vehicle_positions_written := mt_vehicle_positions_written m + applied\<rparr>)
                (on_db (\<lambda>d. drop_fault (d\<lparr>db_positions := t\<rparr>)) w)))"

section \<open>Finalization\<close>

definition best_known :: "stop_event_row \<Rightarrow> instant option" where
  "best_known r =
     (case re_predicted_arrival r of None \<Rightarrow> re_scheduled_arrival r | Some t \<Rightarrow> Some t)"

text \<open>The \<open>WHERE\<close> clause: a comparison with \<open>NULL\<close> is not true.\<close>

definition due :: "instant \<Rightarrow> stop_event_row \<Rightarrow> bool" where
  "due cutoff r \<longleftrightarrow> \<not> re_final r \<and> (case best_known r of None \<Rightarrow> False | Some t \<Rightarrow> t < cutoff)"

definition finalize_row :: "instant \<Rightarrow> stop_event_row \<Rightarrow> stop_event_row" where
  "finalize_row now r =
     r\<lparr>re_final := True, re_actual_arrival := re_predicted_arrival r, re_last_updated := now\<rparr>"

definition finalize_stmt :: "instant \<Rightarrow> instant \<Rightarrow> db \<Rightarrow> db \<times> int" where
  "finalize_stmt now cutoff d =
     (d\<lparr>db_stop_events :=
          map (\<lambda>(k, r). (k, if due cutoff r then finalize_row now r else r)) (db_stop_events d)\<rparr>,
      int (length (filter (\<lambda>(k, r). due cutoff r) (db_stop_events d))))"

definition finalize_cutoff :: "instant \<Rightarrow> duration \<Rightarrow> instant" where
  "finalize_cutoff now grace = go_add now (wrap64 (- grace))"

abbreviation add_finalized :: "int \<Rightarrow> metrics \<Rightarrow> metrics" where
  "add_finalized n m \<equiv> m\<lparr>mt_stop_events_finalized := mt_stop_events_finalized m + n\<rparr>"

definition finalize_due :: "instant \<Rightarrow> duration \<Rightarrow> store sys \<Rightarrow> (int \<times> go_error option) \<times> store sys" where
  "finalize_due now grace w =
     (case db_exec (finalize_stmt now (finalize_cutoff now grace)) w of
        (Inl e, w') \<Rightarrow> ((0, Some (Wrapped ''store: finalize due'' e)), w')
      | (Inr n, w') \<Rightarrow> ((n, None), on_metrics (add_finalized n) w'))"

text \<open>The store as an \<open>EventStore\<close>.\<close>

definition store_events :: "store event_store" where
  "store_events =
     \<lparr>es_upsert = upsert_stop_events, es_insert_positions = insert_vehicle_positions,
      es_finalize_due = finalize_due\<rparr>"

section \<open>A batch as a register per key\<close>

text \<open>
  The specification of one upsert for one key: a register that keeps the newest event,
  unless it is frozen.
\<close>

definition lww :: "stop_event \<Rightarrow> stop_event_row option \<Rightarrow> stop_event_row option" where
  "lww e r = (case r of
      None \<Rightarrow> Some (new_row e)
    | Some r' \<Rightarrow> Some (if re_feed_timestamp r' < wrap64 (se_feed_timestamp e) \<and> \<not> re_final r'
        then advance_row e r' else r'))"

abbreviation upsert_all :: "(int \<times> stop_event) list \<Rightarrow> (row_key \<times> stop_event_row) list \<Rightarrow>
    (row_key \<times> stop_event_row) list" where
  "upsert_all xs t \<equiv> fst (run_batch upsert_stmt xs t)"

definition events_at :: "row_key \<Rightarrow> (int \<times> stop_event) list \<Rightarrow> stop_event list" where
  "events_at k xs = map snd (filter (\<lambda>(day, e). row_key day e = k) xs)"

lemma upsert_stmt_row:
  "map_of (fst (upsert_stmt (day, e) t)) k =
     (if k = row_key day e then lww e (map_of t k) else map_of t k)"
  by (auto simp: upsert_stmt_def lww_def split: option.splits)

lemma upsert_refines_lww: "map_of (upsert_all xs t) k = fold lww (events_at k xs) (map_of t k)"
proof (induction xs arbitrary: t)
  case Nil
  then show ?case by (simp add: events_at_def)
next
  case (Cons x xs)
  obtain day e where x: "x = (day, e)" by force
  have "map_of (upsert_all (x # xs) t) k = map_of (upsert_all xs (fst (upsert_stmt x t))) k"
    by (simp split: prod.splits)
  also have "\<dots> = fold lww (events_at k xs) (map_of (fst (upsert_stmt x t)) k)"
    by (rule Cons.IH)
  finally show ?case by (auto simp: x upsert_stmt_row events_at_def)
qed

lemma upsert_all_wf: "al_wf t \<Longrightarrow> al_wf (upsert_all xs t)"
  by (rule run_batch_inv) (auto simp: upsert_stmt_def split: option.splits)

text \<open>A row never forgets, never goes back in time, and does not move once final.\<close>

definition row_le :: "stop_event_row \<Rightarrow> stop_event_row \<Rightarrow> bool" where
  "row_le r r' \<longleftrightarrow>
     re_feed_timestamp r \<le> re_feed_timestamp r' \<and> re_update_count r \<le> re_update_count r' \<and>
     (re_final r \<longrightarrow> r' = r) \<and>
     re_stop_id r' = re_stop_id r \<and> re_route_id r' = re_route_id r \<and>
     re_direction_id r' = re_direction_id r \<and>
     re_schedule_version_id r' = re_schedule_version_id r \<and>
     re_scheduled_arrival r' = re_scheduled_arrival r \<and> re_first_seen r' = re_first_seen r"

lemma row_le_refl [simp, intro]: "row_le r r"
  by (simp add: row_le_def)

lemma row_le_trans: "row_le r r' \<Longrightarrow> row_le r' r'' \<Longrightarrow> row_le r r''"
  by (auto simp: row_le_def)

lemma lww_row_le: "\<exists>r'. lww e (Some r) = Some r' \<and> row_le r r'"
  by (auto simp: lww_def row_le_def advance_row_def)

lemma fold_lww_row_le: "\<exists>r'. fold lww es (Some r) = Some r' \<and> row_le r r'"
proof (induction es arbitrary: r)
  case (Cons e es)
  obtain r1 where "lww e (Some r) = Some r1" "row_le r r1" using lww_row_le by blast
  with Cons.IH [of r1] show ?case by (auto intro: row_le_trans)
qed simp

lemma upsert_all_row_le:
  "map_of t k = Some r \<Longrightarrow> \<exists>r'. map_of (upsert_all xs t) k = Some r' \<and> row_le r r'"
  by (simp add: upsert_refines_lww fold_lww_row_le)

section \<open>Replays\<close>

text \<open>An event is covered when its row is already final or at least as new.\<close>

definition covers :: "stop_event_row option \<Rightarrow> stop_event \<Rightarrow> bool" where
  "covers r e \<longleftrightarrow> (case r of
      None \<Rightarrow> False
    | Some r' \<Rightarrow> re_final r' \<or> wrap64 (se_feed_timestamp e) \<le> re_feed_timestamp r')"

lemma covers_lww: "covers r e \<Longrightarrow> lww e r = r"
  by (auto simp: covers_def lww_def split: option.splits)

lemma lww_covers: "covers (lww e r) e"
  by (auto simp: covers_def lww_def new_row_def advance_row_def split: option.splits)

lemma covers_mono: "covers (Some r) e \<Longrightarrow> row_le r r' \<Longrightarrow> covers (Some r') e"
  by (auto simp: covers_def row_le_def)

lemma covers_upsert_all:
  assumes "covers (map_of t k) e"
  shows "covers (map_of (upsert_all xs t) k) e"
proof -
  obtain r where r: "map_of t k = Some r"
    using assms by (auto simp: covers_def split: option.splits)
  obtain r' where "map_of (upsert_all xs t) k = Some r'" "row_le r r'"
    using upsert_all_row_le [OF r] by blast
  then show ?thesis using assms r covers_mono by simp
qed

lemma upsert_stmt_covered:
  "covers (map_of t (row_key day e)) e \<Longrightarrow> upsert_stmt (day, e) t = (t, 0)"
  by (auto simp: upsert_stmt_def covers_def split: option.splits)

lemma run_batch_covered:
  "\<forall>(day, e) \<in> set xs. covers (map_of t (row_key day e)) e \<Longrightarrow> run_batch upsert_stmt xs t = (t, 0)"
  by (induction xs) (auto simp: upsert_stmt_covered)

lemma upsert_all_covers:
  "(day, e) \<in> set xs \<Longrightarrow> covers (map_of (upsert_all xs t) (row_key day e)) e"
proof (induction xs arbitrary: t)
  case (Cons x xs)
  let ?t = "fst (upsert_stmt x t)"
  have step: "upsert_all (x # xs) t = upsert_all xs ?t" by (simp split: prod.splits)
  show ?case
  proof (cases "x = (day, e)")
    case True
    then have "covers (map_of ?t (row_key day e)) e"
      by (simp add: upsert_stmt_row lww_covers)
    then show ?thesis unfolding step by (rule covers_upsert_all)
  next
    case False
    then show ?thesis unfolding step using Cons by simp
  qed
qed simp

lemma upsert_replay:
  assumes "set ys \<subseteq> set xs"
  shows "run_batch upsert_stmt ys (upsert_all zs (upsert_all xs t)) = (upsert_all zs (upsert_all xs t), 0)"
  using assms by (intro run_batch_covered) (auto intro: covers_upsert_all upsert_all_covers)


section \<open>The newest event wins\<close>

text \<open>What an upsert overwrites of a row, read off the row and off an event.\<close>

definition row_reading :: "stop_event_row \<Rightarrow>
    instant option \<times> int option \<times> string \<times> bool \<times> int \<times> instant" where
  "row_reading r = (re_predicted_arrival r, re_delay_secs r, re_vehicle_id r, re_skipped r,
     re_feed_timestamp r, re_last_updated r)"

definition event_reading :: "stop_event \<Rightarrow>
    instant option \<times> int option \<times> string \<times> bool \<times> int \<times> instant" where
  "event_reading e = (null_time (se_predicted_arrival e), se_delay_secs e, se_vehicle_id e,
     se_skipped e, wrap64 (se_feed_timestamp e), se_observed_at e)"

abbreviation event_ts :: "stop_event \<Rightarrow> int" where
  "event_ts e \<equiv> wrap64 (se_feed_timestamp e)"

lemma reading_ts:
  "row_reading r = event_reading e \<Longrightarrow> re_feed_timestamp r = event_ts e"
  "row_reading r = row_reading r' \<Longrightarrow> re_feed_timestamp r = re_feed_timestamp r'"
  by (simp_all add: row_reading_def event_reading_def)

lemma fold_lww_newest:
  assumes "fold lww es (Some r) = Some r'" and "\<not> re_final r"
  shows "\<not> re_final r' \<and> (\<forall>e \<in> set es. event_ts e \<le> re_feed_timestamp r') \<and>
    (row_reading r' = row_reading r \<or>
     (\<exists>e \<in> set es. row_reading r' = event_reading e \<and> re_feed_timestamp r < event_ts e))"
  using assms
proof (induction es arbitrary: r)
  case (Cons e es)
  define r1 where "r1 = (if re_feed_timestamp r < event_ts e then advance_row e r else r)"
  have step: "lww e (Some r) = Some r1" and nf: "\<not> re_final r1"
    using Cons.prems(2) by (auto simp: lww_def r1_def advance_row_def)
  have le: "re_feed_timestamp r \<le> re_feed_timestamp r1" "event_ts e \<le> re_feed_timestamp r1"
    by (auto simp: r1_def advance_row_def)
  have rd: "row_reading r1 = row_reading r \<or>
      row_reading r1 = event_reading e \<and> re_feed_timestamp r < event_ts e"
    by (auto simp: r1_def advance_row_def row_reading_def event_reading_def)
  have fl: "fold lww es (Some r1) = Some r'" using Cons.prems(1) step by simp
  have ge: "re_feed_timestamp r1 \<le> re_feed_timestamp r'"
    using fold_lww_row_le [of es r1] fl by (auto simp: row_le_def)
  show ?case using Cons.IH [OF fl nf] le ge rd by auto
qed simp

definition consistent_at :: "stop_event list \<Rightarrow> bool" where
  "consistent_at es \<longleftrightarrow>
     (\<forall>e \<in> set es. \<forall>e' \<in> set es. event_ts e = event_ts e' \<longrightarrow> event_reading e = event_reading e')"

lemma fold_lww_None:
  assumes "fold lww es None = Some r'"
  shows "(\<exists>e \<in> set es. row_reading r' = event_reading e) \<and>
    (\<forall>e \<in> set es. event_ts e \<le> re_feed_timestamp r')"
proof (cases es)
  case Nil
  with assms show ?thesis by simp
next
  case (Cons e es')
  have n: "row_reading (new_row e) = event_reading e" "\<not> re_final (new_row e)"
    "re_feed_timestamp (new_row e) = event_ts e"
    by (simp_all add: row_reading_def event_reading_def new_row_def)
  have fl: "fold lww es' (Some (new_row e)) = Some r'" using assms Cons by (simp add: lww_def)
  have "event_ts e \<le> re_feed_timestamp r'"
    using fold_lww_row_le [of es' "new_row e"] fl n(3) by (auto simp: row_le_def)
  then show ?thesis using fold_lww_newest [OF fl n(2)] n(1) Cons by auto
qed

lemma fold_lww_order:
  assumes "set es = set es'" and "consistent_at es"
  shows "map_option row_reading (fold lww es r) = map_option row_reading (fold lww es' r)"
proof (cases r)
  case None
  show ?thesis
  proof (cases "es = []")
    case True
    with assms show ?thesis by simp
  next
    case False
    then have "es' \<noteq> []" using assms(1) by auto
    then obtain r1 r2 where r: "fold lww es None = Some r1" "fold lww es' None = Some r2"
      using False fold_lww_row_le by (cases es; cases es') (auto simp: lww_def, blast+)
    obtain e1 e2 where e: "e1 \<in> set es" "row_reading r1 = event_reading e1"
      "e2 \<in> set es'" "row_reading r2 = event_reading e2"
      using fold_lww_None [OF r(1)] fold_lww_None [OF r(2)] by auto
    have "event_ts e2 \<le> event_ts e1"
      using conjunct2 [OF fold_lww_None [OF r(1)]] e(3)
      unfolding reading_ts(1) [OF e(2)] assms(1) by (rule bspec)
    moreover have "event_ts e1 \<le> event_ts e2"
      using conjunct2 [OF fold_lww_None [OF r(2)]] e(1)
      unfolding reading_ts(1) [OF e(4)] assms(1) by (rule bspec)
    ultimately have "event_ts e1 = event_ts e2" by (rule order_antisym [rotated])
    moreover have "e2 \<in> set es" using e(3) by (simp only: assms(1))
    ultimately have "event_reading e1 = event_reading e2"
      using assms(2) e(1) unfolding consistent_at_def by blast
    then show ?thesis by (simp add: None r e(2,4))
  qed
next
  case (Some r0)
  show ?thesis
  proof (cases "re_final r0")
    case True
    then have "fold lww xs (Some r0) = Some r0" for xs
      using fold_lww_row_le [of xs r0] by (auto simp: row_le_def)
    with Some show ?thesis by simp
  next
    case False
    obtain r1 r2 where r: "fold lww es (Some r0) = Some r1" "fold lww es' (Some r0) = Some r2"
      using fold_lww_row_le by blast
    note n1 = fold_lww_newest [OF r(1) False] and n2 = fold_lww_newest [OF r(2) False]
    have "row_reading r1 = row_reading r2"
    proof (cases "row_reading r1 = row_reading r0")
      case t1: True
      then have "re_feed_timestamp r1 = re_feed_timestamp r0" by (rule reading_ts)
      then have "\<not> re_feed_timestamp r0 < event_ts e" if "e \<in> set es'" for e
        using n1 that assms(1) by auto
      then have "row_reading r2 = row_reading r0" using n2 by auto
      with t1 show ?thesis by simp
    next
      case f1: False
      then obtain e1 where e1: "e1 \<in> set es" "row_reading r1 = event_reading e1"
        "re_feed_timestamp r0 < event_ts e1" using n1 by auto
      have "row_reading r2 \<noteq> row_reading r0"
      proof
        assume "row_reading r2 = row_reading r0"
        then have "re_feed_timestamp r2 = re_feed_timestamp r0" by (rule reading_ts)
        moreover have "event_ts e1 \<le> re_feed_timestamp r2" using n2 e1(1) assms(1) by blast
        ultimately show False using e1(3) by linarith
      qed
      then obtain e2 where e2: "e2 \<in> set es'" "row_reading r2 = event_reading e2" using n2 by auto
      have "event_ts e2 \<le> event_ts e1"
        using conjunct1 [OF conjunct2 [OF n1]] e2(1)
        unfolding reading_ts(1) [OF e1(2)] assms(1) by (rule bspec)
      moreover have "event_ts e1 \<le> event_ts e2"
        using conjunct1 [OF conjunct2 [OF n2]] e1(1)
        unfolding reading_ts(1) [OF e2(2)] assms(1) by (rule bspec)
      ultimately have "event_ts e1 = event_ts e2" by (rule order_antisym [rotated])
      moreover have "e2 \<in> set es" using e2(1) by (simp only: assms(1))
      ultimately have "event_reading e1 = event_reading e2"
        using assms(2) e1(1) unfolding consistent_at_def by blast
      then show ?thesis by (simp add: e1(2) e2(2))
    qed
    with r Some show ?thesis by simp
  qed
qed

section \<open>Finalization of rows\<close>

lemma finalize_stmt_row:
  "map_of (db_stop_events (fst (finalize_stmt now cutoff d))) k =
     map_option (\<lambda>r. if due cutoff r then finalize_row now r else r) (map_of (db_stop_events d) k)"
  by (simp add: finalize_stmt_def map_of_map_snd)

lemma finalize_row_le: "due cutoff r \<Longrightarrow> row_le r (finalize_row now r)"
  by (simp add: due_def row_le_def finalize_row_def)

lemma finalize_row_not_due: "\<not> due cutoff (finalize_row now r)"
  by (simp add: due_def finalize_row_def)

lemma finalize_stmt_again:
  "finalize_stmt now' cutoff (fst (finalize_stmt now cutoff d)) = (fst (finalize_stmt now cutoff d), 0)"
proof -
  let ?t = "db_stop_events (fst (finalize_stmt now cutoff d))"
  have "\<not> due cutoff r" if "(k, r) \<in> set ?t" for k r
    using that by (auto simp: finalize_stmt_def finalize_row_not_due split: if_splits)
  then have "map (\<lambda>(k, r). (k, if due cutoff r then finalize_row now' r else r)) ?t = ?t"
    and "filter (\<lambda>(k, r). due cutoff r) ?t = []"
    by (auto simp: filter_empty_conv intro!: map_idI)
  then show ?thesis by (simp add: finalize_stmt_def [of now' cutoff])
qed

section \<open>The invariant of the table\<close>

definition row_ok :: "stop_event_row \<Rightarrow> bool" where
  "row_ok r \<longleftrightarrow> re_actual_arrival r = (if re_final r then re_predicted_arrival r else None) \<and>
     1 \<le> re_update_count r"

definition events_ok :: "(row_key \<times> stop_event_row) list \<Rightarrow> bool" where
  "events_ok t \<longleftrightarrow> al_wf t \<and> list_all (\<lambda>(k, r). row_ok r) t"

lemma events_ok_map_of: "events_ok t \<longleftrightarrow> al_wf t \<and> (\<forall>k r. map_of t k = Some r \<longrightarrow> row_ok r)"
  by (auto simp: events_ok_def list_all_iff al_wf_def dest: map_of_SomeD)

lemma row_ok_lww: "\<forall>r'. x = Some r' \<longrightarrow> row_ok r' \<Longrightarrow> lww e x = Some r \<Longrightarrow> row_ok r"
  by (auto simp: lww_def row_ok_def new_row_def advance_row_def split: option.splits if_splits)

lemma row_ok_finalize: "row_ok r \<Longrightarrow> row_ok (finalize_row now r)"
  by (simp add: row_ok_def finalize_row_def)

lemma events_ok_upsert_stmt:
  assumes "events_ok t"
  shows "events_ok (fst (upsert_stmt (day, e) t))"
proof -
  have "al_wf (fst (upsert_stmt (day, e) t))"
    using assms by (auto simp: events_ok_def upsert_stmt_def split: option.splits)
  moreover have "row_ok r" if "map_of (fst (upsert_stmt (day, e) t)) k = Some r" for k r
    using assms that row_ok_lww [of "map_of t k" e r]
    unfolding upsert_stmt_row events_ok_map_of by (metis (full_types))
  ultimately show ?thesis unfolding events_ok_map_of by blast
qed

lemma events_ok_upsert: "events_ok t \<Longrightarrow> events_ok (upsert_all xs t)"
  by (rule run_batch_inv) (auto simp: events_ok_upsert_stmt)

lemma events_ok_finalize:
  "events_ok (db_stop_events d) \<Longrightarrow> events_ok (db_stop_events (fst (finalize_stmt now cutoff d)))"
  by (auto simp: events_ok_def finalize_stmt_def list_all_iff row_ok_finalize)


section \<open>The operations of the store\<close>

definition stored :: "store sys \<Rightarrow> row_key \<Rightarrow> stop_event_row option" where
  "stored w k = map_of (db_stop_events (sys_db w)) k"

lemma queue_events_ok:
  assumes "queue_events es = Inr xs"
  shows "map snd xs = es"
    and "(day, e) \<in> set xs \<Longrightarrow> date_from_service_date (se_service_date e) = Inr day"
  using assms by (induction es arbitrary: xs) (auto split: sum.splits)

lemma queue_events_mem:
  assumes "queue_events es = Inr xs" and "e \<in> set es"
    and "date_from_service_date (se_service_date e) = Inr day"
  shows "(day, e) \<in> set xs"
proof -
  have "e \<in> snd ` set xs" using queue_events_ok(1) [OF assms(1)] assms(2) by (metis list.set_map)
  then obtain day' where "(day', e) \<in> set xs" by auto
  with queue_events_ok(2) [OF assms(1) this] assms(3) show ?thesis by simp
qed

lemma upsert_table:
  assumes "upsert_stop_events es w = (r, w')"
  shows "db_stop_events (sys_db w') = db_stop_events (sys_db w) \<or>
    (\<exists>xs. queue_events es = Inr xs \<and>
       db_stop_events (sys_db w') = upsert_all xs (db_stop_events (sys_db w)))"
  using assms
  by (auto simp: upsert_stop_events_def split: if_splits sum.splits prod.splits
      dest!: exec_batch_atomic)

lemma upsert_table_ok:
  assumes "upsert_stop_events es w = ((n, None), w')"
  obtains xs where "queue_events es = Inr xs"
    and "(db_stop_events (sys_db w'), n) = run_batch upsert_stmt xs (db_stop_events (sys_db w))"
proof (cases "es = []")
  case True
  with assms that [of "[]"] show ?thesis by (simp add: upsert_stop_events_def)
next
  case False
  with assms obtain xs t where "queue_events es = Inr xs"
    "exec_batch upsert_stmt xs (next_fault (sys_db w)) (db_stop_events (sys_db w)) = (t, n, None)"
    "db_stop_events (sys_db w') = t"
    by (auto simp: upsert_stop_events_def split: if_splits sum.splits prod.splits)
  with that exec_batch_ok show ?thesis by metis
qed

lemma run_batch_covered_prefix:
  assumes "\<forall>(day, e) \<in> set xs. covers (map_of t (row_key day e)) e"
    and "exec_batch upsert_stmt xs f t = (t', n, err)"
  shows "t' = t \<and> n = 0"
proof -
  have "run_batch upsert_stmt (take i xs) t = (t, 0)" for i
    using assms(1) by (intro run_batch_covered) (auto dest: in_set_takeD)
  moreover have "run_batch upsert_stmt xs t = (t, 0)"
    using assms(1) by (rule run_batch_covered)
  ultimately show ?thesis
    using assms(2) by (auto simp: exec_batch_def split: option.splits fault.splits if_splits)
qed

lemma upsert_covered_noop:
  assumes "upsert_stop_events es w = ((n, err), w')"
    and "\<forall>e \<in> set es. \<forall>day. date_from_service_date (se_service_date e) = Inr day \<longrightarrow>
      covers (stored w (row_key day e)) e"
  shows "db_stop_events (sys_db w') = db_stop_events (sys_db w) \<and> n = 0"
proof -
  have cov: "\<forall>(day, e) \<in> set xs. covers (map_of (db_stop_events (sys_db w)) (row_key day e)) e"
    if q: "queue_events es = Inr xs" for xs
  proof -
    have "e \<in> set es" if "(day, e) \<in> set xs" for day e
      using that queue_events_ok(1) [OF q] by force
    then show ?thesis
      using assms(2) queue_events_ok(2) [OF q] unfolding stored_def by blast
  qed
  show ?thesis
    using assms(1) run_batch_covered_prefix [OF cov]
    by (auto simp: upsert_stop_events_def split: if_splits sum.splits prod.splits; blast)
qed

lemma insert_positions_events:
  "db_stop_events (sys_db (snd (insert_vehicle_positions ps w))) = db_stop_events (sys_db w)"
  by (simp add: insert_vehicle_positions_def Let_def split: prod.splits)

lemma finalize_table:
  assumes "finalize_due now grace w = (r, w')"
  shows "db_stop_events (sys_db w') = db_stop_events (sys_db w) \<or>
    db_stop_events (sys_db w') =
      db_stop_events (fst (finalize_stmt now (finalize_cutoff now grace) (sys_db w)))"
  using assms
  by (auto simp: finalize_due_def db_exec_def split: option.splits fault.splits if_splits)

section \<open>The contract of an event store\<close>

text \<open>
  What reconciliation relies on, for any store: rows only move forward and freeze once
  final, a successful upsert leaves every event covered, covered events change nothing,
  and neither the position history nor the metrics touch the rows.
\<close>

locale event_contract =
  fixes es :: "'s event_store" and row :: "'s sys \<Rightarrow> row_key \<Rightarrow> stop_event_row option"
  assumes upsert_forward:
      "row w k = Some r \<Longrightarrow> \<exists>r'. row (snd (es_upsert es evs w)) k = Some r' \<and> row_le r r'"
    and upsert_covers:
      "es_upsert es evs w = ((n, None), w') \<Longrightarrow> e \<in> set evs \<Longrightarrow>
         date_from_service_date (se_service_date e) = Inr day \<Longrightarrow> covers (row w' (row_key day e)) e"
    and upsert_noop:
      "es_upsert es evs w = ((n, err), w') \<Longrightarrow>
         \<forall>e \<in> set evs. \<forall>day. date_from_service_date (se_service_date e) = Inr day \<longrightarrow>
           covers (row w (row_key day e)) e \<Longrightarrow> row w' = row w \<and> n = 0"
    and positions_keep: "row (snd (es_insert_positions es ps w)) = row w"
    and finalize_forward:
      "row w k = Some r \<Longrightarrow> \<exists>r'. row (snd (es_finalize_due es now grace w)) k = Some r' \<and> row_le r r'"
    and metrics_keep: "row (on_metrics f w) = row w"
begin

definition forward :: "'s sys \<Rightarrow> 's sys \<Rightarrow> bool" where
  "forward w w' \<longleftrightarrow> (\<forall>k r. row w k = Some r \<longrightarrow> (\<exists>r'. row w' k = Some r' \<and> row_le r r'))"

lemma forward_refl [simp, intro]: "forward w w"
  by (auto simp: forward_def)

lemma forward_trans: "forward w w' \<Longrightarrow> forward w' w'' \<Longrightarrow> forward w w''"
  by (meson forward_def row_le_trans)

lemma forward_same: "row w' = row w \<Longrightarrow> forward w w'"
  by (auto simp: forward_def)

lemma forward_upsert: "forward w (snd (es_upsert es evs w))"
  using upsert_forward by (auto simp: forward_def)

lemma forward_finalize: "forward w (snd (es_finalize_due es now grace w))"
  using finalize_forward by (auto simp: forward_def)

lemma forward_final: "forward w w' \<Longrightarrow> row w k = Some r \<Longrightarrow> re_final r \<Longrightarrow> row w' k = Some r"
  unfolding forward_def row_le_def by blast

lemma forward_covers:
  assumes "forward w w'" and "covers (row w k) e"
  shows "covers (row w' k) e"
proof -
  obtain r where r: "row w k = Some r" using assms(2) by (auto simp: covers_def split: option.splits)
  then obtain r' where "row w' k = Some r'" "row_le r r'" using assms(1) unfolding forward_def by blast
  then show ?thesis using assms(2) r covers_mono by simp
qed

end

interpretation pg: event_contract store_events stored
proof
  show "\<exists>r'. stored (snd (es_upsert store_events evs w)) k = Some r' \<and> row_le r r'"
    if "stored w k = Some r" for w k r evs
  proof -
    obtain x w' where u: "upsert_stop_events evs w = (x, w')"
      by (cases "upsert_stop_events evs w")
    then show ?thesis
      using that upsert_table [OF u] upsert_all_row_le [of "db_stop_events (sys_db w)" k r]
      by (auto simp: store_events_def stored_def)
  qed
next
  show "covers (stored w' (row_key day e)) e"
    if u: "es_upsert store_events evs w = ((n, None), w')" and e: "e \<in> set evs"
      and d: "date_from_service_date (se_service_date e) = Inr day" for evs w n w' e day
  proof -
    have "upsert_stop_events evs w = ((n, None), w')" using u by (simp add: store_events_def)
    then obtain xs where xs: "queue_events evs = Inr xs"
      and t: "(db_stop_events (sys_db w'), n) = run_batch upsert_stmt xs (db_stop_events (sys_db w))"
      by (rule upsert_table_ok)
    show ?thesis
      using upsert_all_covers [OF queue_events_mem [OF xs e d]]
      by (simp add: stored_def arg_cong [OF t, of fst, simplified])
  qed
next
  show "stored w' = stored w \<and> n = 0"
    if "es_upsert store_events evs w = ((n, err), w')"
      and "\<forall>e \<in> set evs. \<forall>day. date_from_service_date (se_service_date e) = Inr day \<longrightarrow>
        covers (stored w (row_key day e)) e" for evs w n err w'
    using upsert_covered_noop [OF _ that(2)] that(1) by (auto simp: store_events_def stored_def)
next
  show "stored (snd (es_insert_positions store_events ps w)) = stored w" for ps w
    by (auto simp: store_events_def stored_def insert_positions_events)
next
  show "\<exists>r'. stored (snd (es_finalize_due store_events now grace w)) k = Some r' \<and> row_le r r'"
    if "stored w k = Some r" for w k r now grace
  proof -
    obtain x w' where u: "finalize_due now grace w = (x, w')"
      by (cases "finalize_due now grace w")
    then show ?thesis
      using that finalize_table [OF u] finalize_row_le
      by (auto simp: store_events_def stored_def finalize_stmt_row)
  qed
next
  show "stored (on_metrics f w) = stored w" for f w
    by (auto simp: stored_def)
qed


text \<open>Two events that address the same row.\<close>

definition same_row :: "stop_event \<Rightarrow> stop_event \<Rightarrow> bool" where
  "same_row e e' \<longleftrightarrow>
     date_from_service_date (se_service_date e) = date_from_service_date (se_service_date e') \<and>
     se_trip_id e = se_trip_id e' \<and> se_start_time e = se_start_time e' \<and>
     se_stop_sequence e = se_stop_sequence e'"

lemma events_at_queued:
  assumes "queue_events es = Inr xs"
  shows "set (events_at k xs) =
    {e \<in> set es. \<exists>day. date_from_service_date (se_service_date e) = Inr day \<and> row_key day e = k}"
proof -
  have "(day, e) \<in> set xs \<longleftrightarrow> e \<in> set es \<and> date_from_service_date (se_service_date e) = Inr day" for day e
    using queue_events_mem [OF assms] queue_events_ok [OF assms] by force
  then show ?thesis by (force simp: events_at_def)
qed

section \<open>Histories of the tables\<close>

text \<open>The writes of the event store, in any order, with any arguments and outcome.\<close>

inductive events_step :: "store sys \<Rightarrow> store sys \<Rightarrow> bool" where
  Upsert: "upsert_stop_events es w = (r, w') \<Longrightarrow> events_step w w'"
| Positions: "insert_vehicle_positions ps w = (r, w') \<Longrightarrow> events_step w w'"
| Finalize: "finalize_due now grace w = (r, w') \<Longrightarrow> events_step w w'"

inductive_cases events_stepE: "events_step w w'"

abbreviation events_steps :: "store sys \<Rightarrow> store sys \<Rightarrow> bool" where
  "events_steps \<equiv> events_step\<^sup>*\<^sup>*"

lemma events_step_forward: "events_step w w' \<Longrightarrow> pg.forward w w'"
  using pg.forward_upsert pg.forward_finalize pg.forward_same [OF pg.positions_keep]
  by (auto simp: store_events_def elim!: events_stepE) (metis snd_conv)+

lemma events_steps_forward: "events_steps w w' \<Longrightarrow> pg.forward w w'"
  by (induction rule: rtranclp_induct) (auto intro: events_step_forward pg.forward_trans)

lemma events_step_ok:
  assumes "events_step w w'" and "events_ok (db_stop_events (sys_db w))"
  shows "events_ok (db_stop_events (sys_db w'))"
  using assms(1)
proof (cases rule: events_step.cases)
  case (Upsert es r)
  then show ?thesis using upsert_table [OF Upsert] assms(2) events_ok_upsert by auto
next
  case (Positions ps r)
  then show ?thesis using insert_positions_events [of ps w] assms(2) by simp
next
  case (Finalize now grace r)
  then show ?thesis using finalize_table [OF Finalize] assms(2) events_ok_finalize by auto
qed

section \<open>A sample\<close>

definition sample_event :: "int \<Rightarrow> instant \<Rightarrow> stop_event" where
  "sample_event ts pred =
     \<lparr>se_service_date = ''20260801'', se_trip_id = ''T1'', se_start_time = [], se_stop_sequence = 3,
      se_stop_id = ''S3'', se_route_id = ''R'', se_direction_id = 0, se_schedule_version_id = 1,
      se_vehicle_id = ''V'', se_headsign = ''Downtown'',
      se_scheduled_arrival = 1000 * second, se_predicted_arrival = pred,
      se_actual_arrival = zero_time, se_delay_secs = Some 60, se_final = False, se_skipped = False,
      se_feed_timestamp = ts, se_observed_at = 900 * second\<rparr>"

definition sample_store :: "store sys" where
  "sample_store = snd (upsert_stop_events [sample_event 5 (1060 * second)] (opened_store []))"

definition sample_key :: row_key where
  "sample_key = (739828, ''T1'', [], 3)"

section \<open>Properties\<close>

text \<open>
  C12: an upsert is idempotent. Once a batch of events was applied, applying any of these
  events again, after any further upserts, finalizations and failures, changes no row and
  reports no applied row.
\<close>

theorem upsert_idempotent:
  assumes "upsert_stop_events es w = ((n, None), w1)" and "events_steps w1 w2"
    and "set es' \<subseteq> set es" and "upsert_stop_events es' w2 = ((m, err), w3)"
  shows "db_stop_events (sys_db w3) = db_stop_events (sys_db w2) \<and> m = 0"
proof (rule upsert_covered_noop [OF assms(4)], intro ballI allI impI)
  fix e day
  assume e: "e \<in> set es'" and d: "date_from_service_date (se_service_date e) = Inr day"
  have "es_upsert store_events es w = ((n, None), w1)" using assms(1) by (simp add: store_events_def)
  from pg.upsert_covers [OF this _ d] e assms(3)
  have "covers (stored w1 (row_key day e)) e" by blast
  then show "covers (stored w2 (row_key day e)) e"
    by (rule pg.forward_covers [OF events_steps_forward [OF assms(2)]])
qed

theorem upsert_idempotent_witness:
  "fst (upsert_stop_events [sample_event 5 (1060 * second)] (opened_store [])) = (1, None) \<and>
   db_stop_events (sys_db (snd (upsert_stop_events [sample_event 5 (1060 * second)] sample_store)))
     = db_stop_events (sys_db sample_store)"
proof -
  let ?es = "[sample_event 5 (1060 * second)]"
  have ok: "fst (upsert_stop_events ?es (opened_store [])) = (1, None)" by code_simp
  then have 1: "upsert_stop_events ?es (opened_store []) = ((1, None), sample_store)"
    by (simp add: sample_store_def prod_eq_iff)
  obtain m err w3 where 3: "upsert_stop_events ?es sample_store = ((m, err), w3)"
    by (metis prod.exhaust)
  show ?thesis using upsert_idempotent [OF 1 _ _ 3] ok 3 by simp
qed

text \<open>
  C22: the order of the events does not matter. Two batches with the same events, in any
  order and with any repetitions, leave the same reading in every row, as long as two
  events of one row with the same timestamp say the same.
\<close>

theorem upsert_order_independent:
  assumes "upsert_stop_events es w = ((n, None), w1)" and "upsert_stop_events es' w = ((n', None), w2)"
    and "set es = set es'"
    and "\<And>e e'. e \<in> set es \<Longrightarrow> e' \<in> set es \<Longrightarrow> same_row e e' \<Longrightarrow> event_ts e = event_ts e' \<Longrightarrow>
      event_reading e = event_reading e'"
  shows "map_option row_reading (stored w1 k) = map_option row_reading (stored w2 k)"
proof -
  obtain xs where xs: "queue_events es = Inr xs"
    and t1: "(db_stop_events (sys_db w1), n) = run_batch upsert_stmt xs (db_stop_events (sys_db w))"
    by (rule upsert_table_ok [OF assms(1)])
  obtain ys where ys: "queue_events es' = Inr ys"
    and t2: "(db_stop_events (sys_db w2), n') = run_batch upsert_stmt ys (db_stop_events (sys_db w))"
    by (rule upsert_table_ok [OF assms(2)])
  have "set (events_at k xs) = set (events_at k ys)"
    using events_at_queued [OF xs] events_at_queued [OF ys] assms(3) by simp
  moreover have "consistent_at (events_at k xs)"
    unfolding consistent_at_def
  proof (intro ballI impI)
    fix e e'
    assume "e \<in> set (events_at k xs)" "e' \<in> set (events_at k xs)" and ts: "event_ts e = event_ts e'"
    then have "e \<in> set es" "e' \<in> set es" "same_row e e'"
      by (auto simp: events_at_queued [OF xs] same_row_def row_key_def)
    with assms(4) ts show "event_reading e = event_reading e'" by blast
  qed
  ultimately show ?thesis
    using fold_lww_order [of "events_at k xs" "events_at k ys" "stored w k"]
    by (simp add: stored_def arg_cong [OF t1, of fst, simplified] arg_cong [OF t2, of fst, simplified]
        upsert_refines_lww)
qed

theorem upsert_order_independent_witness:
  "map_option row_reading (stored (snd (upsert_stop_events
       [sample_event 5 (1060 * second), sample_event 6 (1070 * second)] (opened_store []))) sample_key)
   = map_option row_reading (stored (snd (upsert_stop_events
       [sample_event 6 (1070 * second), sample_event 5 (1060 * second)] (opened_store []))) sample_key)"
proof -
  let ?es = "[sample_event 5 (1060 * second), sample_event 6 (1070 * second)]"
  let ?es' = "[sample_event 6 (1070 * second), sample_event 5 (1060 * second)]"
  obtain w1 w2 where w: "w1 = snd (upsert_stop_events ?es (opened_store []))"
    "w2 = snd (upsert_stop_events ?es' (opened_store []))" by simp
  have "fst (upsert_stop_events ?es (opened_store [])) = (2, None)" by code_simp
  then have 1: "upsert_stop_events ?es (opened_store []) = ((2, None), w1)"
    by (simp add: w prod_eq_iff)
  have "fst (upsert_stop_events ?es' (opened_store [])) = (1, None)" by code_simp
  then have 2: "upsert_stop_events ?es' (opened_store []) = ((1, None), w2)"
    by (simp add: w prod_eq_iff)
  have "event_ts (sample_event 5 p) \<noteq> event_ts (sample_event 6 q)"
    "event_ts (sample_event 6 q) \<noteq> event_ts (sample_event 5 p)" for p q
    by (simp_all add: sample_event_def wrap64_id)
  then show ?thesis
    unfolding w [symmetric] by (intro upsert_order_independent [OF 1 2]) auto
qed

text \<open>
  C20: a final row never changes. Whatever upserts and finalizations follow, with whatever
  failures, the row stays as it was frozen.
\<close>

theorem final_rows_frozen:
  assumes "events_steps w w'" and "stored w k = Some r" and "re_final r"
  shows "stored w' k = Some r"
  using pg.forward_final [OF events_steps_forward [OF assms(1)] assms(2,3)] .

theorem final_rows_frozen_witness:
  "let w = snd (finalize_due (5000 * second) 0 sample_store);
       w' = snd (upsert_stop_events [sample_event 9 (2000 * second)] w)
   in map_option re_final (stored w sample_key) = Some True \<and> stored w' sample_key = stored w sample_key"
proof -
  define w where "w = snd (finalize_due (5000 * second) 0 sample_store)"
  define w' where "w' = snd (upsert_stop_events [sample_event 9 (2000 * second)] w)"
  have fin: "map_option re_final (stored w sample_key) = Some True" unfolding w_def by code_simp
  then obtain r where r: "stored w sample_key = Some r" "re_final r" by auto
  have "events_step w w'" unfolding w'_def by (rule events_step.Upsert [OF prod.collapse [symmetric]])
  from final_rows_frozen [OF r_into_rtranclp [of events_step, OF this] r]
  show ?thesis using fin r by (simp add: w_def w'_def Let_def)
qed

text \<open>
  Rows only move forward. No write deletes a row, lets its feed timestamp or its update
  count decrease, or changes the stop, route, direction, schedule version, scheduled
  arrival and first sighting it was created with.
\<close>

theorem rows_move_forward:
  assumes "events_steps w w'" and "stored w k = Some r"
  shows "\<exists>r'. stored w' k = Some r' \<and> row_le r r'"
  using events_steps_forward [OF assms(1)] assms(2) unfolding pg.forward_def by blast

theorem rows_move_forward_witness:
  "\<exists>r r'. stored sample_store sample_key = Some r \<and>
     stored (snd (upsert_stop_events [sample_event 9 (2000 * second)] sample_store)) sample_key = Some r' \<and>
     row_le r r'"
proof -
  have "stored sample_store sample_key \<noteq> None" by code_simp
  then obtain r where r: "stored sample_store sample_key = Some r" by auto
  have "events_step sample_store (snd (upsert_stop_events [sample_event 9 (2000 * second)] sample_store))"
    by (rule events_step.Upsert [OF prod.collapse [symmetric]])
  from rows_move_forward [OF r_into_rtranclp [of events_step, OF this] r] r show ?thesis by blast
qed

text \<open>
  C21: a successful \<open>FinalizeDue\<close> freezes exactly the open rows whose best-known time lies
  before the cutoff: their actual arrival becomes the prediction, or stays unknown when
  there was none, the delay is left alone, and every other row is untouched. It reports
  their number, and a second call with the same cutoff finds nothing.
\<close>

theorem finalize_due_exact:
  assumes "finalize_due now grace w = ((n, None), w')"
  shows "stored w' k = map_option (\<lambda>r. if due (finalize_cutoff now grace) r
      then r\<lparr>re_final := True, re_actual_arrival := re_predicted_arrival r, re_last_updated := now\<rparr>
      else r) (stored w k) \<and>
    n = int (length (filter (\<lambda>(k, r). due (finalize_cutoff now grace) r) (db_stop_events (sys_db w)))) \<and>
    snd (finalize_stmt now' (finalize_cutoff now grace) (sys_db w')) = 0"
proof -
  let ?c = "finalize_cutoff now grace"
  have n: "n = snd (finalize_stmt now ?c (sys_db w))"
    and t: "db_stop_events (sys_db w') = db_stop_events (fst (finalize_stmt now ?c (sys_db w)))"
    using assms
    by (auto simp: finalize_due_def db_exec_def split: option.splits fault.splits prod.splits)
  have "snd (finalize_stmt now' ?c (sys_db w')) = 0"
    using arg_cong [OF finalize_stmt_again, of snd now' ?c now "sys_db w"] t
    by (simp add: finalize_stmt_def)
  moreover have "n = int (length (filter (\<lambda>(k, r). due ?c r) (db_stop_events (sys_db w))))"
    by (simp add: n finalize_stmt_def)
  ultimately show ?thesis
    by (simp add: t stored_def finalize_stmt_row finalize_row_def cong: if_cong)
qed

theorem finalize_due_exact_witness:
  "map_option re_actual_arrival (stored (snd (finalize_due (5000 * second) 0 sample_store)) sample_key)
     = Some (Some (1060 * second))"
proof -
  have "fst (finalize_due (5000 * second) 0 sample_store) = (1, None)" by code_simp
  then have "finalize_due (5000 * second) 0 sample_store =
      ((1, None), snd (finalize_due (5000 * second) 0 sample_store))"
    by (simp add: prod_eq_iff)
  from finalize_due_exact [OF this]
  have row: "stored (snd (finalize_due (5000 * second) 0 sample_store)) sample_key =
      map_option (\<lambda>r. if due (finalize_cutoff (5000 * second) 0) r
        then r\<lparr>re_final := True, re_actual_arrival := re_predicted_arrival r,
               re_last_updated := 5000 * second\<rparr>
        else r) (stored sample_store sample_key)" by blast
  have "map_option (\<lambda>r. (due (finalize_cutoff (5000 * second) 0) r, re_predicted_arrival r))
      (stored sample_store sample_key) = Some (True, Some (1060 * second))" by code_simp
  then show ?thesis by (auto simp: row)
qed

text \<open>
  The table of stop events stays well formed: one row per natural key, an actual
  arrival exactly where the row is final and then equal to the last prediction, and a
  positive update count.
\<close>

theorem events_invariant:
  assumes "events_steps w w'" and "events_ok (db_stop_events (sys_db w))"
  shows "events_ok (db_stop_events (sys_db w'))"
  using assms by (induction rule: rtranclp_induct) (auto intro: events_step_ok)

theorem events_invariant_witness: "events_ok (db_stop_events (sys_db sample_store))"
proof -
  have "events_step (opened_store []) sample_store"
    unfolding sample_store_def by (rule events_step.Upsert [OF prod.collapse [symmetric]])
  moreover have "events_ok (db_stop_events (sys_db (opened_store [])))"
    by (simp add: events_ok_def opened_store_def empty_db_def)
  ultimately show ?thesis using events_invariant [OF r_into_rtranclp [of events_step]] by blast
qed


text \<open>
  Corrections under an old timestamp are lost. When every event of a batch meets a row
  that is final or carries a timestamp at least as new, the upsert changes nothing, whatever
  the events say; so recomputed values reach the table only if the rows are removed first.
\<close>

theorem stale_events_ignored:
  assumes "upsert_stop_events es w = ((n, err), w')"
    and "\<And>e day. e \<in> set es \<Longrightarrow> date_from_service_date (se_service_date e) = Inr day \<Longrightarrow>
      \<exists>r. stored w (row_key day e) = Some r \<and> (re_final r \<or> event_ts e \<le> re_feed_timestamp r)"
  shows "db_stop_events (sys_db w') = db_stop_events (sys_db w) \<and> n = 0"
proof (rule upsert_covered_noop [OF assms(1)], intro ballI allI impI)
  fix e day
  assume "e \<in> set es" "date_from_service_date (se_service_date e) = Inr day"
  from assms(2) [OF this] show "covers (stored w (row_key day e)) e" by (auto simp: covers_def)
qed

theorem stale_events_ignored_witness:
  "db_stop_events (sys_db (snd (upsert_stop_events [sample_event 5 (1999 * second)] sample_store)))
     = db_stop_events (sys_db sample_store)"
proof -
  let ?e = "sample_event 5 (1999 * second)"
  obtain n err w' where u: "upsert_stop_events [?e] sample_store = ((n, err), w')" by (metis prod.exhaust)
  have d: "date_from_service_date (se_service_date ?e) = Inr 739828" by code_simp
  have "row_key 739828 ?e = sample_key" by code_simp
  moreover have "map_option re_feed_timestamp (stored sample_store sample_key) = Some 5" by code_simp
  moreover have "event_ts ?e = 5" by code_simp
  ultimately have "\<exists>r. stored sample_store (row_key 739828 ?e) = Some r \<and>
      (re_final r \<or> event_ts ?e \<le> re_feed_timestamp r)" by auto
  with d have "\<And>e day. e \<in> set [?e] \<Longrightarrow> date_from_service_date (se_service_date e) = Inr day \<Longrightarrow>
      \<exists>r. stored sample_store (row_key day e) = Some r \<and> (re_final r \<or> event_ts e \<le> re_feed_timestamp r)"
    by auto
  from stale_events_ignored [OF u this] u show ?thesis by simp
qed

text \<open>
  A batch is all or nothing. A failed upsert leaves the rows as they were, or, when only
  the reply was lost after the commit, as the whole batch leaves them; and the rows it
  reports as applied, which the counter adds up, may have been rolled back.
\<close>

theorem failed_upsert_atomic:
  assumes "upsert_stop_events es w = ((n, Some err), w')"
  shows "db_stop_events (sys_db w') = db_stop_events (sys_db w) \<or>
    (\<exists>xs committed i. queue_events es = Inr xs \<and> length xs \<le> i \<and>
       next_fault (sys_db w) = Some (Fault i (case err of Wrapped m e \<Rightarrow> e | _ \<Rightarrow> err) committed) \<and> committed \<and>
       db_stop_events (sys_db w') = upsert_all xs (db_stop_events (sys_db w)))"
  using assms
  by (auto simp: upsert_stop_events_def exec_batch_def split: if_splits sum.splits prod.splits
      option.splits fault.splits)

theorem failed_upsert_atomic_witness:
  "let w = opened_store [Some (Fault 1 (Message ''down'') False)];
       r = upsert_stop_events [sample_event 5 0, sample_event 6 0] w
   in fst r = (1, Some (Wrapped ''store: upsert stop events'' (Message ''down''))) \<and>
      mt_stop_events_upserted (sys_metrics (snd r)) = 1 \<and>
      db_stop_events (sys_db (snd r)) = []"
proof -
  let ?w = "opened_store [Some (Fault 1 (Message ''down'') False)]"
  let ?r = "upsert_stop_events [sample_event 5 0, sample_event 6 0] ?w"
  have r: "fst ?r = (1, Some (Wrapped ''store: upsert stop events'' (Message ''down'')))"
    "mt_stop_events_upserted (sys_metrics (snd ?r)) = 1" by code_simp+
  then have "?r = ((1, Some (Wrapped ''store: upsert stop events'' (Message ''down''))), snd ?r)"
    by (simp add: prod_eq_iff)
  from failed_upsert_atomic [OF this]
  have "db_stop_events (sys_db (snd ?r)) = []"
    by (auto simp: opened_store_def empty_db_def next_fault_def)
  with r show ?thesis by (simp add: Let_def)
qed

end
