(* ===== verification/Engine.thy ===== *)
theory Engine
  imports Reconcile Trip_Cache Event_Store Schedule_Repo
    "HOL-Library.List_Lexorder" "HOL-Library.Product_Lexorder"
begin

text \<open>
  \<open>internal/reconcile/engine.go\<close> and the stateful part of \<open>process.go\<close>: the engine's
  cache, time zones and live state, \<open>Process\<close>, \<open>Sweep\<close> and the live-source getters, as
  functions on the engine and the state of its stores. The clock is an argument, as the
  options inject it; the context is the error it reports, if any. Each operation is one
  step: the locks make the accesses to the live state atomic, and the store calls between
  them act on the database.
\<close>

section \<open>State\<close>

definition vehicle_ttl :: duration where
  "vehicle_ttl = 3 * minute"

record live_entry =
  le_vp :: vehicle_position
  le_headsign :: string
  le_updated_at :: instant

record engine =
  en_finalize_grace :: duration
  en_cache :: trip_cache
  en_tz :: "(string \<times> location) list"
  en_vehicles :: "(string \<times> live_entry) list"
  en_live_events :: "(event_key \<times> stop_event) list"
  en_feed_header :: "(feed \<times> instant) list"

text \<open>The values an engine is built over; the time-zone database is a function of the name.\<close>

record 's deps =
  dp_sched :: "'s schedule_repo"
  dp_events :: "'s event_store"
  dp_load_location :: "string \<Rightarrow> location result"

definition new_engine :: "duration \<Rightarrow> nat list \<Rightarrow> engine" where
  "new_engine grace choices =
     \<lparr>en_finalize_grace = grace, en_cache = new_trip_cache trip_cache_max choices, en_tz = [],
      en_vehicles = [], en_live_events = [], en_feed_header = []\<rparr>"

section \<open>Lookups\<close>

definition engine_location :: "'s deps \<Rightarrow> string \<Rightarrow> engine \<Rightarrow> location result \<times> engine" where
  "engine_location dp name en =
     (case map_of (en_tz en) name of
        Some loc \<Rightarrow> (Inr loc, en)
      | None \<Rightarrow>
          (case dp_load_location dp name of
             Inl e \<Rightarrow> (Inl (Wrapped ''load agency tz'' e), en)
           | Inr loc \<Rightarrow> (Inr loc, en\<lparr>en_tz := al_put name loc (en_tz en)\<rparr>)))"

definition engine_trip_schedule ::
    "'s deps \<Rightarrow> int \<Rightarrow> string \<Rightarrow> engine \<times> 's sys \<Rightarrow> trip_schedule result \<times> engine \<times> 's sys" where
  "engine_trip_schedule dp v trip s =
     (case s of (en, w) \<Rightarrow>
       (case cache_get v trip (en_cache en) of
          Some None \<Rightarrow> (Inl err_not_found, en, w)
        | Some (Some ts) \<Rightarrow> (Inr ts, en, w)
        | None \<Rightarrow>
            (case sr_trip_schedule (dp_sched dp) v trip w of
               (Inr ts, w') \<Rightarrow>
                 (Inr ts, en\<lparr>en_cache := cache_put v trip (Some ts) (en_cache en)\<rparr>, w')
             | (Inl e, w') \<Rightarrow>
                 if errors_is e Not_found
                 then (Inl err_not_found, en\<lparr>en_cache := cache_put v trip None (en_cache en)\<rparr>, w')
                 else (Inl (Wrapped ''trip schedule'' e), en, w'))))"

section \<open>Trip updates\<close>

definition reconcile_trip ::
    "'s deps \<Rightarrow> trip_update \<Rightarrow> snapshot \<Rightarrow> schedule_version \<Rightarrow> location \<Rightarrow> engine \<times> 's sys \<Rightarrow>
      stop_event list result \<times> engine \<times> 's sys" where
  "reconcile_trip dp tu snap ver loc s =
     (case engine_trip_schedule dp (sv_id ver) (tu_trip_id tu) s of
        (Inl e, en, w) \<Rightarrow>
          if errors_is e Not_found then (Inr [], en, inc_unmatched w) else (Inl e, en, w)
      | (Inr ts, en, w) \<Rightarrow>
          (case expand_trip tu snap ver loc ts of
             None \<Rightarrow> (Inr [], en, inc_unmatched w)
           | Some evs \<Rightarrow> (Inr evs, en, w)))"

fun collect_events ::
    "'s deps \<Rightarrow> snapshot \<Rightarrow> (schedule_version \<times> location) option \<Rightarrow> trip_update list \<Rightarrow>
      engine \<times> 's sys \<Rightarrow> stop_event list result \<times> engine \<times> 's sys" where
  "collect_events dp snap vl [] s = (Inr [], s)"
| "collect_events dp snap None (tu # tus) s =
     (case s of (en, w) \<Rightarrow> collect_events dp snap None tus (en, inc_unmatched w))"
| "collect_events dp snap (Some (ver, loc)) (tu # tus) s =
     (case reconcile_trip dp tu snap ver loc s of
        (Inl e, s') \<Rightarrow> (Inl e, s')
      | (Inr evs, s') \<Rightarrow>
          (case collect_events dp snap (Some (ver, loc)) tus s' of
             (Inl e, s'') \<Rightarrow> (Inl e, s'')
           | (Inr rest, s'') \<Rightarrow> (Inr (evs @ rest), s'')))"

definition mirror_event :: "stop_event \<Rightarrow> (event_key \<times> stop_event) list \<Rightarrow> (event_key \<times> stop_event) list" where
  "mirror_event ev lives =
     (case map_of lives (event_key_of ev) of
        Some cur \<Rightarrow>
          if se_feed_timestamp cur > se_feed_timestamp ev then lives
          else al_put (event_key_of ev) ev lives
      | None \<Rightarrow> al_put (event_key_of ev) ev lives)"

definition process_trip_updates ::
    "'s deps \<Rightarrow> snapshot \<Rightarrow> (schedule_version \<times> location) option \<Rightarrow> engine \<times> 's sys \<Rightarrow>
      go_error option \<times> engine \<times> 's sys" where
  "process_trip_updates dp snap vl s =
     (case collect_events dp snap vl (sn_trip_updates snap) s of
        (Inl e, s') \<Rightarrow> (Some e, s')
      | (Inr evs, en, w) \<Rightarrow>
          (case (if evs = [] then ((0, None), w) else es_upsert (dp_events dp) evs w) of
             ((n, Some e), w') \<Rightarrow> (Some (Wrapped ''upsert stop events'' e), en, w')
           | ((n, None), w') \<Rightarrow>
               (None, en\<lparr>en_live_events := fold mirror_event evs (en_live_events en)\<rparr>, w')))"

section \<open>Vehicle positions\<close>

text \<open>One entry of the loop: the vehicle enriched from its trip's schedule.\<close>

definition live_entry_of ::
    "'s deps \<Rightarrow> snapshot \<Rightarrow> schedule_version option \<Rightarrow> vehicle_position \<Rightarrow> engine \<times> 's sys \<Rightarrow>
      live_entry \<times> engine \<times> 's sys" where
  "live_entry_of dp snap ver vp s =
     (let ((vp', headsign), s') =
            (case ver of
               None \<Rightarrow> ((vp, []), s)
             | Some v \<Rightarrow>
                 if vp_trip_id vp = [] then ((vp, []), s)
                 else (case engine_trip_schedule dp (sv_id v) (vp_trip_id vp) s of
                     (Inl e, s') \<Rightarrow> ((vp, []), s')
                   | (Inr ts, s') \<Rightarrow>
                       ((if vp_route_id vp = [] then vp\<lparr>vp_route_id := ts_route_id ts\<rparr> else vp,
                         ts_headsign ts), s')));
          updated = (if vp_timestamp vp > 0 then unix_time (wrap64 (vp_timestamp vp))
                     else sn_polled_at snap)
      in (\<lparr>le_vp = vp', le_headsign = headsign, le_updated_at = updated\<rparr>, s'))"

fun live_entries ::
    "'s deps \<Rightarrow> snapshot \<Rightarrow> schedule_version option \<Rightarrow> vehicle_position list \<Rightarrow> engine \<times> 's sys \<Rightarrow>
      live_entry list \<times> engine \<times> 's sys" where
  "live_entries dp snap ver [] s = ([], s)"
| "live_entries dp snap ver (vp # vps) s =
     (if vp_vehicle_id vp = [] then live_entries dp snap ver vps s
      else case live_entry_of dp snap ver vp s of
        (le, s') \<Rightarrow> (case live_entries dp snap ver vps s' of (les, s'') \<Rightarrow> (le # les, s'')))"

definition merge_vehicle :: "live_entry \<Rightarrow> (string \<times> live_entry) list \<Rightarrow> (string \<times> live_entry) list" where
  "merge_vehicle le vs =
     (let k = vp_vehicle_id (le_vp le)
      in case map_of vs k of
        Some cur \<Rightarrow> if le_updated_at cur > le_updated_at le then vs else al_put k le vs
      | None \<Rightarrow> al_put k le vs)"

abbreviation set_active_vehicles :: "engine \<Rightarrow> 's sys \<Rightarrow> 's sys" where
  "set_active_vehicles en \<equiv> on_metrics (\<lambda>m. m\<lparr>mt_active_vehicles := int (length (en_vehicles en))\<rparr>)"

definition process_vehicle_positions ::
    "'s deps \<Rightarrow> snapshot \<Rightarrow> schedule_version option \<Rightarrow> engine \<times> 's sys \<Rightarrow>
      go_error option \<times> engine \<times> 's sys" where
  "process_vehicle_positions dp snap ver s =
     (case s of (en, w) \<Rightarrow>
       (case (if sn_vehicles snap = [] then ((0, None), w)
              else es_insert_positions (dp_events dp) (sn_vehicles snap) w) of
          ((n, Some e), w') \<Rightarrow> (Some (Wrapped ''insert vehicle positions'' e), en, w')
        | ((n, None), w') \<Rightarrow>
            (case live_entries dp snap ver (sn_vehicles snap) (en, w') of
               (les, en', w'') \<Rightarrow>
                 (let en'' = en'\<lparr>en_vehicles := fold merge_vehicle les (en_vehicles en')\<rparr>
                  in (None, en'', set_active_vehicles en'' w'')))))"

section \<open>Process\<close>

definition feed_header :: "snapshot \<Rightarrow> instant" where
  "feed_header snap =
     (if sn_feed_timestamp snap > 0 then unix_time (wrap64 (sn_feed_timestamp snap))
      else sn_polled_at snap)"

definition note_header :: "instant \<Rightarrow> snapshot \<Rightarrow> engine \<times> 's sys \<Rightarrow> engine \<times> 's sys" where
  "note_header now snap s =
     (case s of (en, w) \<Rightarrow>
       (let header = feed_header snap
        in (if (case map_of (en_feed_header en) (sn_feed snap) of None \<Rightarrow> True | Some cur \<Rightarrow> header > cur)
            then en\<lparr>en_feed_header := al_put (sn_feed snap) header (en_feed_header en)\<rparr> else en,
            on_metrics (\<lambda>m. m\<lparr>mt_ingest_lag := (sn_feed snap, go_sub now header) # mt_ingest_lag m\<rparr>) w)))"

text \<open>The schedule version and location of a pass: nothing when no schedule is loaded.\<close>

definition resolve_version ::
    "'s deps \<Rightarrow> engine \<times> 's sys \<Rightarrow> (schedule_version \<times> location) option result \<times> engine \<times> 's sys" where
  "resolve_version dp s =
     (case s of (en, w) \<Rightarrow>
       (case sr_active_version (dp_sched dp) w of
          (Inr v, w') \<Rightarrow>
            (case engine_location dp (sv_agency_tz v) en of
               (Inl e, en') \<Rightarrow> (Inl e, en', w')
             | (Inr loc, en') \<Rightarrow>
                 (Inr (Some (v, loc)), en'\<lparr>en_cache := cache_set_version (sv_id v) (en_cache en')\<rparr>, w'))
        | (Inl e, w') \<Rightarrow>
            if errors_is e Not_found then (Inr None, en, w')
            else (Inl (Wrapped ''active schedule version'' e), en, w')))"

definition process ::
    "'s deps \<Rightarrow> go_error option \<Rightarrow> instant \<Rightarrow> snapshot option \<Rightarrow> engine \<times> 's sys \<Rightarrow>
      go_error option \<times> engine \<times> 's sys" where
  "process dp ctx_err now snap s =
     (case snap of
        None \<Rightarrow> (None, s)
      | Some sn \<Rightarrow>
          (case ctx_err of
             Some e \<Rightarrow> (Some e, s)
           | None \<Rightarrow>
               (case resolve_version dp s of
                  (Inl e, s') \<Rightarrow> (Some e, s')
                | (Inr vl, s') \<Rightarrow>
                    (case (if sn_feed sn = feed_trip_updates then process_trip_updates dp sn vl s'
                           else if sn_feed sn = feed_vehicle_positions
                           then process_vehicle_positions dp sn (map_option fst vl) s'
                           else (None, s')) of
                       (Some e, s'') \<Rightarrow> (Some e, s'')
                     | (None, s'') \<Rightarrow> (None, note_header now sn s'')))))"

section \<open>Sweep\<close>

definition live_ref :: "stop_event \<Rightarrow> instant" where
  "live_ref ev =
     (let r1 = se_predicted_arrival ev;
          r2 = (if is_zero r1 then se_scheduled_arrival ev else r1)
      in if is_zero r2 then se_observed_at ev else r2)"

definition sweep ::
    "'s deps \<Rightarrow> go_error option \<Rightarrow> instant \<Rightarrow> engine \<times> 's sys \<Rightarrow> go_error option \<times> engine \<times> 's sys" where
  "sweep dp ctx_err now s =
     (case ctx_err of
        Some e \<Rightarrow> (Some e, s)
      | None \<Rightarrow>
          (case s of (en, w) \<Rightarrow>
            (let en1 = en\<lparr>en_vehicles :=
                   filter (\<lambda>(i, le). \<not> go_sub now (le_updated_at le) > vehicle_ttl) (en_vehicles en)\<rparr>;
                 w1 = set_active_vehicles en1 w;
                 en2 = en1\<lparr>en_live_events :=
                   filter (\<lambda>(k, ev). \<not> go_sub now (live_ref ev) > en_finalize_grace en) (en_live_events en)\<rparr>
             in case es_finalize_due (dp_events dp) now (en_finalize_grace en) w1 of
                  ((n, Some e), w2) \<Rightarrow> (Some (Wrapped ''finalize due'' e), en2, w2)
                | ((n, None), w2) \<Rightarrow> (None, en2, on_metrics (add_finalized n) w2))))"

section \<open>The live source\<close>

definition next_by_trip ::
    "instant \<Rightarrow> (event_key \<times> stop_event) list \<Rightarrow> (string \<times> instant \<times> int option) list" where
  "next_by_trip now lives = fold (\<lambda>(k, ev) m.
      if se_final ev \<or> se_skipped ev \<or> is_zero (se_predicted_arrival ev) \<or> se_predicted_arrival ev < now
      then m
      else if (case map_of m (se_trip_id ev) of
                 None \<Rightarrow> True | Some (cur, delay) \<Rightarrow> se_predicted_arrival ev < cur)
      then al_put (se_trip_id ev) (se_predicted_arrival ev, se_delay_secs ev) m
      else m) lives []"

definition live_vehicle_of :: "(string \<times> instant \<times> int option) list \<Rightarrow> live_entry \<Rightarrow> live_vehicle" where
  "live_vehicle_of by_trip le =
     \<lparr>lv_position = le_vp le, lv_route_short_name = [], lv_headsign = le_headsign le,
      lv_delay_secs =
        (if vp_trip_id (le_vp le) = [] then None
         else case map_of by_trip (vp_trip_id (le_vp le)) of
           None \<Rightarrow> None | Some (at, delay) \<Rightarrow> delay),
      lv_updated_at = le_updated_at le\<rparr>"

text \<open>
  \<open>sort.Slice\<close> orders by the comparison given; elements it does not distinguish are in no
  particular order, here that of the map.
\<close>

definition live_vehicles :: "instant \<Rightarrow> engine \<Rightarrow> live_vehicle list" where
  "live_vehicles now en =
     sort_key (\<lambda>lv. vp_vehicle_id (lv_position lv))
       (map (live_vehicle_of (next_by_trip now (en_live_events en)) \<circ> snd) (en_vehicles en))"

definition upcoming :: "string \<Rightarrow> instant \<Rightarrow> instant \<Rightarrow> stop_event \<Rightarrow> bool" where
  "upcoming stop_id now end_time ev \<longleftrightarrow>
     se_stop_id ev = stop_id \<and> \<not> se_final ev \<and> \<not> se_skipped ev \<and>
     \<not> is_zero (se_predicted_arrival ev) \<and>
     \<not> se_predicted_arrival ev < now \<and> \<not> se_predicted_arrival ev > end_time"

definition upcoming_at_stop :: "string \<Rightarrow> duration \<Rightarrow> instant \<Rightarrow> engine \<Rightarrow> stop_event list" where
  "upcoming_at_stop stop_id horizon now en =
     sort_key (\<lambda>ev. (se_predicted_arrival ev, se_trip_id ev))
       (filter (upcoming stop_id now (go_add now horizon)) (map snd (en_live_events en)))"

definition feed_age :: "feed \<Rightarrow> instant \<Rightarrow> engine \<Rightarrow> duration option" where
  "feed_age feed now en = map_option (go_sub now) (map_of (en_feed_header en) feed)"


section \<open>The engine over its interfaces\<close>

text \<open>The events of one update as a function of the schedule alone.\<close>

definition update_events ::
    "(int \<Rightarrow> string \<Rightarrow> trip_schedule option) \<Rightarrow> snapshot \<Rightarrow> schedule_version \<Rightarrow> location \<Rightarrow>
      trip_update \<Rightarrow> stop_event list" where
  "update_events lk snap ver loc tu =
     (case lk (sv_id ver) (tu_trip_id tu) of
        None \<Rightarrow> []
      | Some ts \<Rightarrow> (case expand_trip tu snap ver loc ts of None \<Rightarrow> [] | Some evs \<Rightarrow> evs))"

definition snapshot_events ::
    "(int \<Rightarrow> string \<Rightarrow> trip_schedule option) \<Rightarrow> snapshot \<Rightarrow> (schedule_version \<times> location) option \<Rightarrow>
      trip_update list \<Rightarrow> stop_event list" where
  "snapshot_events lk snap vl tus =
     (case vl of None \<Rightarrow> [] | Some (ver, loc) \<Rightarrow> concat (map (update_events lk snap ver loc) tus))"

text \<open>
  The engine's part of an invariant: the live maps have one entry per key, under its own
  key, and the cached locations are those of the time-zone database.
\<close>

definition live_ok :: "engine \<Rightarrow> bool" where
  "live_ok en \<longleftrightarrow> al_wf (en_vehicles en) \<and> al_wf (en_live_events en) \<and> al_wf (en_feed_header en) \<and>
     list_all (\<lambda>(k, le). k = vp_vehicle_id (le_vp le) \<and> k \<noteq> []) (en_vehicles en) \<and>
     list_all (\<lambda>(k, ev). k = event_key_of ev) (en_live_events en)"

definition tz_ok :: "'s deps \<Rightarrow> engine \<Rightarrow> bool" where
  "tz_ok dp en \<longleftrightarrow> (\<forall>name loc. map_of (en_tz en) name = Some loc \<longrightarrow> dp_load_location dp name = Inr loc)"

lemma engine_location_result:
  "tz_ok dp en \<Longrightarrow> engine_location dp name en = (r, en') \<Longrightarrow>
     tz_ok dp en' \<and> en_cache en' = en_cache en \<and> en_vehicles en' = en_vehicles en \<and>
     en_live_events en' = en_live_events en \<and> en_feed_header en' = en_feed_header en \<and>
     en_finalize_grace en' = en_finalize_grace en \<and>
     (\<forall>loc. r = Inr loc \<longrightarrow> dp_load_location dp name = Inr loc)"
  by (auto simp: engine_location_def tz_ok_def split: option.splits sum.splits if_splits)

locale engine_env = event_contract es row + schedule_contract sr good active lookup
  for es :: "'s event_store" and row :: "'s sys \<Rightarrow> row_key \<Rightarrow> stop_event_row option"
    and sr :: "'s schedule_repo" and good :: "'s sys \<Rightarrow> bool"
    and active :: "'s sys \<Rightarrow> schedule_version option"
    and lookup :: "'s sys \<Rightarrow> int \<Rightarrow> string \<Rightarrow> trip_schedule option" +
  fixes dp :: "'s deps"
  assumes deps: "dp_sched dp = sr" "dp_events dp = es"
    and active_keeps: "good w \<Longrightarrow> row (snd (sr_active_version sr w)) = row w"
    and trip_keeps: "good w \<Longrightarrow> row (snd (sr_trip_schedule sr v trip w)) = row w"
    and upsert_schedule: "good w \<Longrightarrow> good (snd (es_upsert es evs w)) \<and>
      active (snd (es_upsert es evs w)) = active w \<and> lookup (snd (es_upsert es evs w)) = lookup w"
    and positions_schedule: "good w \<Longrightarrow> good (snd (es_insert_positions es ps w)) \<and>
      active (snd (es_insert_positions es ps w)) = active w \<and>
      lookup (snd (es_insert_positions es ps w)) = lookup w"
    and finalize_schedule: "good w \<Longrightarrow> good (snd (es_finalize_due es now grace w)) \<and>
      active (snd (es_finalize_due es now grace w)) = active w \<and>
      lookup (snd (es_finalize_due es now grace w)) = lookup w"
begin

definition ok :: "engine \<times> 's sys \<Rightarrow> bool" where
  "ok s \<longleftrightarrow> (case s of (en, w) \<Rightarrow>
     good w \<and> cache_faithful (lookup w) (en_cache en) \<and> cache_bounded (en_cache en) \<and> tz_ok dp en)"

text \<open>What a read of the schedule keeps.\<close>

definition same_world :: "engine \<times> 's sys \<Rightarrow> engine \<times> 's sys \<Rightarrow> bool" where
  "same_world s s' \<longleftrightarrow> ok s' \<and> row (snd s') = row (snd s) \<and> active (snd s') = active (snd s) \<and>
     lookup (snd s') = lookup (snd s) \<and>
     en_vehicles (fst s') = en_vehicles (fst s) \<and> en_live_events (fst s') = en_live_events (fst s) \<and>
     en_feed_header (fst s') = en_feed_header (fst s) \<and>
     en_finalize_grace (fst s') = en_finalize_grace (fst s)"

lemma same_world_trans: "same_world s s' \<Longrightarrow> same_world s' s'' \<Longrightarrow> same_world s s''"
  by (simp add: same_world_def)

lemma same_world_metrics: "ok (en, w) \<Longrightarrow> same_world (en, w) (en, on_metrics f w)"
  by (simp add: same_world_def ok_def good_metrics schedule_metrics metrics_keep)

lemma trip_schedule_result:
  assumes ok: "ok (en, w)" and call: "engine_trip_schedule dp v trip (en, w) = (r, en', w')"
  shows "same_world (en, w) (en', w')"
    and "case r of Inl e \<Rightarrow> errors_is e Not_found \<longrightarrow> lookup w v trip = None
         | Inr ts \<Rightarrow> lookup w v trip = Some ts"
proof -
  have g: "good w" and cf: "cache_faithful (lookup w) (en_cache en)"
    and cb: "cache_bounded (en_cache en)" and tz: "tz_ok dp en"
    using ok by (simp_all add: ok_def)
  obtain q w1 where q: "sr_trip_schedule sr v trip w = (q, w1)" by force
  note rd = trip_read [OF g q] and kp = trip_keeps [OF g, of v trip, unfolded q snd_conv]
  have put: "ok (en\<lparr>en_cache := cache_put v trip x (en_cache en)\<rparr>, w1)" if "lookup w v trip = x" for x
    using rd cache_put_faithful [OF cf that] cache_put_bounded [OF cb] tz
    by (simp add: ok_def tz_ok_def)
  have keep: "ok (en, w1)" using rd cf cb tz by (simp add: ok_def)
  consider (neg) "cache_get v trip (en_cache en) = Some None"
    | (pos) ts where "cache_get v trip (en_cache en) = Some (Some ts)"
    | (miss) "cache_get v trip (en_cache en) = None"
    by (cases "cache_get v trip (en_cache en)") auto
  then have "same_world (en, w) (en', w') \<and>
    (case r of Inl e \<Rightarrow> errors_is e Not_found \<longrightarrow> lookup w v trip = None
     | Inr ts \<Rightarrow> lookup w v trip = Some ts)"
  proof cases
    case neg
    then show ?thesis
      using ok call cache_get_faithful [OF cf neg]
      by (auto simp: engine_trip_schedule_def same_world_def)
  next
    case pos
    then show ?thesis
      using ok call cache_get_faithful [OF cf pos]
      by (auto simp: engine_trip_schedule_def same_world_def)
  next
    case miss
    show ?thesis
    proof (cases q)
      case (Inl e)
      then show ?thesis
        using call miss q rd kp put keep
        by (auto simp: engine_trip_schedule_def deps same_world_def split: if_splits)
    next
      case (Inr ts)
      then show ?thesis
        using call miss q rd kp put
        by (auto simp: engine_trip_schedule_def deps same_world_def)
    qed
  qed
  then show "same_world (en, w) (en', w')"
    and "case r of Inl e \<Rightarrow> errors_is e Not_found \<longrightarrow> lookup w v trip = None
         | Inr ts \<Rightarrow> lookup w v trip = Some ts" by auto
qed

lemma reconcile_trip_result:
  assumes ok: "ok (en, w)" and call: "reconcile_trip dp tu snap ver loc (en, w) = (r, s')"
  shows "same_world (en, w) s' \<and>
    (\<forall>evs. r = Inr evs \<longrightarrow> evs = update_events (lookup w) snap ver loc tu)"
proof -
  obtain q en1 w1 where q: "engine_trip_schedule dp (sv_id ver) (tu_trip_id tu) (en, w) = (q, en1, w1)"
    by (metis prod_cases3)
  note res = trip_schedule_result [OF ok q]
  then have "same_world (en1, w1) (en1, inc_unmatched w1)"
    by (intro same_world_metrics) (simp add: same_world_def)
  note inc = same_world_trans [OF res(1) this]
  show ?thesis
    using call res inc
    by (auto simp: reconcile_trip_def q update_events_def split: sum.splits option.splits if_splits)
qed

lemma collect_events_result:
  assumes "ok (en, w)" and "collect_events dp snap vl tus (en, w) = (r, s')"
  shows "same_world (en, w) s' \<and> (\<forall>evs. r = Inr evs \<longrightarrow> evs = snapshot_events (lookup w) snap vl tus)"
  using assms
proof (induction tus arbitrary: en w r s')
  case Nil
  then show ?case
    by (auto simp: same_world_def snapshot_events_def split: option.splits)
next
  case (Cons tu tus)
  show ?case
  proof (cases vl)
    case None
    have ok: "ok (en, inc_unmatched w)"
      using same_world_metrics [OF Cons.prems(1)] by (simp add: same_world_def)
    then show ?thesis
      using Cons.IH [OF ok] Cons.prems same_world_metrics [OF Cons.prems(1)] None
      by (auto intro: same_world_trans simp: snapshot_events_def)
  next
    case (Some p)
    obtain ver loc where p: "p = (ver, loc)" by force
    obtain q en1 w1 where q: "reconcile_trip dp tu snap ver loc (en, w) = (q, en1, w1)"
      by (metis prod_cases3)
    note res = reconcile_trip_result [OF Cons.prems(1) q]
    have ok1: "ok (en1, w1)" and lk: "lookup w1 = lookup w" using res by (auto simp: same_world_def)
    obtain q2 s2 where q2: "collect_events dp snap vl tus (en1, w1) = (q2, s2)"
      by (cases "collect_events dp snap vl tus (en1, w1)")
    note res2 = Cons.IH [OF ok1 q2]
    show ?thesis
      using Cons.prems(2) res res2 lk q q2 Some p same_world_trans
      by (auto simp: snapshot_events_def split: sum.splits)
  qed
qed

text \<open>What one step of the engine guarantees.\<close>

definition advances :: "engine \<times> 's sys \<Rightarrow> engine \<times> 's sys \<Rightarrow> bool" where
  "advances s s' \<longleftrightarrow> ok s' \<and> forward (snd s) (snd s') \<and> active (snd s') = active (snd s) \<and>
     lookup (snd s') = lookup (snd s)"

lemma same_world_advances: "same_world s s' \<Longrightarrow> advances s s'"
  by (simp add: same_world_def advances_def forward_same)

lemma advances_trans: "advances s s' \<Longrightarrow> advances s' s'' \<Longrightarrow> advances s s''"
  by (auto simp: advances_def intro: forward_trans)

lemma advances_engine:
  "advances s (en, w) \<Longrightarrow> en_cache en' = en_cache en \<Longrightarrow> en_tz en' = en_tz en \<Longrightarrow> advances s (en', w)"
  by (auto simp: advances_def ok_def tz_ok_def)

definition all_covered :: "stop_event list \<Rightarrow> 's sys \<Rightarrow> bool" where
  "all_covered evs w \<longleftrightarrow> (\<forall>e \<in> set evs. \<forall>day. date_from_service_date (se_service_date e) = Inr day \<longrightarrow>
     covers (row w (row_key day e)) e)"

lemma all_covered_forward: "all_covered evs w \<Longrightarrow> forward w w' \<Longrightarrow> all_covered evs w'"
  by (auto simp: all_covered_def intro: forward_covers)

lemma all_covered_rows: "row w' = row w \<Longrightarrow> all_covered evs w' = all_covered evs w"
  by (simp add: all_covered_def)

lemma resolve_version_result:
  assumes ok: "ok (en, w)" and call: "resolve_version dp (en, w) = (r, en', w')"
  shows "same_world (en, w) (en', w') \<and>
    (case r of Inl e \<Rightarrow> True
     | Inr vl \<Rightarrow> map_option fst vl = active w \<and>
         (\<forall>v loc. vl = Some (v, loc) \<longrightarrow> dp_load_location dp (sv_agency_tz v) = Inr loc))"
proof -
  have g: "good w" and tz: "tz_ok dp en" using ok by (simp_all add: ok_def)
  obtain q w1 where q: "sr_active_version sr w = (q, w1)" by force
  note rd = active_read [OF g q] and kp = active_keeps [OF g, unfolded q snd_conv]
  have keep: "same_world (en, w) (en, w1)" using rd kp ok by (simp add: same_world_def ok_def)
  show ?thesis
  proof (cases q)
    case (Inl e)
    then show ?thesis using call q rd keep by (auto simp: resolve_version_def deps split: if_splits)
  next
    case (Inr v)
    obtain l en1 where l: "engine_location dp (sv_agency_tz v) en = (l, en1)" by force
    note lc = engine_location_result [OF tz l]
    have "ok (en1, w1)" using keep lc by (auto simp: same_world_def ok_def)
    moreover from this have "ok (en1\<lparr>en_cache := cache_set_version (sv_id v) (en_cache en1)\<rparr>, w1)"
      by (auto simp: ok_def cache_faithful_set_version cache_set_version_bounded tz_ok_def)
    ultimately show ?thesis
      using call q l lc rd kp Inr keep
      by (cases l) (auto simp: resolve_version_def deps same_world_def)
  qed
qed

lemma trip_updates_result:
  assumes ok: "ok (en, w)" and call: "process_trip_updates dp snap vl (en, w) = (err, s')"
  defines "evs \<equiv> snapshot_events (lookup w) snap vl (sn_trip_updates snap)"
  shows "advances (en, w) s'"
    and "err = None \<Longrightarrow> all_covered evs (snd s')"
    and "all_covered evs w \<Longrightarrow> row (snd s') = row w"
proof -
  obtain q en1 w1 where q: "collect_events dp snap vl (sn_trip_updates snap) (en, w) = (q, en1, w1)"
    by (metis prod_cases3)
  note col = collect_events_result [OF ok q]
  have sw: "same_world (en, w) (en1, w1)" and ok1: "ok (en1, w1)"
    using col by (auto simp: same_world_def)
  have row1: "row w1 = row w" using sw by (simp add: same_world_def)
  have "advances (en, w) s' \<and> (err = None \<longrightarrow> all_covered evs (snd s')) \<and>
    (all_covered evs w \<longrightarrow> row (snd s') = row w)"
  proof (cases q)
    case (Inl e)
    then show ?thesis
      using call q sw by (auto simp: process_trip_updates_def same_world_def intro: same_world_advances)
  next
    case (Inr es')
    then have es': "es' = evs" using col by (simp add: evs_def)
    obtain n e w2 where u: "(if evs = [] then ((0, None), w1) else es_upsert es evs w1) = ((n, e), w2)"
      by (metis prod.exhaust)
    have w2: "forward w1 w2 \<and> good w2 \<and> active w2 = active w1 \<and> lookup w2 = lookup w1"
      using u ok1 forward_upsert [of w1 evs] upsert_schedule [of w1 evs]
      by (auto simp: ok_def split: if_splits)
    have cov: "e = None \<longrightarrow> all_covered evs w2"
      using u upsert_covers [of evs w1 n w2] by (auto simp: all_covered_def split: if_splits)
    have noop: "all_covered evs w1 \<longrightarrow> row w2 = row w1"
      using u upsert_noop [of evs w1 n e w2] by (auto simp: all_covered_def split: if_splits)
    have adv: "advances (en, w) (en1, w2)"
      using sw w2 ok1 by (auto simp: advances_def same_world_def ok_def forward_def)
    then have "advances (en, w) (en1\<lparr>en_live_events := fold mirror_event evs (en_live_events en1)\<rparr>, w2)"
      by (rule advances_engine) simp_all
    with adv show ?thesis
      using call [unfolded process_trip_updates_def deps q prod.case Inr sum.case es' u]
        cov noop row1 all_covered_rows [OF row1]
      by (cases e) auto
  qed
  then show "advances (en, w) s'" "err = None \<Longrightarrow> all_covered evs (snd s')"
    "all_covered evs w \<Longrightarrow> row (snd s') = row w" by auto
qed

lemma live_entry_result:
  assumes "ok (en, w)" and "live_entry_of dp snap ver vp (en, w) = (le, s')"
  shows "same_world (en, w) s' \<and> vp_vehicle_id (le_vp le) = vp_vehicle_id vp"
proof -
  have refl: "same_world (en, w) (en, w)" using assms(1) by (simp add: same_world_def)
  show ?thesis
  proof (cases "ver = None \<or> vp_trip_id vp = []")
    case True
    with assms(2) refl show ?thesis by (auto simp: live_entry_of_def Let_def split: option.splits)
  next
    case False
    then obtain v where v: "ver = Some v" "vp_trip_id vp \<noteq> []" by auto
    obtain q en1 w1 where q: "engine_trip_schedule dp (sv_id v) (vp_trip_id vp) (en, w) = (q, en1, w1)"
      by (metis prod_cases3)
    show ?thesis
      using assms(2) v q trip_schedule_result(1) [OF assms(1) q]
      by (cases q) (auto simp: live_entry_of_def Let_def)
  qed
qed

lemma live_entries_result:
  assumes "ok s" and "live_entries dp snap ver vps s = (les, s')"
  shows "same_world s s' \<and> (\<forall>le \<in> set les. vp_vehicle_id (le_vp le) \<noteq> [])"
  using assms
proof (induction vps arbitrary: s les s')
  case Nil
  then show ?case by (simp add: same_world_def)
next
  case (Cons vp vps)
  show ?case
  proof (cases "vp_vehicle_id vp = []")
    case True
    then show ?thesis using Cons by simp
  next
    case False
    obtain en w where s: "s = (en, w)" by force
    obtain le s1 where le: "live_entry_of dp snap ver vp s = (le, s1)" by (metis surj_pair)
    note r1 = live_entry_result [OF Cons.prems(1) [unfolded s] le [unfolded s]]
    obtain les2 s2 where l2: "live_entries dp snap ver vps s1 = (les2, s2)" by (metis surj_pair)
    have ok1: "ok s1" using r1 by (simp add: same_world_def)
    note r2 = Cons.IH [OF ok1 l2]
    have "les = le # les2" "s' = s2" using Cons.prems(2) False le l2 by auto
    moreover have "same_world s s2"
      using same_world_trans [of s s1 s2] r1 r2 by (simp add: s)
    ultimately show ?thesis using r1 r2 False by auto
  qed
qed

lemma vehicle_positions_result:
  assumes ok: "ok (en, w)" and call: "process_vehicle_positions dp snap ver (en, w) = (err, s')"
  shows "advances (en, w) s' \<and> row (snd s') = row w"
proof -
  obtain n e w1 where u: "(if sn_vehicles snap = [] then ((0, None), w)
      else es_insert_positions es (sn_vehicles snap) w) = ((n, e), w1)"
    by (metis prod.exhaust)
  have w1: "row w1 = row w \<and> good w1 \<and> active w1 = active w \<and> lookup w1 = lookup w"
    using u ok positions_keep [of "sn_vehicles snap" w] positions_schedule [of w "sn_vehicles snap"]
    by (auto simp: ok_def split: if_splits)
  then have sw1: "same_world (en, w) (en, w1)" using ok by (simp add: same_world_def ok_def)
  note call' = call [unfolded process_vehicle_positions_def deps prod.case u]
  show ?thesis
  proof (cases e)
    case (Some x)
    then have "s' = (en, w1)" using call' by simp
    then show ?thesis
      using same_world_advances [OF sw1] w1 by simp
  next
    case None
    obtain les en2 w2 where l: "live_entries dp snap ver (sn_vehicles snap) (en, w1) = (les, en2, w2)"
      by (metis prod_cases3)
    have "ok (en, w1)" using sw1 by (simp add: same_world_def)
    from live_entries_result [OF this l] have "same_world (en, w1) (en2, w2)" by simp
    with sw1 have sw2: "same_world (en, w) (en2, w2)" by (rule same_world_trans)
    let ?en3 = "en2\<lparr>en_vehicles := fold merge_vehicle les (en_vehicles en2)\<rparr>"
    have "same_world (en2, w2) (en2, set_active_vehicles ?en3 w2)"
      using sw2 by (intro same_world_metrics) (simp add: same_world_def)
    from same_world_trans [OF sw2 this]
    have sw3: "same_world (en, w) (en2, set_active_vehicles ?en3 w2)" .
    have "advances (en, w) (?en3, set_active_vehicles ?en3 w2)"
      by (rule advances_engine [OF same_world_advances [OF sw3]]) simp_all
    moreover have "s' = (?en3, set_active_vehicles ?en3 w2)"
      using call' None l by (simp add: Let_def)
    moreover have "row (set_active_vehicles ?en3 w2) = row w"
      using sw2 by (simp add: metrics_keep same_world_def)
    ultimately show ?thesis by simp
  qed
qed

lemma note_header_advances:
  assumes "ok s"
  shows "advances s (note_header now snap s) \<and> row (snd (note_header now snap s)) = row (snd s)"
  using assms forward_same
  by (cases s)
    (auto simp: note_header_def Let_def advances_def ok_def tz_ok_def good_metrics schedule_metrics
      metrics_keep)

lemma process_result:
  assumes ok: "ok s" and call: "process dp ctx now (Some sn) s = (err, s')"
  shows "advances s s'"
proof (cases ctx)
  case (Some e)
  then show ?thesis using ok call by (auto simp: process_def advances_def)
next
  case None
  obtain en w where s: "s = (en, w)" by force
  obtain r en1 w1 where rv: "resolve_version dp (en, w) = (r, en1, w1)" by (metis prod_cases3)
  note res = resolve_version_result [OF ok [unfolded s] rv]
  have sw: "same_world s (en1, w1)" using res s by simp
  have ok1: "ok (en1, w1)" using sw by (simp add: same_world_def)
  note adv1 = same_world_advances [OF sw]
  show ?thesis
  proof (cases r)
    case (Inl e)
    then show ?thesis using call None rv s adv1 by (simp add: process_def)
  next
    case (Inr vl)
    obtain q s2 where q: "(if sn_feed sn = feed_trip_updates then process_trip_updates dp sn vl (en1, w1)
        else if sn_feed sn = feed_vehicle_positions
        then process_vehicle_positions dp sn (map_option fst vl) (en1, w1)
        else (None, (en1, w1))) = (q, s2)"
      by (metis surj_pair)
    have "advances (en1, w1) s2"
      using q trip_updates_result(1) [OF ok1, of sn vl] ok1
        vehicle_positions_result [OF ok1, of sn "map_option fst vl"]
      by (auto simp: advances_def split: if_splits)
    with adv1 have adv2: "advances s s2" by (rule advances_trans)
    then have "ok s2" by (simp add: advances_def)
    note hd = note_header_advances [OF this, of now sn]
    show ?thesis
      using call [unfolded process_def s None option.case rv prod.case Inr sum.case q] hd adv2
        advances_trans
      by (cases q) auto
  qed
qed

lemma sweep_result:
  assumes ok: "ok s" and call: "sweep dp ctx now s = (err, s')"
  shows "advances s s'"
proof (cases ctx)
  case (Some e)
  then show ?thesis using ok call by (auto simp: sweep_def advances_def)
next
  case None
  obtain en w where s: "s = (en, w)" by force
  define en1 where "en1 = en\<lparr>en_vehicles :=
    filter (\<lambda>(i, le). \<not> go_sub now (le_updated_at le) > vehicle_ttl) (en_vehicles en)\<rparr>"
  define en2 where "en2 = en1\<lparr>en_live_events :=
    filter (\<lambda>(k, ev). \<not> go_sub now (live_ref ev) > en_finalize_grace en) (en_live_events en)\<rparr>"
  define w1 where "w1 = set_active_vehicles en1 w"
  obtain n e w2 where f: "es_finalize_due es now (en_finalize_grace en) w1 = ((n, e), w2)"
    by (metis prod.exhaust)
  have g1: "good w1" "row w1 = row w" "active w1 = active w" "lookup w1 = lookup w"
    using ok s by (auto simp: w1_def ok_def good_metrics metrics_keep schedule_metrics)
  have "forward w1 w2" using forward_finalize [of w1 now "en_finalize_grace en"] f by simp
  then have fw: "forward w w2" using g1(2) by (simp add: forward_def)
  have g2: "good w2 \<and> active w2 = active w \<and> lookup w2 = lookup w"
    using finalize_schedule [OF g1(1), of now "en_finalize_grace en"] f g1 by simp
  have adv: "advances s (en2, on_metrics h w2)" for h
    using ok fw g2 forward_trans [OF fw forward_same [OF metrics_keep]]
    by (auto simp: s advances_def ok_def en1_def en2_def tz_ok_def good_metrics schedule_metrics)
  have adv0: "advances s (en2, w2)"
    using ok fw g2 by (auto simp: s advances_def ok_def en1_def en2_def tz_ok_def)
  show ?thesis
    using call adv adv0 f
    by (cases e) (auto simp: sweep_def s None deps Let_def en1_def en2_def w1_def)
qed

end

section \<open>Histories of the engine\<close>

text \<open>Any order of snapshots, failed or not, and sweeps, at any times.\<close>

inductive engine_step :: "'s deps \<Rightarrow> engine \<times> 's sys \<Rightarrow> engine \<times> 's sys \<Rightarrow> bool" for dp where
  Process: "process dp ctx now snap s = (err, s') \<Longrightarrow> engine_step dp s s'"
| Sweep: "sweep dp ctx now s = (err, s') \<Longrightarrow> engine_step dp s s'"

inductive_cases engine_stepE: "engine_step dp s s'"

abbreviation engine_steps :: "'s deps \<Rightarrow> engine \<times> 's sys \<Rightarrow> engine \<times> 's sys \<Rightarrow> bool" where
  "engine_steps dp \<equiv> (engine_step dp)\<^sup>*\<^sup>*"

context engine_env begin

lemma step_advances:
  assumes "engine_step dp s s'" and "ok s"
  shows "advances s s'"
  using assms(1)
proof (rule engine_stepE)
  fix ctx now snap err
  assume call: "process dp ctx now snap s = (err, s')"
  show ?thesis
  proof (cases snap)
    case None
    then show ?thesis using call assms(2) by (auto simp: process_def advances_def)
  next
    case (Some sn)
    then show ?thesis using call process_result [OF assms(2)] by simp
  qed
next
  fix ctx now err
  assume "sweep dp ctx now s = (err, s')"
  then show ?thesis by (rule sweep_result [OF assms(2)])
qed

lemma steps_advance: "engine_steps dp s s' \<Longrightarrow> ok s \<Longrightarrow> advances s s'"
proof (induction rule: rtranclp_induct)
  case base
  then show ?case by (simp add: advances_def)
next
  case (step s1 s2)
  then have "ok s1" by (simp add: advances_def)
  then show ?case using step step_advances advances_trans by blast
qed

text \<open>
  A snapshot that was processed once is a no-op on the rows whenever it is processed again,
  after any history of other snapshots and sweeps.
\<close>

lemma process_covers:
  assumes ok: "ok s" and call: "process dp None now (Some sn) s = (None, s')"
    and feed: "sn_feed sn = feed_trip_updates"
  shows "\<exists>vl. map_option fst vl = active (snd s) \<and>
    (\<forall>v loc. vl = Some (v, loc) \<longrightarrow> dp_load_location dp (sv_agency_tz v) = Inr loc) \<and>
    all_covered (snapshot_events (lookup (snd s)) sn vl (sn_trip_updates sn)) (snd s')"
proof -
  obtain en w where s: "s = (en, w)" by force
  obtain r en1 w1 where rv: "resolve_version dp (en, w) = (r, en1, w1)" by (metis prod_cases3)
  note res = resolve_version_result [OF ok [unfolded s] rv]
  have ok1: "ok (en1, w1)" and lk: "lookup w1 = lookup w" using res by (auto simp: same_world_def)
  obtain vl where vl: "r = Inr vl"
    using call by (cases r) (auto simp: process_def s rv)
  obtain q s2 where q: "process_trip_updates dp sn vl (en1, w1) = (q, s2)" by (metis surj_pair)
  have q0: "q = None" and s': "s' = note_header now sn s2"
    using call [unfolded process_def s option.case rv prod.case vl sum.case feed if_P [OF refl] q]
    by (cases q; simp)+
  note tr = trip_updates_result [OF ok1 q]
  have "ok s2" using tr(1) by (simp add: advances_def)
  then have "row (snd s') = row (snd s2)" using note_header_advances s' by blast
  from all_covered_rows [OF this]
  have "all_covered (snapshot_events (lookup w) sn vl (sn_trip_updates sn)) (snd s')"
    using tr(2) [OF q0] lk by simp
  then show ?thesis using res vl by (intro exI [of _ vl]) (simp add: s)
qed

lemma process_covered_noop:
  assumes ok: "ok s" and call: "process dp ctx now (Some sn) s = (err, s')"
    and feed: "sn_feed sn = feed_trip_updates"
    and cov: "\<And>vl. map_option fst vl = active (snd s) \<Longrightarrow>
      \<forall>v loc. vl = Some (v, loc) \<longrightarrow> dp_load_location dp (sv_agency_tz v) = Inr loc \<Longrightarrow>
      all_covered (snapshot_events (lookup (snd s)) sn vl (sn_trip_updates sn)) (snd s)"
  shows "row (snd s') = row (snd s)"
proof (cases ctx)
  case (Some e)
  then show ?thesis using call by (auto simp: process_def)
next
  case None
  obtain en w where s: "s = (en, w)" by force
  obtain r en1 w1 where rv: "resolve_version dp (en, w) = (r, en1, w1)" by (metis prod_cases3)
  note res = resolve_version_result [OF ok [unfolded s] rv]
  have ok1: "ok (en1, w1)" and lk: "lookup w1 = lookup w" and row1: "row w1 = row w"
    using res by (auto simp: same_world_def)
  show ?thesis
  proof (cases r)
    case (Inl e)
    then show ?thesis using call row1 by (auto simp: process_def s rv None)
  next
    case (Inr vl)
    obtain q s2 where q: "process_trip_updates dp sn vl (en1, w1) = (q, s2)" by (metis surj_pair)
    note tr = trip_updates_result [OF ok1 q]
    have "all_covered (snapshot_events (lookup w1) sn vl (sn_trip_updates sn)) w1"
      using cov [of vl] res Inr lk by (simp add: s all_covered_rows [OF row1])
    then have "row (snd s2) = row w" using tr(3) row1 by simp
    moreover have "ok s2" using tr(1) by (simp add: advances_def)
    moreover have "s' = s2 \<or> s' = note_header now sn s2"
      using call [unfolded process_def s None option.case rv prod.case Inr sum.case feed
          if_P [OF refl] q]
      by (cases q) simp_all
    ultimately show ?thesis
      using note_header_advances [of s2 now sn] by (auto simp: s)
  qed
qed

lemma replay_noop:
  assumes "ok s" and "process dp None now (Some sn) s = (None, s1)"
    and "sn_feed sn = feed_trip_updates"
    and "engine_steps dp s1 s2" and "process dp ctx now' (Some sn) s2 = (err, s3)"
  shows "row (snd s3) = row (snd s2)"
proof -
  have adv1: "advances s s1" by (rule process_result [OF assms(1,2)])
  then have ok1: "ok s1" by (simp add: advances_def)
  have adv2: "advances s1 s2" by (rule steps_advance [OF assms(4) ok1])
  then have ok2: "ok s2" by (simp add: advances_def)
  obtain vl where vl: "map_option fst vl = active (snd s)"
    "\<forall>v loc. vl = Some (v, loc) \<longrightarrow> dp_load_location dp (sv_agency_tz v) = Inr loc"
    "all_covered (snapshot_events (lookup (snd s)) sn vl (sn_trip_updates sn)) (snd s1)"
    using process_covers [OF assms(1-3)] by blast
  have same: "active (snd s2) = active (snd s)" "lookup (snd s2) = lookup (snd s)"
    using adv1 adv2 by (auto simp: advances_def)
  have cov: "all_covered (snapshot_events (lookup (snd s)) sn vl (sn_trip_updates sn)) (snd s2)"
    using all_covered_forward [OF vl(3)] adv2 by (simp add: advances_def)
  have uniq: "vl' = vl" if "map_option fst vl' = active (snd s)"
    "\<forall>v loc. vl' = Some (v, loc) \<longrightarrow> dp_load_location dp (sv_agency_tz v) = Inr loc" for vl'
  proof -
    have "map_option fst vl' = map_option fst vl" using that(1) vl(1) by simp
    then show ?thesis using that(2) vl(2) by (cases vl'; cases vl) auto
  qed
  show ?thesis
    by (rule process_covered_noop [OF ok2 assms(5,3)]) (use uniq same cov in auto)
qed

lemma steps_final:
  "engine_steps dp s s' \<Longrightarrow> ok s \<Longrightarrow> row (snd s) k = Some r \<Longrightarrow> re_final r \<Longrightarrow> row (snd s') k = Some r"
  using steps_advance forward_final unfolding advances_def by blast

end


section \<open>The engine over the store\<close>

definition store_deps :: "(string \<Rightarrow> location result) \<Rightarrow> store deps" where
  "store_deps load =
     \<lparr>dp_sched = store_schedule, dp_events = store_events, dp_load_location = load\<rparr>"

text \<open>Writes of the event store leave the schedule and its cache alone.\<close>

definition keeps_schedule :: "store sys \<Rightarrow> store sys \<Rightarrow> bool" where
  "keeps_schedule w w' \<longleftrightarrow> same_schedule (sys_db w) (sys_db w') \<and>
     st_trip_cache (sys_store w') = st_trip_cache (sys_store w) \<and>
     st_trip_cache_version (sys_store w') = st_trip_cache_version (sys_store w) \<and>
     db_faults (sys_db w') \<in> {db_faults (sys_db w), tl (db_faults (sys_db w))}"

lemma keeps_schedule_ok:
  assumes "keeps_schedule w w'" and "store_ok w"
  shows "store_ok w' \<and> db_active (sys_db w') = db_active (sys_db w) \<and> store_lookup w' = store_lookup w"
proof -
  have "faults_ok (sys_db w)" using assms(2) by (simp add: store_ok_def)
  then have "faults_ok (sys_db w')"
    using assms(1) by (cases "db_faults (sys_db w)") (auto simp: keeps_schedule_def faults_ok_def)
  then have "store_ok w'"
    using assms by (intro store_ok_same [OF assms(2)]) (simp_all add: keeps_schedule_def)
  then show ?thesis
    using assms(1) same_schedule_reads [of "sys_db w" "sys_db w'"] by (auto simp: keeps_schedule_def)
qed

lemma upsert_keeps_schedule: "keeps_schedule w (snd (upsert_stop_events evs w))"
  by (auto simp: upsert_stop_events_def keeps_schedule_def same_schedule_def
      split: sum.splits prod.splits)

lemma insert_keeps_schedule: "keeps_schedule w (snd (insert_vehicle_positions ps w))"
  by (auto simp: insert_vehicle_positions_def keeps_schedule_def same_schedule_def Let_def
      split: prod.splits)

lemma finalize_keeps_schedule: "keeps_schedule w (snd (finalize_due now grace w))"
  by (auto simp: finalize_due_def db_exec_def finalize_stmt_def keeps_schedule_def same_schedule_def
      split: option.splits fault.splits)

lemma store_reads_keep_rows:
  assumes "store_ok w"
  shows "stored (snd (store_active_version w)) = stored w"
    and "stored (snd (store_trip_schedule v trip w)) = stored w"
proof -
  show "stored (snd (store_active_version w)) = stored w"
    using store_active_version_reads [OF _ assms] by (cases "store_active_version w") (auto simp: stored_def)
  show "stored (snd (store_trip_schedule v trip w)) = stored w"
    using store_trip_schedule_reads [OF _ assms]
    by (cases "store_trip_schedule v trip w") (auto simp: stored_def)
qed

interpretation pg_engine: engine_env store_events stored store_schedule store_ok
  "\<lambda>w. db_active (sys_db w)" store_lookup "store_deps load" for load
proof
  show "store_ok (snd (es_upsert store_events evs w)) \<and>
      db_active (sys_db (snd (es_upsert store_events evs w))) = db_active (sys_db w) \<and>
      store_lookup (snd (es_upsert store_events evs w)) = store_lookup w" if "store_ok w" for w evs
    using keeps_schedule_ok [OF upsert_keeps_schedule that] by (simp add: store_events_def)
  show "store_ok (snd (es_insert_positions store_events ps w)) \<and>
      db_active (sys_db (snd (es_insert_positions store_events ps w))) = db_active (sys_db w) \<and>
      store_lookup (snd (es_insert_positions store_events ps w)) = store_lookup w"
    if "store_ok w" for w ps
    using keeps_schedule_ok [OF insert_keeps_schedule that] by (simp add: store_events_def)
  show "store_ok (snd (es_finalize_due store_events now grace w)) \<and>
      db_active (sys_db (snd (es_finalize_due store_events now grace w))) = db_active (sys_db w) \<and>
      store_lookup (snd (es_finalize_due store_events now grace w)) = store_lookup w"
    if "store_ok w" for w now grace
    using keeps_schedule_ok [OF finalize_keeps_schedule that] by (simp add: store_events_def)
qed (simp_all add: store_deps_def store_schedule_def store_events_def store_reads_keep_rows)

section \<open>The live state\<close>

text \<open>Timestamps of the live maps only move forward while entries stay.\<close>

definition lives_le :: "(event_key \<times> stop_event) list \<Rightarrow> (event_key \<times> stop_event) list \<Rightarrow> bool" where
  "lives_le m m' \<longleftrightarrow> (\<forall>k ev. map_of m k = Some ev \<longrightarrow>
     (\<exists>ev'. map_of m' k = Some ev' \<and> se_feed_timestamp ev \<le> se_feed_timestamp ev'))"

definition vehicles_le :: "(string \<times> live_entry) list \<Rightarrow> (string \<times> live_entry) list \<Rightarrow> bool" where
  "vehicles_le m m' \<longleftrightarrow> (\<forall>k le. map_of m k = Some le \<longrightarrow>
     (\<exists>le'. map_of m' k = Some le' \<and> le_updated_at le \<le> le_updated_at le'))"

lemma lives_le_refl [simp]: "lives_le m m"
  by (auto simp: lives_le_def)

lemma vehicles_le_refl [simp]: "vehicles_le m m"
  by (auto simp: vehicles_le_def)

lemma lives_le_trans: "lives_le m m' \<Longrightarrow> lives_le m' m'' \<Longrightarrow> lives_le m m''"
  unfolding lives_le_def by (meson order_trans)

lemma vehicles_le_trans: "vehicles_le m m' \<Longrightarrow> vehicles_le m' m'' \<Longrightarrow> vehicles_le m m''"
  unfolding vehicles_le_def by (meson order_trans)

lemma mirror_event_le: "lives_le m (mirror_event ev m)"
  by (auto simp: lives_le_def mirror_event_def split: option.splits)

lemma fold_mirror_le: "lives_le m (fold mirror_event evs m)"
  by (rule fold_inv) (auto intro: lives_le_trans mirror_event_le)

lemma merge_vehicle_le: "vehicles_le m (merge_vehicle le m)"
  by (auto simp: vehicles_le_def merge_vehicle_def Let_def split: option.splits)

lemma fold_merge_le: "vehicles_le m (fold merge_vehicle les m)"
  by (rule fold_inv) (auto intro: vehicles_le_trans merge_vehicle_le)

text \<open>The mirror keeps, per key, the latest of the newest events.\<close>

lemma mirror_event_get:
  "map_of (mirror_event ev m) k =
     (if k = event_key_of ev \<and>
         \<not> (\<exists>cur. map_of m k = Some cur \<and> se_feed_timestamp cur > se_feed_timestamp ev)
      then Some ev else map_of m k)"
  by (auto simp: mirror_event_def split: option.splits)

lemma map_of_keyed:
  "al_wf m \<Longrightarrow> list_all (\<lambda>(k, v). P k v) m \<longleftrightarrow> (\<forall>k v. map_of m k = Some v \<longrightarrow> P k v)"
  by (auto simp: list_all_iff al_wf_mem)

lemma live_ok_mirror:
  assumes "al_wf m" and "list_all (\<lambda>(k, ev). k = event_key_of ev) m"
  shows "al_wf (fold mirror_event evs m) \<and>
    list_all (\<lambda>(k, ev). k = event_key_of ev) (fold mirror_event evs m)"
proof (rule fold_inv)
  show "al_wf m \<and> list_all (\<lambda>(k, ev). k = event_key_of ev) m" using assms by simp
  fix ev and m :: "(event_key \<times> stop_event) list"
  assume a: "al_wf m \<and> list_all (\<lambda>(k, ev). k = event_key_of ev) m"
  then have wf: "al_wf (mirror_event ev m)" by (auto simp: mirror_event_def split: option.splits)
  then show "al_wf (mirror_event ev m) \<and> list_all (\<lambda>(k, ev). k = event_key_of ev) (mirror_event ev m)"
    using a unfolding map_of_keyed [OF wf] by (auto simp: map_of_keyed mirror_event_get split: if_splits)
qed


lemma live_ok_merge:
  assumes "al_wf m" and "list_all (\<lambda>(k, le). k = vp_vehicle_id (le_vp le) \<and> k \<noteq> []) m"
    and "\<forall>le \<in> set les. vp_vehicle_id (le_vp le) \<noteq> []"
  shows "al_wf (fold merge_vehicle les m) \<and>
    list_all (\<lambda>(k, le). k = vp_vehicle_id (le_vp le) \<and> k \<noteq> []) (fold merge_vehicle les m)"
proof (rule fold_inv)
  show "al_wf m \<and> list_all (\<lambda>(k, le). k = vp_vehicle_id (le_vp le) \<and> k \<noteq> []) m" using assms by simp
  fix le and m :: "(string \<times> live_entry) list"
  assume le: "le \<in> set les"
    and a: "al_wf m \<and> list_all (\<lambda>(k, le). k = vp_vehicle_id (le_vp le) \<and> k \<noteq> []) m"
  then have wf: "al_wf (merge_vehicle le m)" by (auto simp: merge_vehicle_def Let_def split: option.splits)
  then show "al_wf (merge_vehicle le m) \<and>
      list_all (\<lambda>(k, le). k = vp_vehicle_id (le_vp le) \<and> k \<noteq> []) (merge_vehicle le m)"
    using a assms(3) le unfolding map_of_keyed [OF wf]
    by (auto simp: map_of_keyed merge_vehicle_def Let_def split: if_splits option.splits)
qed

text \<open>The part of the engine that only the ends of a pass write.\<close>

definition live_part :: "engine \<Rightarrow> (string \<times> live_entry) list \<times> (event_key \<times> stop_event) list \<times>
    (feed \<times> instant) list \<times> duration" where
  "live_part en = (en_vehicles en, en_live_events en, en_feed_header en, en_finalize_grace en)"

lemma trip_schedule_live: "engine_trip_schedule dp v t (en, w) = (r, en', w') \<Longrightarrow> live_part en' = live_part en"
  by (auto simp: engine_trip_schedule_def live_part_def split: option.splits sum.splits prod.splits if_splits)

lemma reconcile_trip_live:
  assumes "reconcile_trip dp tu snap ver loc (en, w) = (r, en', w')"
  shows "live_part en' = live_part en"
proof -
  obtain q en1 w1 where q: "engine_trip_schedule dp (sv_id ver) (tu_trip_id tu) (en, w) = (q, en1, w1)"
    by (metis prod_cases3)
  show ?thesis
    using assms trip_schedule_live [OF q]
    by (auto simp: reconcile_trip_def q split: sum.splits option.splits if_splits)
qed

lemma collect_events_live:
  "collect_events dp snap vl tus (en, w) = (r, en', w') \<Longrightarrow> live_part en' = live_part en"
proof (induction tus arbitrary: en w r)
  case (Cons tu tus)
  show ?case
  proof (cases vl)
    case None
    then show ?thesis using Cons by simp
  next
    case (Some p)
    obtain ver loc where p: "p = (ver, loc)" by force
    obtain q en1 w1 where q: "reconcile_trip dp tu snap ver loc (en, w) = (q, en1, w1)"
      by (metis prod_cases3)
    obtain q2 en2 w2 where q2: "collect_events dp snap vl tus (en1, w1) = (q2, en2, w2)"
      by (metis prod_cases3)
    have "en' = en1 \<or> en' = en2"
      using Cons.prems q q2 by (auto simp: Some p split: sum.splits)
    then show ?thesis
      using reconcile_trip_live [OF q] q2 Cons.IH [of en1 w1] Cons.prems q
      by (cases q; cases q2) (auto simp: Some p)
  qed
qed simp

lemma live_entries_live:
  "live_entries dp snap ver vps (en, w) = (les, en', w') \<Longrightarrow>
     live_part en' = live_part en \<and> (\<forall>le \<in> set les. vp_vehicle_id (le_vp le) \<noteq> [])"
proof (induction vps arbitrary: en w les)
  case (Cons vp vps)
  show ?case
  proof (cases "vp_vehicle_id vp = []")
    case True
    then show ?thesis using Cons by simp
  next
    case False
    obtain le en1 w1 where le: "live_entry_of dp snap ver vp (en, w) = (le, en1, w1)" by (metis prod_cases3)
    obtain les2 en2 w2 where l2: "live_entries dp snap ver vps (en1, w1) = (les2, en2, w2)"
      by (metis prod_cases3)
    have "live_part en1 = live_part en \<and> vp_vehicle_id (le_vp le) = vp_vehicle_id vp"
      using le by (auto simp: live_entry_of_def Let_def dest!: trip_schedule_live
          split: option.splits if_splits prod.splits sum.splits)
    moreover have "les = le # les2" "en' = en2" "w' = w2" using Cons.prems False le l2 by auto
    ultimately show ?thesis using Cons.IH [of en1 w1 les2] l2 False by auto
  qed
qed simp

definition headers_le :: "(feed \<times> instant) list \<Rightarrow> (feed \<times> instant) list \<Rightarrow> bool" where
  "headers_le m m' \<longleftrightarrow> (\<forall>k h. map_of m k = Some h \<longrightarrow> (\<exists>h'. map_of m' k = Some h' \<and> h \<le> h'))"

text \<open>What a pass does to the live state.\<close>

definition live_grows :: "engine \<Rightarrow> engine \<Rightarrow> bool" where
  "live_grows en en' \<longleftrightarrow>
     lives_le (en_live_events en) (en_live_events en') \<and>
     vehicles_le (en_vehicles en) (en_vehicles en') \<and>
     headers_le (en_feed_header en) (en_feed_header en') \<and> (live_ok en \<longrightarrow> live_ok en')"

lemma live_grows_part: "live_part en' = live_part en \<Longrightarrow> live_grows en en'"
  by (auto simp: live_grows_def live_part_def live_ok_def headers_le_def)

lemma live_grows_trans: "live_grows en en' \<Longrightarrow> live_grows en' en'' \<Longrightarrow> live_grows en en''"
  unfolding live_grows_def headers_le_def by (meson lives_le_trans vehicles_le_trans order_trans)

lemma note_header_live: "live_grows (fst s) (fst (note_header now snap s))"
  by (cases s) (auto simp: note_header_def Let_def live_grows_def headers_le_def live_ok_def
      split: option.splits)

lemma resolve_version_live:
  "resolve_version dp (en, w) = (r, en', w') \<Longrightarrow> live_part en' = live_part en"
  by (auto simp: resolve_version_def engine_location_def live_part_def
      split: prod.splits sum.splits option.splits if_splits)

lemma trip_updates_live:
  assumes "process_trip_updates dp snap vl (en, w) = (err, en', w')"
  shows "live_grows en en'"
proof -
  obtain q en1 w1 where q: "collect_events dp snap vl (sn_trip_updates snap) (en, w) = (q, en1, w1)"
    by (metis prod_cases3)
  note same = live_grows_part [OF collect_events_live [OF q]]
  have "live_grows en1 (en1\<lparr>en_live_events := fold mirror_event evs (en_live_events en1)\<rparr>)" for evs
    using fold_mirror_le live_ok_mirror by (auto simp: live_grows_def headers_le_def live_ok_def)
  then show ?thesis
    using assms same live_grows_trans [OF same]
    by (auto simp: process_trip_updates_def q split: sum.splits prod.splits option.splits if_splits)
qed

lemma vehicle_positions_live:
  assumes "process_vehicle_positions dp snap ver (en, w) = (err, en', w')"
  shows "live_grows en en'"
proof -
  obtain n e w1 where u: "(if sn_vehicles snap = [] then ((0, None), w)
      else es_insert_positions (dp_events dp) (sn_vehicles snap) w) = ((n, e), w1)"
    by (metis prod.exhaust)
  note call = assms [unfolded process_vehicle_positions_def prod.case u]
  show ?thesis
  proof (cases e)
    case (Some x)
    then show ?thesis using call live_grows_part [OF refl] by simp
  next
    case None
    obtain les en2 w2 where l: "live_entries dp snap ver (sn_vehicles snap) (en, w1) = (les, en2, w2)"
      by (metis prod_cases3)
    note le = live_entries_live [OF l]
    have "live_grows en2 (en2\<lparr>en_vehicles := fold merge_vehicle les (en_vehicles en2)\<rparr>)"
      using fold_merge_le live_ok_merge le by (auto simp: live_grows_def headers_le_def live_ok_def)
    then show ?thesis
      using call None l live_grows_trans [OF live_grows_part [OF conjunct1 [OF le]]]
      by (auto simp: Let_def)
  qed
qed

lemma process_live:
  assumes "process dp ctx now snap (en, w) = (err, en', w')"
  shows "live_grows en en'"
proof (cases "snap = None \<or> ctx \<noteq> None")
  case True
  then show ?thesis
    using assms live_grows_part [OF refl] by (auto simp: process_def split: option.splits)
next
  case False
  then obtain sn where sn: "snap = Some sn" and ctx: "ctx = None" by auto
  obtain r en1 w1 where rv: "resolve_version dp (en, w) = (r, en1, w1)" by (metis prod_cases3)
  note g1 = live_grows_part [OF resolve_version_live [OF rv]]
  show ?thesis
  proof (cases r)
    case (Inl e)
    then show ?thesis using assms g1 by (simp add: process_def sn ctx rv)
  next
    case (Inr vl)
    obtain q en2 w2 where q: "(if sn_feed sn = feed_trip_updates then process_trip_updates dp sn vl (en1, w1)
        else if sn_feed sn = feed_vehicle_positions
        then process_vehicle_positions dp sn (map_option fst vl) (en1, w1)
        else (None, (en1, w1))) = (q, en2, w2)"
      by (metis prod_cases3)
    have "live_grows en1 en2"
      using q trip_updates_live vehicle_positions_live live_grows_part [OF refl]
      by (auto split: if_splits)
    note g2 = live_grows_trans [OF g1 this]
    show ?thesis
      using assms [unfolded process_def sn ctx option.case rv prod.case Inr sum.case q]
        g2 live_grows_trans [OF g2 note_header_live [of "(en2, w2)" now sn, simplified]]
      by (cases q) auto
  qed
qed


section \<open>What the getters return\<close>

lemma sweep_live:
  assumes "sweep dp None now (en, w) = (err, en', w')"
  shows "en_vehicles en' = filter (\<lambda>(i, le). go_sub now (le_updated_at le) \<le> vehicle_ttl) (en_vehicles en)"
    and "en_live_events en' =
      filter (\<lambda>(k, ev). go_sub now (live_ref ev) \<le> en_finalize_grace en) (en_live_events en)"
    and "en_feed_header en' = en_feed_header en"
  using assms by (auto simp: sweep_def Let_def not_less split: prod.splits option.splits)

lemma upcoming_set:
  "set (upcoming_at_stop stop_id horizon now en) =
     {ev \<in> snd ` set (en_live_events en). upcoming stop_id now (go_add now horizon) ev}"
  by (auto simp: upcoming_at_stop_def)

lemma upcoming_sorted:
  "sorted (map (\<lambda>ev. (se_predicted_arrival ev, se_trip_id ev)) (upcoming_at_stop stop_id horizon now en))"
  unfolding upcoming_at_stop_def by (rule sorted_sort_key)

text \<open>The events a vehicle's delay may come from.\<close>

definition eligible :: "instant \<Rightarrow> stop_event \<Rightarrow> bool" where
  "eligible now ev \<longleftrightarrow> \<not> se_final ev \<and> \<not> se_skipped ev \<and> \<not> is_zero (se_predicted_arrival ev) \<and>
     now \<le> se_predicted_arrival ev"

definition next_step :: "instant \<Rightarrow> event_key \<times> stop_event \<Rightarrow>
    (string \<times> instant \<times> int option) list \<Rightarrow> (string \<times> instant \<times> int option) list" where
  "next_step now x m = (case x of (k, ev) \<Rightarrow>
      if se_final ev \<or> se_skipped ev \<or> is_zero (se_predicted_arrival ev) \<or> se_predicted_arrival ev < now
      then m
      else if (case map_of m (se_trip_id ev) of
                 None \<Rightarrow> True | Some (cur, delay) \<Rightarrow> se_predicted_arrival ev < cur)
      then al_put (se_trip_id ev) (se_predicted_arrival ev, se_delay_secs ev) m
      else m)"

definition next_ok :: "instant \<Rightarrow> (event_key \<times> stop_event) list \<Rightarrow>
    (string \<times> instant \<times> int option) list \<Rightarrow> bool" where
  "next_ok now xs m \<longleftrightarrow>
     (\<forall>trip t d. map_of m trip = Some (t, d) \<longrightarrow>
        (\<exists>ev \<in> snd ` set xs. eligible now ev \<and> se_trip_id ev = trip \<and>
           se_predicted_arrival ev = t \<and> se_delay_secs ev = d)) \<and>
     (\<forall>ev \<in> snd ` set xs. eligible now ev \<longrightarrow>
        (\<exists>t d. map_of m (se_trip_id ev) = Some (t, d) \<and> t \<le> se_predicted_arrival ev))"

lemma next_ok_Cons:
  assumes "next_ok now xs m"
    and "eligible now (snd x) \<Longrightarrow>
      \<exists>t d. map_of m (se_trip_id (snd x)) = Some (t, d) \<and> t \<le> se_predicted_arrival (snd x)"
  shows "next_ok now (x # xs) m"
  unfolding next_ok_def
proof (intro conjI allI impI ballI)
  fix trip t d
  assume "map_of m trip = Some (t, d)"
  then have "\<exists>ev \<in> snd ` set xs. eligible now ev \<and> se_trip_id ev = trip \<and>
      se_predicted_arrival ev = t \<and> se_delay_secs ev = d"
    using assms(1) unfolding next_ok_def by blast
  then show "\<exists>ev \<in> snd ` set (x # xs). eligible now ev \<and> se_trip_id ev = trip \<and>
      se_predicted_arrival ev = t \<and> se_delay_secs ev = d" by auto
next
  fix ev
  assume "ev \<in> snd ` set (x # xs)" and el: "eligible now ev"
  then consider "ev = snd x" | "ev \<in> snd ` set xs" by auto
  then show "\<exists>t d. map_of m (se_trip_id ev) = Some (t, d) \<and> t \<le> se_predicted_arrival ev"
  proof cases
    case 1
    then show ?thesis using assms(2) el by simp
  next
    case 2
    then show ?thesis using assms(1) el unfolding next_ok_def by blast
  qed
qed

lemma next_step_ok:
  assumes "next_ok now xs m"
  shows "next_ok now (x # xs) (next_step now x m)"
proof -
  obtain k ev where x: "x = (k, ev)" by force
  show ?thesis
  proof (cases "eligible now ev")
    case False
    then have st: "next_step now x m = m" by (auto simp: next_step_def x eligible_def)
    show ?thesis unfolding st using assms False by (intro next_ok_Cons) (simp_all add: x)
  next
    case el: True
    show ?thesis
    proof (cases "\<exists>t d. map_of m (se_trip_id ev) = Some (t, d) \<and> t \<le> se_predicted_arrival ev")
      case True
      then have st: "next_step now x m = m" by (auto simp: next_step_def x)
      show ?thesis unfolding st using assms True by (intro next_ok_Cons) (simp_all add: x)
    next
      case False
      then have st: "next_step now x m = al_put (se_trip_id ev) (se_predicted_arrival ev, se_delay_secs ev) m"
        using el by (auto simp: next_step_def x eligible_def split: option.splits)
      have "se_predicted_arrival ev \<le> se_predicted_arrival e"
        if e: "e \<in> snd ` set xs" "eligible now e" "se_trip_id e = se_trip_id ev" for e
      proof -
        have "\<exists>t d. map_of m (se_trip_id e) = Some (t, d) \<and> t \<le> se_predicted_arrival e"
          using assms e(1,2) unfolding next_ok_def by blast
        then obtain t d where "map_of m (se_trip_id ev) = Some (t, d)" "t \<le> se_predicted_arrival e"
          unfolding e(3) by blast
        moreover from this have "\<not> t \<le> se_predicted_arrival ev" using False by blast
        ultimately show ?thesis by linarith
      qed
      note older = this
      have one: "\<exists>e \<in> snd ` set (x # xs). eligible now e \<and> se_trip_id e = trip \<and>
          se_predicted_arrival e = t \<and> se_delay_secs e = d"
        if m: "map_of (next_step now x m) trip = Some (t, d)" for trip t d
      proof (cases "trip = se_trip_id ev")
        case True
        then show ?thesis using m [unfolded st] el by (auto simp: x)
      next
        case False
        then have "map_of m trip = Some (t, d)" using m by (simp add: st)
        then have "\<exists>e \<in> snd ` set xs. eligible now e \<and> se_trip_id e = trip \<and>
          se_predicted_arrival e = t \<and> se_delay_secs e = d"
          using assms unfolding next_ok_def by blast
        then show ?thesis by auto
      qed
      have two: "\<exists>t d. map_of (next_step now x m) (se_trip_id e) = Some (t, d) \<and> t \<le> se_predicted_arrival e"
        if e: "e \<in> snd ` set (x # xs)" "eligible now e" for e
      proof (cases "se_trip_id e = se_trip_id ev")
        case True
        then show ?thesis unfolding st using older [of e] e by (auto simp: x)
      next
        case False
        then have "e \<in> snd ` set xs" using e(1) by (auto simp: x)
        then have "\<exists>t d. map_of m (se_trip_id e) = Some (t, d) \<and> t \<le> se_predicted_arrival e"
          using assms e(2) unfolding next_ok_def by blast
        then show ?thesis using False by (simp add: st)
      qed
      show ?thesis using one two unfolding next_ok_def by blast
    qed
  qed
qed

lemma fold_next_ok:
  "next_ok now xs m \<Longrightarrow> next_ok now (rev ys @ xs) (fold (next_step now) ys m)"
proof (induction ys arbitrary: xs m)
  case (Cons y ys)
  from Cons.IH [OF next_step_ok [OF Cons.prems]] show ?case by simp
qed simp

lemma next_by_trip_ok: "next_ok now xs (next_by_trip now xs)"
proof -
  have "next_by_trip now xs = fold (next_step now) xs []"
    unfolding next_by_trip_def by (intro fold_cong) (auto simp: next_step_def fun_eq_iff)
  moreover have "next_ok now [] []" by (simp add: next_ok_def)
  ultimately have "next_ok now (rev xs) (next_by_trip now xs)"
    using fold_next_ok [of now "[]" "[]" xs] by simp
  then show ?thesis by (simp add: next_ok_def)
qed

lemma live_vehicles_sorted:
  assumes "live_ok en"
  shows "sorted_wrt (<) (map (\<lambda>lv. vp_vehicle_id (lv_position lv)) (live_vehicles now en))"
proof -
  let ?f = "\<lambda>lv. vp_vehicle_id (lv_position lv)"
  let ?xs = "map (live_vehicle_of (next_by_trip now (en_live_events en)) \<circ> snd) (en_vehicles en)"
  have keys: "map ?f ?xs = map fst (en_vehicles en)"
    using assms by (auto simp: live_ok_def list_all_iff live_vehicle_of_def)
  have "distinct (map ?f ?xs)"
    unfolding keys using assms by (simp add: live_ok_def al_wf_def)
  moreover have "mset (map ?f (live_vehicles now en)) = mset (map ?f ?xs)"
    unfolding live_vehicles_def mset_map mset_sort by (rule refl)
  ultimately have "distinct (map ?f (live_vehicles now en))"
    using mset_eq_imp_distinct_iff by blast
  moreover have "sorted (map ?f (live_vehicles now en))"
    unfolding live_vehicles_def by (rule sorted_sort_key)
  ultimately show ?thesis by (simp add: strict_sorted_iff)
qed

lemma live_vehicles_set:
  "set (live_vehicles now en) =
     (live_vehicle_of (next_by_trip now (en_live_events en)) \<circ> snd) ` set (en_vehicles en)"
  by (simp add: live_vehicles_def)


section \<open>The engine on a fresh store\<close>

text \<open>The invariant of the engine over the store, as the interpretation states it.\<close>

definition engine_ok :: "(string \<Rightarrow> location result) \<Rightarrow> engine \<times> store sys \<Rightarrow> bool" where
  "engine_ok load s \<longleftrightarrow> (case s of (en, w) \<Rightarrow>
     store_ok w \<and> cache_faithful (store_lookup w) (en_cache en) \<and> cache_bounded (en_cache en) \<and>
     tz_ok (store_deps load) en)"

lemma engine_ok_pg: "pg_engine.ok load s = engine_ok load s"
  by (simp add: pg_engine.ok_def engine_ok_def)

lemma cache_bounded_new: "cache_bounded (new_trip_cache n choices)"
  by (simp add: cache_bounded_def new_trip_cache_def)

lemma engine_ok_new:
  "store_ok w \<Longrightarrow> engine_ok load (new_engine grace choices, w)"
  by (simp add: engine_ok_def new_engine_def tz_ok_def cache_bounded_new)

lemma live_ok_new: "live_ok (new_engine grace choices)"
  by (simp add: live_ok_def new_engine_def)

lemma failed_trip_updates:
  assumes "process_trip_updates dp snap vl (en, w) = (Some e, en', w')"
  shows "live_part en' = live_part en"
proof -
  obtain q en1 w1 where q: "collect_events dp snap vl (sn_trip_updates snap) (en, w) = (q, en1, w1)"
    by (metis prod_cases3)
  show ?thesis
    using assms collect_events_live [OF q]
    by (auto simp: process_trip_updates_def q split: sum.splits prod.splits option.splits if_splits)
qed

lemma failed_vehicle_positions:
  assumes "process_vehicle_positions dp snap ver (en, w) = (Some e, en', w')"
  shows "live_part en' = live_part en"
proof -
  obtain n e1 w1 where u: "(if sn_vehicles snap = [] then ((0, None), w)
      else es_insert_positions (dp_events dp) (sn_vehicles snap) w) = ((n, e1), w1)"
    by (metis prod.exhaust)
  show ?thesis
    using assms [unfolded process_vehicle_positions_def prod.case u]
    by (auto simp: Let_def split: option.splits prod.splits)
qed

lemma unmatched_all:
  "collect_events dp snap None tus (en, w) =
     (Inr [], en, on_metrics (\<lambda>m. m\<lparr>mt_unmatched_trips := mt_unmatched_trips m + int (length tus)\<rparr>) w)"
proof (induction tus arbitrary: w)
  case Nil
  then show ?case by (simp add: on_metrics_def)
next
  case (Cons tu tus)
  then show ?case by (simp add: on_metrics_def)
qed

lemma finalize_due_count:
  "finalize_due now grace w = ((n, None), w') \<Longrightarrow>
     n = int (length (filter (\<lambda>(k, r). due (finalize_cutoff now grace) r) (db_stop_events (sys_db w)))) \<and>
     mt_stop_events_finalized (sys_metrics w') = mt_stop_events_finalized (sys_metrics w) + n"
  by (auto simp: finalize_due_def db_exec_def finalize_stmt_def
      split: option.splits fault.splits prod.splits)

section \<open>A sample\<close>

definition sample_load :: "string \<Rightarrow> location result" where
  "sample_load name = (if name = ''UTC'' then Inr utc else Inl (Message ''unknown time zone''))"

definition sample_db :: db where
  "sample_db = (empty_db [])
     \<lparr>db_versions := [(1, \<lparr>rv_sha256 = ''aa'', rv_feed_version = [], rv_agency_tz = ''UTC'',
          rv_fetched_at = 0, rv_loaded_at = Some 0, rv_active = True\<rparr>)],
      db_trips := [((1, ''T1''), \<lparr>rt_route_id = ''R'', rt_service_id = ''WK'', rt_headsign = ''Downtown'',
          rt_direction_id = 0, rt_shape_id = []\<rparr>)],
      db_stop_times := map (\<lambda>s. ((1, ''T1'', ss_stop_sequence s),
          \<lparr>rs_stop_id = ss_stop_id s, rs_arrival_secs = ss_arrival_secs s,
           rs_departure_secs = ss_departure_secs s\<rparr>)) sample_stops\<rparr>"

definition sample_world :: "engine \<times> store sys" where
  "sample_world = (new_engine (5 * minute) [], on_db (\<lambda>d. sample_db) (opened_store []))"

definition sample_snap :: snapshot where
  "sample_snap = sample_snapshot [sample_late]"

definition sample_processed :: "engine \<times> store sys" where
  "sample_processed = snd (process (store_deps sample_load) None (unix_time 1785578000) (Some sample_snap) sample_world)"

lemma sample_world_ok: "engine_ok sample_load sample_world"
  unfolding sample_world_def
  by (rule engine_ok_new) (simp add: store_ok_def faults_ok_def opened_store_def empty_db_def sample_db_def on_db_def)

lemma sample_process:
  "process (store_deps sample_load) None (unix_time 1785578000) (Some sample_snap) sample_world = (None, sample_processed)"
proof -
  have "fst (process (store_deps sample_load) None (unix_time 1785578000) (Some sample_snap) sample_world) = None"
    by code_simp
  then show ?thesis by (simp add: sample_processed_def prod_eq_iff)
qed


section \<open>Properties\<close>

text \<open>
  C13: replaying a snapshot is a no-op. Once a trip-updates snapshot was processed, processing
  it again leaves every row as it is, whatever other snapshots, sweeps and store failures
  came in between.
\<close>

theorem snapshot_replay_noop:
  assumes "engine_ok load s"
    and "process (store_deps load) None now (Some sn) s = (None, s1)"
    and "sn_feed sn = feed_trip_updates"
    and "engine_steps (store_deps load) s1 s2"
    and "process (store_deps load) ctx now' (Some sn) s2 = (err, s3)"
  shows "stored (snd s3) = stored (snd s2)"
  using assms pg_engine.replay_noop [of load s now sn s1 s2 ctx now' err s3] by (simp add: engine_ok_pg)

theorem snapshot_replay_noop_witness:
  "length (db_stop_events (sys_db (snd sample_processed))) = 3 \<and>
   stored (snd (snd (process (store_deps sample_load) None 0 (Some sample_snap) sample_processed)))
     = stored (snd sample_processed)"
proof -
  obtain err s3 where 3: "process (store_deps sample_load) None 0 (Some sample_snap) sample_processed = (err, s3)"
    by (metis surj_pair)
  have "sn_feed sample_snap = feed_trip_updates" by code_simp
  from snapshot_replay_noop [OF sample_world_ok sample_process this rtranclp.rtrancl_refl 3]
  have "stored (snd s3) = stored (snd sample_processed)" .
  moreover have "length (db_stop_events (sys_db (snd sample_processed))) = 3" by code_simp
  ultimately show ?thesis using 3 by simp
qed

text \<open>
  C26: the caches are transparent. After any history of the engine over its store, whatever
  either cache evicted, a trip schedule the engine gets is the one in the tables, and a trip
  it reports unknown is not in the tables; the engine's cache stays within its bound.
\<close>

theorem engine_lookup_transparent:
  assumes "engine_ok load s0" and "engine_steps (store_deps load) s0 (en, w)"
    and "engine_trip_schedule (store_deps load) v trip (en, w) = (r, en', w')"
  shows "(case r of Inl e \<Rightarrow> errors_is e Not_found \<longrightarrow> db_trip v trip (sys_db w) = None
          | Inr ts \<Rightarrow> db_trip v trip (sys_db w) = Some ts) \<and>
    int (length (tc_entries (en_cache en'))) \<le> max 1 (tc_max (en_cache en'))"
proof -
  have "pg_engine.ok load (en, w)"
    using pg_engine.steps_advance [OF assms(2)] assms(1)
    by (simp add: engine_ok_pg pg_engine.advances_def)
  from pg_engine.trip_schedule_result [OF this assms(3)]
  show ?thesis by (simp add: pg_engine.same_world_def pg_engine.ok_def cache_bounded_def)
qed

theorem engine_lookup_transparent_witness:
  "fst (engine_trip_schedule (store_deps sample_load) 1 ''T1'' sample_processed)
     = Inr (the (db_trip 1 ''T1'' (sys_db (snd sample_processed))))"
proof -
  obtain en w where s: "sample_processed = (en, w)" by force
  have "engine_step (store_deps sample_load) sample_world (en, w)"
    using sample_process unfolding s by (rule engine_step.Process)
  then have st: "engine_steps (store_deps sample_load) sample_world (en, w)" by simp
  obtain r en' w' where r: "engine_trip_schedule (store_deps sample_load) 1 ''T1'' (en, w) = (r, en', w')"
    by (metis prod_cases3)
  have "\<not> isl (fst (engine_trip_schedule (store_deps sample_load) 1 ''T1'' sample_processed))"
    by code_simp
  then obtain ts where "r = Inr ts" using r unfolding s by (cases r) auto
  with engine_lookup_transparent [OF sample_world_ok st r] r show ?thesis unfolding s by simp
qed

text \<open>
  C25: the live state never regresses. Whatever a pass does, over whatever stores, no live
  event or vehicle is dropped or replaced by one with an older timestamp, no feed header
  moves back, and the live maps keep one entry per key, under its own key.
\<close>

theorem live_state_monotone:
  assumes "process dp ctx now snap (en, w) = (err, en', w')"
  shows "(\<forall>k ev. map_of (en_live_events en) k = Some ev \<longrightarrow>
      (\<exists>ev'. map_of (en_live_events en') k = Some ev' \<and> se_feed_timestamp ev \<le> se_feed_timestamp ev')) \<and>
    (\<forall>k le. map_of (en_vehicles en) k = Some le \<longrightarrow>
      (\<exists>le'. map_of (en_vehicles en') k = Some le' \<and> le_updated_at le \<le> le_updated_at le')) \<and>
    (\<forall>feed h. map_of (en_feed_header en) feed = Some h \<longrightarrow>
      (\<exists>h'. map_of (en_feed_header en') feed = Some h' \<and> h \<le> h')) \<and>
    (live_ok en \<longrightarrow> live_ok en')"
  using process_live [OF assms]
  unfolding live_grows_def lives_le_def vehicles_le_def headers_le_def .

theorem live_state_monotone_witness: "live_ok (fst sample_processed)"
proof -
  obtain en w where s: "sample_processed = (en, w)" by force
  have "process (store_deps sample_load) None (unix_time 1785578000) (Some sample_snap)
      (new_engine (5 * minute) [], snd sample_world) = (None, en, w)"
    using sample_process s by (simp add: sample_world_def)
  from live_state_monotone [OF this] live_ok_new show ?thesis unfolding s by auto
qed

text \<open>
  A failed pass is invisible to riders. When \<open>Process\<close> returns an error, the live
  vehicles, the live events and the feed headers are exactly as before.
\<close>

theorem failed_pass_invisible:
  assumes "process dp ctx now snap (en, w) = (Some e, en', w')"
  shows "en_vehicles en' = en_vehicles en \<and> en_live_events en' = en_live_events en \<and>
    en_feed_header en' = en_feed_header en"
proof -
  have "live_part en' = live_part en"
  proof (cases "snap = None \<or> ctx \<noteq> None")
    case True
    then show ?thesis using assms by (auto simp: process_def split: option.splits)
  next
    case False
    then obtain sn where sn: "snap = Some sn" and ctx: "ctx = None" by auto
    obtain r en1 w1 where rv: "resolve_version dp (en, w) = (r, en1, w1)" by (metis prod_cases3)
    note same = resolve_version_live [OF rv]
    show ?thesis
    proof (cases r)
      case (Inl e)
      then show ?thesis using assms same by (simp add: process_def sn ctx rv)
    next
      case (Inr vl)
      obtain q en2 w2 where q: "(if sn_feed sn = feed_trip_updates then process_trip_updates dp sn vl (en1, w1)
          else if sn_feed sn = feed_vehicle_positions
          then process_vehicle_positions dp sn (map_option fst vl) (en1, w1)
          else (None, (en1, w1))) = (q, en2, w2)"
        by (metis prod_cases3)
      have "q = Some e" "en' = en2"
        using assms [unfolded process_def sn ctx option.case rv prod.case Inr sum.case q]
        by (cases q; simp)+
      then have "live_part en' = live_part en1"
        using q failed_trip_updates [of dp sn vl en1 w1 e en2 w2]
          failed_vehicle_positions [of dp sn "map_option fst vl" en1 w1 e en2 w2]
        by (simp split: if_splits)
      with same show ?thesis by simp
    qed
  qed
  then show ?thesis by (simp add: live_part_def)
qed

text \<open>
  A sweep ages out exactly what is stale: the vehicles not updated for more than three
  minutes, and the live events whose predicted, else scheduled, else observed time is more
  than the grace period ago. It leaves the feed headers alone, also when finalization fails.
\<close>

theorem sweep_exact:
  assumes "sweep dp None now (en, w) = (err, en', w')"
  shows "((i, le) \<in> set (en_vehicles en') \<longleftrightarrow>
      (i, le) \<in> set (en_vehicles en) \<and> go_sub now (le_updated_at le) \<le> vehicle_ttl) \<and>
    ((k, ev) \<in> set (en_live_events en') \<longleftrightarrow>
      (k, ev) \<in> set (en_live_events en) \<and> go_sub now (live_ref ev) \<le> en_finalize_grace en) \<and>
    en_feed_header en' = en_feed_header en"
  using sweep_live [OF assms] by auto

text \<open>
  \<open>UpcomingAtStop\<close> returns exactly the open, unskipped live events at the stop whose
  prediction lies between now and the horizon, soonest first, ties by trip.
\<close>

theorem upcoming_exact:
  "set (upcoming_at_stop stop_id horizon now en) = {ev \<in> snd ` set (en_live_events en).
      se_stop_id ev = stop_id \<and> \<not> se_final ev \<and> \<not> se_skipped ev \<and> \<not> is_zero (se_predicted_arrival ev) \<and>
      now \<le> se_predicted_arrival ev \<and> se_predicted_arrival ev \<le> go_add now horizon} \<and>
   sorted (map (\<lambda>ev. (se_predicted_arrival ev, se_trip_id ev)) (upcoming_at_stop stop_id horizon now en)) \<and>
   length (upcoming_at_stop stop_id horizon now en) =
     length (filter (\<lambda>(k, ev). upcoming stop_id now (go_add now horizon) ev) (en_live_events en))"
proof -
  have "length (filter P (map snd xs)) = length (filter (\<lambda>(k, ev). P ev) xs)"
    for P and xs :: "(event_key \<times> stop_event) list"
    by (simp add: filter_map comp_def split_def)
  then show ?thesis
    using upcoming_sorted by (simp add: upcoming_set upcoming_def not_less conj_assoc)
      (simp add: upcoming_at_stop_def upcoming_def not_less)
qed

text \<open>
  \<open>LiveVehicles\<close> returns every live vehicle once, in ascending order of its id, and its
  delay is that of the earliest upcoming event of its trip, if that event has one.
\<close>

theorem live_vehicles_exact:
  assumes "live_ok en"
  shows "sorted_wrt (<) (map (\<lambda>lv. vp_vehicle_id (lv_position lv)) (live_vehicles now en)) \<and>
    lv_position ` set (live_vehicles now en) = (\<lambda>(i, le). le_vp le) ` set (en_vehicles en) \<and>
    (\<forall>lv \<in> set (live_vehicles now en). \<forall>d. lv_delay_secs lv = Some d \<longrightarrow>
      (\<exists>ev \<in> snd ` set (en_live_events en). eligible now ev \<and>
        se_trip_id ev = vp_trip_id (lv_position lv) \<and> se_delay_secs ev = Some d \<and>
        (\<forall>ev' \<in> snd ` set (en_live_events en). eligible now ev' \<and> se_trip_id ev' = se_trip_id ev \<longrightarrow>
          se_predicted_arrival ev \<le> se_predicted_arrival ev')))"
proof (intro conjI ballI allI impI)
  show "sorted_wrt (<) (map (\<lambda>lv. vp_vehicle_id (lv_position lv)) (live_vehicles now en))"
    by (rule live_vehicles_sorted [OF assms])
  show "lv_position ` set (live_vehicles now en) = (\<lambda>(i, le). le_vp le) ` set (en_vehicles en)"
    by (force simp: live_vehicles_set live_vehicle_of_def)
next
  fix lv d
  assume lv: "lv \<in> set (live_vehicles now en)" and d: "lv_delay_secs lv = Some d"
  let ?m = "next_by_trip now (en_live_events en)" and ?trip = "vp_trip_id (lv_position lv)"
  obtain t where t: "map_of ?m ?trip = Some (t, Some d)"
    using lv d by (auto simp: live_vehicles_set live_vehicle_of_def split: if_splits option.splits)
  note ok = next_by_trip_ok [of now "en_live_events en", unfolded next_ok_def]
  obtain ev where ev: "ev \<in> snd ` set (en_live_events en)" "eligible now ev" "se_trip_id ev = ?trip"
    "se_predicted_arrival ev = t" "se_delay_secs ev = Some d"
    using conjunct1 [OF ok] t by blast
  have "se_predicted_arrival ev \<le> se_predicted_arrival ev'"
    if e: "ev' \<in> snd ` set (en_live_events en)" "eligible now ev'" "se_trip_id ev' = se_trip_id ev" for ev'
  proof -
    have "\<exists>u x. map_of ?m (se_trip_id ev') = Some (u, x) \<and> u \<le> se_predicted_arrival ev'"
      using conjunct2 [OF ok] e(1,2) by blast
    then show ?thesis using t ev(3,4) e(3) by auto
  qed
  then show "\<exists>ev \<in> snd ` set (en_live_events en). eligible now ev \<and>
      se_trip_id ev = vp_trip_id (lv_position lv) \<and> se_delay_secs ev = Some d \<and>
      (\<forall>ev' \<in> snd ` set (en_live_events en). eligible now ev' \<and> se_trip_id ev' = se_trip_id ev \<longrightarrow>
        se_predicted_arrival ev \<le> se_predicted_arrival ev')"
    using ev by blast
qed

definition sample_vehicle :: "string \<Rightarrow> live_entry" where
  "sample_vehicle i =
     \<lparr>le_vp = \<lparr>vp_vehicle_id = i, vp_label = [], vp_trip_id = ''T1'', vp_route_id = ''R'', vp_start_date = [],
        vp_lat = 0, vp_lon = 0, vp_bearing = 0, vp_speed_mps = 0, vp_stop_sequence = 2, vp_stop_id = [],
        vp_status = [], vp_timestamp = 0\<rparr>,
      le_headsign = ''Downtown'', le_updated_at = unix_time 1785578000\<rparr>"

text \<open>
  Every finalized stop event is counted twice. The store adds the rows it froze to the
  finalized counter and the sweep adds them again.
\<close>

theorem sweep_counts_twice:
  assumes "sweep (store_deps load) None now (en, w) = (None, en', w')"
  shows "mt_stop_events_finalized (sys_metrics w') = mt_stop_events_finalized (sys_metrics w) +
    2 * int (length (filter (\<lambda>(k, r). due (finalize_cutoff now (en_finalize_grace en)) r)
      (db_stop_events (sys_db w))))"
  using assms
  by (auto simp: sweep_def Let_def store_deps_def store_events_def split: prod.splits option.splits
      dest!: finalize_due_count)

text \<open>
  Without a static schedule nothing is derived. When no version is active, \<open>Process\<close>
  succeeds, counts every trip of the snapshot as unmatched, and writes no stop event.
\<close>

theorem process_without_schedule:
  assumes "sr_active_version (dp_sched dp) w = (Inl e, w1)" and "errors_is e Not_found"
    and "sn_feed sn = feed_trip_updates"
    and "process dp None now (Some sn) (en, w) = (err, en', w')"
  shows "err = None \<and> sys_store w' = sys_store w1 \<and> en_live_events en' = en_live_events en \<and>
    mt_unmatched_trips (sys_metrics w') =
      mt_unmatched_trips (sys_metrics w1) + int (length (sn_trip_updates sn))"
  using assms
  by (auto simp: process_def resolve_version_def process_trip_updates_def unmatched_all
      note_header_def Let_def)

theorem process_without_schedule_witness:
  "mt_unmatched_trips (sys_metrics (snd (snd (process (store_deps sample_load) None 0 (Some sample_snap)
      (new_engine 0 [], opened_store []))))) = 1"
proof -
  obtain w1 e where a: "store_active_version (opened_store []) = (Inl e, w1)" and nf: "errors_is e Not_found"
    by (simp add: store_active_version_def db_query_def next_fault_def opened_store_def empty_db_def db_active_def)
  obtain err en' w' where p: "process (store_deps sample_load) None 0 (Some sample_snap)
      (new_engine 0 [], opened_store []) = (err, en', w')" by (metis prod_cases3)
  have sr: "sr_active_version (dp_sched (store_deps sample_load)) (opened_store []) = (Inl e, w1)"
    using a by (simp add: store_deps_def store_schedule_def)
  have feed: "sn_feed sample_snap = feed_trip_updates" by code_simp
  have "sys_metrics w1 = zero_metrics"
    using a by (auto simp: store_active_version_def db_query_def next_fault_def opened_store_def
        empty_db_def db_active_def)
  with process_without_schedule [OF sr nf feed p] p show ?thesis
    by (simp add: zero_metrics_def sample_snap_def sample_snapshot_def)
qed

end
