(* ===== verification/Push.thy ===== *)
theory Push
  imports Subscriptions Queries Engine
begin

text \<open>
  \<open>internal/push/push.go\<close>: one pass over the subscriptions. The web push request is a
  parameter \<open>send\<close> whose answer may depend on everything sent before; the requests made
  are recorded. The live state, the subscriptions and the queries are interfaces.

  A \<open>time.Time\<close> carries its location: \<open>agency\<close> is that of the scheduled arrivals,
  \<open>process_zone\<close> that of the other instants.
\<close>

section \<open>The text of an alert\<close>

record push_payload =
  pl_title :: string
  pl_body :: string
  pl_url :: string

definition default_horizon :: duration where
  "default_horizon = 45 * minute"

definition push_horizon :: "duration \<Rightarrow> duration" where
  "push_horizon configured = (if configured \<le> 0 then default_horizon else configured)"

definition arrival_clock :: "location \<Rightarrow> location \<Rightarrow> stop_event \<Rightarrow> string" where
  "arrival_clock agency process_zone ev =
     (let sched = se_scheduled_arrival ev; pred = se_predicted_arrival ev;
          (t, zone) = (if is_zero sched then (pred, process_zone) else (sched, agency))
      in if is_zero t then ''upcoming''
         else let h = local_hour zone t; m = local_minute zone t; h12 = h mod 12
              in fmt_d (if h12 = 0 then 12 else h12) @ '':'' @ fmt_0d 2 m @ '' '' @
                 (if h \<ge> 12 then ''PM'' else ''AM''))"

text \<open>
  \<open>int(math.Round(float64(d) / 60))\<close>: halves away from zero. Below \<open>2 ^ 46\<close> the quotient
  is too far from every half for its rounding to matter, unless it is one exactly.
\<close>

definition delay_minutes :: "int \<Rightarrow> int" where
  "delay_minutes d = (if d \<ge> 0 then (d + 30) div 60 else - ((- d + 30) div 60))"

section \<open>Names\<close>

type_synonym names = "(string \<times> string) list"

definition stop_name :: "'s stop_queries \<Rightarrow> string \<Rightarrow> names \<Rightarrow> 's sys \<Rightarrow> string \<times> names \<times> 's sys" where
  "stop_name q i cache w =
     (case map_of cache i of
        Some n \<Rightarrow> (n, cache, w)
      | None \<Rightarrow>
          (case sq_stop q i w of (r, w') \<Rightarrow>
            let n = (case r of Inr s \<Rightarrow> if sto_name s \<noteq> [] then sto_name s else i | Inl e \<Rightarrow> i)
            in (n, al_put i n cache, w')))"

definition route_name :: "'s stop_queries \<Rightarrow> string \<Rightarrow> names \<Rightarrow> 's sys \<Rightarrow> string \<times> names \<times> 's sys" where
  "route_name q i cache w =
     (case map_of cache i of
        Some n \<Rightarrow> (n, cache, w)
      | None \<Rightarrow>
          (case sq_route q i w of (r, w') \<Rightarrow>
            let n = (case r of Inr s \<Rightarrow> if rou_short_name s \<noteq> [] then rou_short_name s else i | Inl e \<Rightarrow> i)
            in (n, al_put i n cache, w')))"

section \<open>The evaluator\<close>

record push_request =
  pr_subscription :: subscription
  pr_event :: stop_event
  pr_payload :: push_payload

record 's evaluator =
  pe_horizon :: duration
  pe_subs :: "'s subscription_store"
  pe_live :: "'s live_source"
  pe_queries :: "'s stop_queries"
  pe_send :: "push_request list \<Rightarrow> subscription \<Rightarrow> push_payload \<Rightarrow> int result"
  pe_agency :: location
  pe_process_zone :: location

definition new_evaluator :: "duration \<Rightarrow> 's subscription_store \<Rightarrow> 's live_source \<Rightarrow> 's stop_queries \<Rightarrow>
    (push_request list \<Rightarrow> subscription \<Rightarrow> push_payload \<Rightarrow> int result) \<Rightarrow> location \<Rightarrow> location \<Rightarrow> 's evaluator" where
  "new_evaluator horizon subs live q send agency zone =
     \<lparr>pe_horizon = push_horizon horizon, pe_subs = subs, pe_live = live, pe_queries = q, pe_send = send,
      pe_agency = agency, pe_process_zone = zone\<rparr>"

text \<open>What a pass carries along: the name caches, the requests so far, and the state outside.\<close>

record 's pass =
  ps_stop_names :: names
  ps_route_names :: names
  ps_sent :: "push_request list"
  ps_sys :: "'s sys"

datatype push_outcome = Push_ok | Push_gone | Push_error

primrec outcome_label :: "push_outcome \<Rightarrow> string" where
  "outcome_label Push_ok = ''ok''"
| "outcome_label Push_gone = ''gone''"
| "outcome_label Push_error = ''error''"

definition send_outcome :: "int result \<Rightarrow> push_outcome" where
  "send_outcome r = (case r of
     Inl e \<Rightarrow> Push_error
   | Inr status \<Rightarrow>
       if status = 404 \<or> status = 410 then Push_gone
       else if 200 \<le> status \<and> status < 300 then Push_ok else Push_error)"

definition alert_payload :: "string \<Rightarrow> string \<Rightarrow> string \<Rightarrow> int \<Rightarrow> string \<Rightarrow> push_payload" where
  "alert_payload route stop clock d stop_id =
     \<lparr>pl_title = ''Route '' @ route @ '' delayed'',
      pl_body = stop @ '': '' @ clock @ '' arrival running '' @ fmt_d (delay_minutes d) @ '' min late'',
      pl_url = ''/stop/'' @ stop_id\<rparr>"

definition deliver :: "'s evaluator \<Rightarrow> subscription \<Rightarrow> stop_event \<Rightarrow> int \<Rightarrow> 's pass \<Rightarrow> 's pass" where
  "deliver pe sub ev d p =
     (let (route, routes, w1) = route_name (pe_queries pe) (se_route_id ev) (ps_route_names p) (ps_sys p);
          (stop, stops, w2) = stop_name (pe_queries pe) (sub_stop_id sub) (ps_stop_names p) w1;
          payload = alert_payload route stop (arrival_clock (pe_agency pe) (pe_process_zone pe) ev) d (sub_stop_id sub);
          outcome = send_outcome (pe_send pe (ps_sent p) sub payload);
          w3 = on_metrics (\<lambda>m. m\<lparr>mt_push_sent := outcome_label outcome # mt_push_sent m\<rparr>) w2;
          (e, w4) = ss_record_result (pe_subs pe) (sub_id sub) (outcome = Push_ok) (outcome = Push_gone) w3
      in \<lparr>ps_stop_names = stops, ps_route_names = routes,
          ps_sent = ps_sent p @ [\<lparr>pr_subscription = sub, pr_event = ev, pr_payload = payload\<rparr>], ps_sys = w4\<rparr>)"

text \<open>The three \<open>continue\<close>s that filter an event: route, direction, and delay.\<close>

definition alertable :: "subscription \<Rightarrow> stop_event \<Rightarrow> int option" where
  "alertable sub ev =
     (if sub_route_id sub \<noteq> [] \<and> se_route_id ev \<noteq> sub_route_id sub then None
      else if sub_direction_id sub \<ge> 0 \<and> se_direction_id ev \<noteq> sub_direction_id sub then None
      else if se_skipped ev then None
      else case se_delay_secs ev of
          None \<Rightarrow> None
        | Some d \<Rightarrow> if d < sub_threshold_secs sub then None else Some d)"

definition evaluate_event :: "'s evaluator \<Rightarrow> subscription \<Rightarrow> stop_event \<Rightarrow> 's pass \<Rightarrow> 's pass" where
  "evaluate_event pe sub ev p =
     (case alertable sub ev of
        None \<Rightarrow> p
      | Some d \<Rightarrow>
          (case ss_mark_sent (pe_subs pe) (sub_id sub) (event_key_of ev) (ps_sys p) of
             (Inl e, w') \<Rightarrow> p\<lparr>ps_sys := w'\<rparr>
           | (Inr fresh, w') \<Rightarrow> if fresh then deliver pe sub ev d (p\<lparr>ps_sys := w'\<rparr>) else p\<lparr>ps_sys := w'\<rparr>))"

definition evaluate_subscription :: "'s evaluator \<Rightarrow> subscription \<Rightarrow> 's pass \<Rightarrow> 's pass" where
  "evaluate_subscription pe sub p =
     fold (evaluate_event pe sub) (ls_upcoming (pe_live pe) (sub_stop_id sub) (pe_horizon pe) (ps_sys p)) p"

text \<open>\<open>cancelled n\<close>: the context is done when subscription \<open>n\<close> of the pass is reached.\<close>

fun evaluate_all :: "'s evaluator \<Rightarrow> (nat \<Rightarrow> bool) \<Rightarrow> nat \<Rightarrow> subscription list \<Rightarrow> 's pass \<Rightarrow> go_error option \<times> 's pass" where
  "evaluate_all pe cancelled n [] p = (None, p)"
| "evaluate_all pe cancelled n (sub # subs) p =
     (if cancelled n then (Some (Sentinel Ctx_canceled), p)
      else evaluate_all pe cancelled (Suc n) subs (evaluate_subscription pe sub p))"

definition evaluate :: "'s evaluator \<Rightarrow> (nat \<Rightarrow> bool) \<Rightarrow> push_request list \<times> 's sys \<Rightarrow>
    go_error option \<times> push_request list \<times> 's sys" where
  "evaluate pe cancelled x =
     (case x of (sent, w) \<Rightarrow>
       (case ss_all (pe_subs pe) w of
          (Inl e, w1) \<Rightarrow> (Some (Wrapped ''list subscriptions'' e), sent, w1)
        | (Inr subs, w1) \<Rightarrow>
            (case evaluate_all pe cancelled 0 subs
                \<lparr>ps_stop_names = [], ps_route_names = [], ps_sent = sent, ps_sys = w1\<rparr> of
               (e, p) \<Rightarrow> (e, ps_sent p, ps_sys p))))"

section \<open>The live state of the engine\<close>

definition engine_live :: "instant \<Rightarrow> engine \<Rightarrow> 's live_source" where
  "engine_live now en =
     \<lparr>ls_live_vehicles = (\<lambda>w. live_vehicles now en),
      ls_upcoming = (\<lambda>stop_id horizon w. upcoming_at_stop stop_id horizon now en),
      ls_feed_age = (\<lambda>feed w. feed_age feed now en)\<rparr>"

section \<open>The evaluator over its interfaces\<close>

definition alert_claim :: "(event_key \<Rightarrow> 'c) \<Rightarrow> push_request \<Rightarrow> int \<times> 'c" where
  "alert_claim claim r = (sub_id (pr_subscription r), claim (event_key_of (pr_event r)))"

text \<open>
  Queries only have to leave the alert store as good as it was, and its claims in place.
\<close>

locale push_env = alert_contract ss good claim used
  for ss :: "'s subscription_store" and good :: "'s sys \<Rightarrow> bool" and claim :: "event_key \<Rightarrow> 'c"
    and used :: "'s sys \<Rightarrow> int \<Rightarrow> 'c \<Rightarrow> bool" +
  fixes q :: "'s stop_queries"
  assumes stop_keeps: "good w \<Longrightarrow> sq_stop q i w = (r, w') \<Longrightarrow> good w' \<and> used w \<le> used w'"
    and route_keeps: "good w \<Longrightarrow> sq_route q i w = (x, w') \<Longrightarrow> good w' \<and> used w \<le> used w'"
begin

definition sent_ok :: "push_request list \<times> 's sys \<Rightarrow> bool" where
  "sent_ok s \<longleftrightarrow> good (snd s) \<and> distinct (map (alert_claim claim) (fst s)) \<and>
     (\<forall>r \<in> set (fst s). used (snd s) (sub_id (pr_subscription r)) (claim (event_key_of (pr_event r))) \<and>
        alertable (pr_subscription r) (pr_event r) \<noteq> None)"

abbreviation sent_of :: "'s pass \<Rightarrow> push_request list \<times> 's sys" where
  "sent_of p \<equiv> (ps_sent p, ps_sys p)"

lemma sent_ok_later: "sent_ok (sent, w) \<Longrightarrow> good w' \<Longrightarrow> used w \<le> used w' \<Longrightarrow> sent_ok (sent, w')"
  by (auto simp: sent_ok_def le_fun_def)

lemma stop_name_keeps: "stop_name q i c w = (n, c', w') \<Longrightarrow> good w \<Longrightarrow> good w' \<and> used w \<le> used w'"
  by (auto simp: stop_name_def Let_def dest: stop_keeps split: option.splits prod.splits)

lemma route_name_keeps: "route_name q i c w = (n, c', w') \<Longrightarrow> good w \<Longrightarrow> good w' \<and> used w \<le> used w'"
  by (auto simp: route_name_def Let_def dest: route_keeps split: option.splits prod.splits)

lemma deliver_result:
  assumes pe: "pe_subs pe = ss" "pe_queries pe = q" and g: "good (ps_sys p)"
  shows "good (ps_sys (deliver pe sub ev d p)) \<and> used (ps_sys p) \<le> used (ps_sys (deliver pe sub ev d p)) \<and>
    (\<exists>payload. ps_sent (deliver pe sub ev d p) =
       ps_sent p @ [\<lparr>pr_subscription = sub, pr_event = ev, pr_payload = payload\<rparr>])"
proof -
  obtain route routes w1 where r: "route_name q (se_route_id ev) (ps_route_names p) (ps_sys p) = (route, routes, w1)"
    by (metis surj_pair)
  obtain stop stops w2 where s: "stop_name q (sub_stop_id sub) (ps_stop_names p) w1 = (stop, stops, w2)"
    by (metis surj_pair)
  define payload where
    "payload = alert_payload route stop (arrival_clock (pe_agency pe) (pe_process_zone pe) ev) d (sub_stop_id sub)"
  define outcome where "outcome = send_outcome (pe_send pe (ps_sent p) sub payload)"
  define w3 where "w3 = on_metrics (\<lambda>m. m\<lparr>mt_push_sent := outcome_label outcome # mt_push_sent m\<rparr>) w2"
  obtain e w4 where e: "ss_record_result ss (sub_id sub) (outcome = Push_ok) (outcome = Push_gone) w3 = (e, w4)"
    by (metis surj_pair)
  have w1: "good w1" "used (ps_sys p) \<le> used w1" using route_name_keeps [OF r g] by blast+
  have w2: "good w2" "used w1 \<le> used w2" using stop_name_keeps [OF s w1(1)] by blast+
  have w4: "good w4" "used w2 \<le> used w4" using record_alerts [OF _ e] w2(1) unfolding w3_def alert_metrics by blast+
  have "deliver pe sub ev d p =
      \<lparr>ps_stop_names = stops, ps_route_names = routes,
       ps_sent = ps_sent p @ [\<lparr>pr_subscription = sub, pr_event = ev, pr_payload = payload\<rparr>], ps_sys = w4\<rparr>"
    by (simp add: deliver_def pe r s payload_def [symmetric] outcome_def [symmetric] w3_def [symmetric] e)
  then show ?thesis using w1 w2 w4 by auto
qed

lemma evaluate_event_result:
  assumes pe: "pe_subs pe = ss" "pe_queries pe = q" and ok: "sent_ok (sent_of p)"
  shows "sent_ok (sent_of (evaluate_event pe sub ev p)) \<and>
    used (ps_sys p) \<le> used (ps_sys (evaluate_event pe sub ev p)) \<and>
    (\<exists>new. ps_sent (evaluate_event pe sub ev p) = ps_sent p @ new)"
proof (cases "alertable sub ev")
  case None
  then show ?thesis using ok by (simp add: evaluate_event_def)
next
  case (Some d)
  obtain m w' where m: "ss_mark_sent ss (sub_id sub) (event_key_of ev) (ps_sys p) = (m, w')"
    by (metis surj_pair)
  have g: "good (ps_sys p)" using ok by (simp add: sent_ok_def)
  note mark = mark_alert [OF g m]
  show ?thesis
  proof (cases "m = Inr True")
    case True
    define p1 where "p1 = p\<lparr>ps_sys := w'\<rparr>"
    have step: "evaluate_event pe sub ev p = deliver pe sub ev d p1"
      using Some m True pe by (simp add: evaluate_event_def p1_def)
    have g1: "good (ps_sys p1)" using mark by (simp add: p1_def)
    obtain payload where sent: "ps_sent (deliver pe sub ev d p1) =
        ps_sent p @ [\<lparr>pr_subscription = sub, pr_event = ev, pr_payload = payload\<rparr>]"
      using deliver_result [OF pe g1, of sub ev d] by (auto simp: p1_def)
    have keep: "good (ps_sys (deliver pe sub ev d p1))" "used w' \<le> used (ps_sys (deliver pe sub ev d p1))"
      using deliver_result [OF pe g1, of sub ev d] by (auto simp: p1_def)
    have fresh: "(sub_id sub, claim (event_key_of ev)) \<notin> set (map (alert_claim claim) (ps_sent p))"
      using mark True ok by (auto simp: sent_ok_def alert_claim_def)
    have "sent_ok (ps_sent p, ps_sys (deliver pe sub ev d p1))"
      using sent_ok_later [OF ok keep(1)] mark keep(2) by (meson order_trans)
    moreover have "used (ps_sys (deliver pe sub ev d p1)) (sub_id sub) (claim (event_key_of ev))"
      using mark True keep(2) by (auto simp: le_fun_def)
    ultimately have "sent_ok (sent_of (deliver pe sub ev d p1))"
      using fresh Some unfolding sent by (auto simp: sent_ok_def alert_claim_def)
    moreover have "used (ps_sys p) \<le> used (ps_sys (deliver pe sub ev d p1))"
      using mark keep(2) by (meson order_trans)
    ultimately show ?thesis unfolding step sent by blast
  next
    case False
    then have "evaluate_event pe sub ev p = p\<lparr>ps_sys := w'\<rparr>"
      using Some m pe by (auto simp: evaluate_event_def split: sum.splits)
    then show ?thesis using mark sent_ok_later [OF ok] by simp
  qed
qed

definition grows :: "'s pass \<Rightarrow> 's pass \<Rightarrow> bool" where
  "grows p p' \<longleftrightarrow> sent_ok (sent_of p) \<longrightarrow>
     sent_ok (sent_of p') \<and> used (ps_sys p) \<le> used (ps_sys p') \<and> (\<exists>new. ps_sent p' = ps_sent p @ new)"

lemma grows_refl [simp]: "grows p p"
  by (simp add: grows_def)

lemma grows_trans: "grows a b \<Longrightarrow> grows b c \<Longrightarrow> grows a c"
  by (auto simp: grows_def intro: order_trans)

lemma evaluate_subscription_grows:
  assumes "pe_subs pe = ss" "pe_queries pe = q"
  shows "grows p (evaluate_subscription pe sub p)"
proof -
  have "grows p (evaluate_event pe sub ev p)" for ev p
    using evaluate_event_result [OF assms] by (simp add: grows_def)
  then show ?thesis
    unfolding evaluate_subscription_def
    by (intro fold_inv [where P = "grows p"]) (simp, metis grows_trans)
qed

lemma evaluate_all_grows:
  assumes "pe_subs pe = ss" "pe_queries pe = q"
  shows "evaluate_all pe cancelled n subs p = (e, p') \<Longrightarrow> grows p p'"
proof (induction subs arbitrary: n p)
  case Nil
  then show ?case by simp
next
  case (Cons sub subs)
  show ?case
  proof (cases "cancelled n")
    case True
    then show ?thesis using Cons.prems by simp
  next
    case False
    then show ?thesis
      using Cons.IH [of "Suc n" "evaluate_subscription pe sub p"] Cons.prems
        grows_trans [OF evaluate_subscription_grows [OF assms, of p sub]] by simp
  qed
qed

lemma evaluate_result:
  assumes pe: "pe_subs pe = ss" "pe_queries pe = q" and ok: "sent_ok (sent, w)"
    and run: "evaluate pe cancelled (sent, w) = (e, sent', w')"
  shows "sent_ok (sent', w') \<and> used w \<le> used w' \<and> (\<exists>new. sent' = sent @ new)"
proof -
  obtain l w1 where l: "ss_all ss w = (l, w1)" by (metis surj_pair)
  have w1: "good w1" "used w \<le> used w1" using list_alerts [OF _ l] ok by (auto simp: sent_ok_def)
  show ?thesis
  proof (cases l)
    case (Inl x)
    then show ?thesis using run l w1 pe sent_ok_later [OF ok] by (auto simp: evaluate_def)
  next
    case (Inr subs)
    define p where "p = \<lparr>ps_stop_names = [], ps_route_names = [], ps_sent = sent, ps_sys = w1\<rparr>"
    obtain e1 p' where a: "evaluate_all pe cancelled 0 subs p = (e1, p')" by (metis surj_pair)
    have r: "sent' = ps_sent p'" "w' = ps_sys p'"
      using run l Inr a pe by (auto simp: evaluate_def p_def)
    have "sent_ok (sent_of p)" using sent_ok_later [OF ok w1] by (simp add: p_def)
    then show ?thesis
      using evaluate_all_grows [OF pe a] w1 unfolding grows_def r by (auto simp: p_def intro: order_trans)
  qed
qed

end

lemma only_faults_subs: "only_faults w w' \<Longrightarrow> subs_step (sys_db w) (sys_db w')"
  by (auto simp: only_faults_def)

interpretation pg_push: push_env store_subscriptions store_alerts_ok claim_row store_used
  "store_queries collate go_lower pg_lower"
  by unfold_locales
    (use subs_step_used only_faults_subs row_query_only in
      \<open>(auto simp: store_queries_def query_stop_def query_route_def, blast+)\<close>)

section \<open>A sample\<close>

definition sample_subscription :: subscription where
  "sample_subscription =
     \<lparr>sub_id = 0, sub_endpoint = ''https://push'', sub_p256dh = ''p'', sub_auth = ''a'', sub_stop_id = ''A'',
      sub_route_id = [], sub_direction_id = - 1, sub_threshold_secs = 120, sub_created_at = zero_time,
      sub_failure_count = 0\<rparr>"

definition sample_subscribed :: "store sys" where
  "sample_subscribed = snd (save_subscription sample_subscription (opened_store []))"

definition sample_late :: stop_event where
  "sample_late =
     \<lparr>se_service_date = ''20261123'', se_trip_id = ''T1'', se_start_time = [], se_stop_sequence = 1,
      se_stop_id = ''A'', se_route_id = ''1'', se_direction_id = 0, se_schedule_version_id = 1,
      se_vehicle_id = [], se_headsign = [], se_scheduled_arrival = unix_time 1795424400,
      se_predicted_arrival = unix_time 1795424700, se_actual_arrival = zero_time,
      se_delay_secs = Some 300, se_final = False, se_skipped = False, se_feed_timestamp = 1795424000,
      se_observed_at = unix_time 1795424000\<rparr>"

definition sample_evaluator :: "store evaluator" where
  "sample_evaluator =
     new_evaluator 0 store_subscriptions
       (engine_live (unix_time 1795424000)
         ((new_engine 0 [])\<lparr>en_live_events := [(event_key_of sample_late, sample_late)]\<rparr>))
       (store_queries id id id) (\<lambda>reqs sub payload. Inr 201) utc utc"

definition sample_passes :: "nat \<Rightarrow> push_request list \<times> store sys" where
  "sample_passes n = ((\<lambda>s. snd (evaluate sample_evaluator (\<lambda>_. False) s)) ^^ n) ([], sample_subscribed)"

section \<open>At most one alert\<close>

text \<open>
  Histories of the program as the subscriptions see it: passes of evaluators with any live
  state, push service and horizon, subscriptions saved and deleted, and anything else that
  leaves the three tables alone, restarts included. Any call may fail.
\<close>

definition same_subscriptions :: "db \<Rightarrow> db \<Rightarrow> bool" where
  "same_subscriptions d d' \<longleftrightarrow> db_subscriptions d' = db_subscriptions d \<and>
     db_push_sent d' = db_push_sent d \<and> db_subscription_seq d' = db_subscription_seq d"

inductive alert_steps :: "push_request list \<times> store sys \<Rightarrow> push_request list \<times> store sys \<Rightarrow> bool" where
  steps_none: "alert_steps s s"
| steps_pass: "alert_steps s s' \<Longrightarrow> pe_subs pe = store_subscriptions \<Longrightarrow>
    pe_queries pe = store_queries collate go_lower pg_lower \<Longrightarrow> evaluate pe cancelled s' = (e, s'') \<Longrightarrow> alert_steps s s''"
| steps_save: "alert_steps s (sent, w) \<Longrightarrow> save_subscription sub w = (n, w') \<Longrightarrow> alert_steps s (sent, w')"
| steps_delete: "alert_steps s (sent, w) \<Longrightarrow> delete_subscription endpoint w = (x, w') \<Longrightarrow> alert_steps s (sent, w')"
| steps_other: "alert_steps s (sent, w) \<Longrightarrow> same_subscriptions (sys_db w) (sys_db w') \<Longrightarrow> alert_steps s (sent, w')"

lemma same_subscriptions_step: "same_subscriptions d d' \<Longrightarrow> subs_step d d'"
  by (simp add: same_subscriptions_def subs_step_def subs_ok_def spent_def)

lemma alert_steps_ok:
  assumes "alert_steps s s'" and "pg_push.sent_ok s"
  shows "pg_push.sent_ok s'"
  using assms
proof (induction rule: alert_steps.induct)
  case (steps_none s)
  then show ?case .
next
  case (steps_pass s s' pe collate go_lower pg_lower cancelled e s'')
  then show ?case using pg_push.evaluate_result [of pe collate go_lower pg_lower "fst s'" "snd s'"]
    by (metis prod.collapse)
next
  case (steps_save s sent w sub n w')
  then show ?case
    using pg_alerts.save_alerts [of w sub n w'] pg_push.sent_ok_later [of sent w w']
    by (simp add: store_subscriptions_def pg_push.sent_ok_def)
next
  case (steps_delete s sent w endpoint x w')
  then show ?case
    using pg_alerts.delete_alerts [of w endpoint x w'] pg_push.sent_ok_later [of sent w w']
    by (simp add: store_subscriptions_def pg_push.sent_ok_def)
next
  case (steps_other s sent w w')
  then show ?case
    using subs_step_used [OF same_subscriptions_step [OF steps_other.hyps(2)]] pg_push.sent_ok_later [of sent w w']
    by (simp add: pg_push.sent_ok_def)
qed

text \<open>
  C5: whatever fails, restarts or is cancelled in between, no subscriber is alerted twice
  about the same arrival, and every alert is about an arrival of the subscriber's route and
  direction that is not skipped and late by at least the threshold.
\<close>

theorem alerts_at_most_once:
  assumes "alert_steps ([], w) (sent, w')" and "store_alerts_ok w"
  shows "distinct (map (alert_claim claim_row) sent) \<and> None \<notin> snd ` set (map (alert_claim claim_row) sent) \<and>
    list_all (\<lambda>r. let sub = pr_subscription r; ev = pr_event r in
      (sub_route_id sub = [] \<or> se_route_id ev = sub_route_id sub) \<and>
      (sub_direction_id sub < 0 \<or> se_direction_id ev = sub_direction_id sub) \<and> \<not> se_skipped ev \<and>
      (\<exists>d. se_delay_secs ev = Some d \<and> sub_threshold_secs sub \<le> d)) sent"
proof -
  have "pg_push.sent_ok (sent, w')"
    using alert_steps_ok [OF assms(1)] assms(2) by (simp add: pg_push.sent_ok_def)
  then have ok: "distinct (map (alert_claim claim_row) sent)"
    and each: "\<And>r. r \<in> set sent \<Longrightarrow> store_used w' (sub_id (pr_subscription r)) (claim_row (event_key_of (pr_event r)))"
      "\<And>r. r \<in> set sent \<Longrightarrow> alertable (pr_subscription r) (pr_event r) \<noteq> None"
    by (auto simp: pg_push.sent_ok_def)
  have some: "snd (alert_claim claim_row r) \<noteq> None" if "r \<in> set sent" for r
    using each(1) [OF that] by (cases "claim_row (event_key_of (pr_event r))") (simp_all add: store_used_def alert_claim_def)
  have match: "(sub_route_id sub = [] \<or> se_route_id ev = sub_route_id sub) \<and>
      (sub_direction_id sub < 0 \<or> se_direction_id ev = sub_direction_id sub) \<and> \<not> se_skipped ev \<and>
      (\<exists>d. se_delay_secs ev = Some d \<and> sub_threshold_secs sub \<le> d)" if "alertable sub ev \<noteq> None" for sub ev
    using that by (auto simp: alertable_def not_le split: if_splits option.splits)
  show ?thesis
    unfolding list_all_iff Let_def using ok some match [OF each(2)] by (simp add: image_iff del: not_None_eq) metis
qed

theorem alerts_at_most_once_witness:
  "distinct (map (alert_claim claim_row) (fst (sample_passes 2))) \<and> length (fst (sample_passes 2)) = 1 \<and>
   map (pl_body \<circ> pr_payload) (fst (sample_passes 2)) = [''A: 9:00 AM arrival running 5 min late'']"
proof -
  have "alert_steps ([], sample_subscribed) (sample_passes n)" for n
  proof (induction n)
    case 0
    then show ?case by (simp add: sample_passes_def steps_none)
  next
    case (Suc n)
    have "evaluate sample_evaluator (\<lambda>_. False) (sample_passes n) =
        (fst (evaluate sample_evaluator (\<lambda>_. False) (sample_passes n)), sample_passes (Suc n))"
      by (simp add: sample_passes_def)
    then show ?case
      by (rule steps_pass [OF Suc, where collate = id and go_lower = id and pg_lower = id, rotated 2])
        (simp_all add: sample_evaluator_def new_evaluator_def)
  qed
  from this [of 2] have "alert_steps ([], sample_subscribed) (fst (sample_passes 2), snd (sample_passes 2))" by simp
  moreover have "store_alerts_ok sample_subscribed" by code_simp
  moreover have "length (fst (sample_passes 2)) = 1 \<and>
    map (pl_body \<circ> pr_payload) (fst (sample_passes 2)) = [''A: 9:00 AM arrival running 5 min late'']" by code_simp
  ultimately show ?thesis using alerts_at_most_once by blast
qed

section \<open>No alert is lost\<close>

definition keeps_sub :: "int \<Rightarrow> db \<Rightarrow> db \<Rightarrow> bool" where
  "keeps_sub i d d' \<longleftrightarrow> db_faults d = [] \<longrightarrow> db_faults d' = [] \<and>
     (i \<in> fst ` set (db_subscriptions d) \<longrightarrow> i \<in> fst ` set (db_subscriptions d')) \<and>
     (\<forall>k. (i, k) \<in> set (db_push_sent d') \<longleftrightarrow> (i, k) \<in> set (db_push_sent d))"

lemma keeps_sub_refl [simp]: "keeps_sub i d d"
  by (simp add: keeps_sub_def)

lemma keeps_sub_trans: "keeps_sub i a b \<Longrightarrow> keeps_sub i b c \<Longrightarrow> keeps_sub i a c"
  by (simp add: keeps_sub_def)

lemma db_query_keeps: "db_query q w = (r, w') \<Longrightarrow> keeps_sub i (sys_db w) (sys_db w')"
  by (auto simp: db_query_def keeps_sub_def next_fault_def split: option.splits fault.splits)

lemma active_version_id_keeps: "active_version_id w = (r, w') \<Longrightarrow> keeps_sub i (sys_db w) (sys_db w')"
  by (auto simp: active_version_id_def dest: db_query_keeps split: prod.splits sum.splits option.splits)

lemma row_query_keeps: "row_query op q w = (r, w') \<Longrightarrow> keeps_sub i (sys_db w) (sys_db w')"
  by (auto simp: row_query_def dest!: db_query_keeps [of _ _ _ _ i] active_version_id_keeps [of _ _ _ i]
      intro: keeps_sub_trans split: prod.splits sum.splits option.splits)

lemma stop_name_sub:
  "stop_name (store_queries collate go_lower pg_lower) s c w = (n, c', w') \<Longrightarrow> keeps_sub i (sys_db w) (sys_db w')"
  by (auto simp: stop_name_def Let_def store_queries_def query_stop_def
      dest: row_query_keeps split: option.splits prod.splits)

lemma route_name_sub:
  "route_name (store_queries collate go_lower pg_lower) s c w = (n, c', w') \<Longrightarrow> keeps_sub i (sys_db w) (sys_db w')"
  by (auto simp: route_name_def Let_def store_queries_def query_route_def
      dest: row_query_keeps split: option.splits prod.splits)

lemma record_push_result_sub:
  assumes "record_push_result j ok gone w = (x, w')" and "gone \<Longrightarrow> j \<noteq> i"
  shows "keeps_sub i (sys_db w) (sys_db w')"
  using assms
  by (cases gone; cases ok)
    (force simp: record_push_result_def db_exec_def next_fault_def keeps_sub_def delete_subscriptions_def
      update_subscription_def Let_def image_iff split: option.splits fault.splits)+

lemma deliver_keeps:
  assumes pe: "pe_subs pe = store_subscriptions" "pe_queries pe = store_queries collate go_lower pg_lower"
    and stays: "sub_id sub = i \<Longrightarrow> \<forall>reqs payload. send_outcome (pe_send pe reqs sub payload) \<noteq> Push_gone"
  shows "keeps_sub i (sys_db (ps_sys p)) (sys_db (ps_sys (deliver pe sub ev d p)))"
proof -
  let ?q = "store_queries collate go_lower pg_lower"
  obtain route routes w1 where r: "route_name ?q (se_route_id ev) (ps_route_names p) (ps_sys p) = (route, routes, w1)"
    by (metis surj_pair)
  obtain stop stops w2 where s: "stop_name ?q (sub_stop_id sub) (ps_stop_names p) w1 = (stop, stops, w2)"
    by (metis surj_pair)
  define payload where
    "payload = alert_payload route stop (arrival_clock (pe_agency pe) (pe_process_zone pe) ev) d (sub_stop_id sub)"
  define outcome where "outcome = send_outcome (pe_send pe (ps_sent p) sub payload)"
  define w3 where "w3 = on_metrics (\<lambda>m. m\<lparr>mt_push_sent := outcome_label outcome # mt_push_sent m\<rparr>) w2"
  obtain e w4 where e: "record_push_result (sub_id sub) (outcome = Push_ok) (outcome = Push_gone) w3 = (e, w4)"
    by (metis surj_pair)
  have gone: "sub_id sub \<noteq> i" if "outcome = Push_gone" using stays that unfolding outcome_def by blast
  have "keeps_sub i (sys_db w3) (sys_db w4)" by (rule record_push_result_sub [OF e gone])
  then have "keeps_sub i (sys_db w2) (sys_db w4)" by (simp add: w3_def)
  then have "keeps_sub i (sys_db (ps_sys p)) (sys_db w4)"
    using keeps_sub_trans [OF route_name_sub [OF r] keeps_sub_trans [OF stop_name_sub [OF s]]] by blast
  moreover have "ps_sys (deliver pe sub ev d p) = w4"
    by (simp add: deliver_def pe r s payload_def [symmetric] outcome_def [symmetric] w3_def [symmetric]
        store_subscriptions_def e)
  ultimately show ?thesis by simp
qed

text \<open>The alert has been requested, or can still be claimed.\<close>

definition open_alert :: "int \<Rightarrow> row_key \<Rightarrow> store pass \<Rightarrow> bool" where
  "open_alert i k p \<longleftrightarrow> store_alerts_ok (ps_sys p) \<and> db_faults (sys_db (ps_sys p)) = [] \<and>
     ((i, Some k) \<in> set (map (alert_claim claim_row) (ps_sent p)) \<or>
      i \<in> fst ` set (db_subscriptions (sys_db (ps_sys p))) \<and> (i, k) \<notin> set (db_push_sent (sys_db (ps_sys p))))"

lemma mark_push_sent_calm:
  assumes "mark_push_sent j key w = (m, w')" and "db_faults (sys_db w) = []"
  shows "(m \<noteq> Inr True \<and> sys_db w' = sys_db w) \<or>
    (\<exists>k. m = Inr True \<and> claim_row key = Some k \<and>
       sys_db w' = (sys_db w)\<lparr>db_push_sent := db_push_sent (sys_db w) @ [(j, k)]\<rparr>)"
proof (cases "date_from_service_date (ek_service_date key)")
  case (Inl e)
  then show ?thesis using assms(1) by (auto simp: mark_push_sent_def)
next
  case (Inr day)
  have tl: "drop_fault d = d" if "db_faults d = []" for d :: db using that by simp
  show ?thesis
  proof (cases "mark_stmt j (key_row day key) (sys_db w)")
    case (Inl e)
    then show ?thesis
      using assms by (auto simp: mark_push_sent_def Inr db_run_def next_fault_def tl)
  next
    case (Inr x)
    obtain d n where x: "x = (d, n)" by (metis surj_pair)
    have "m = Inr (n = 1)" "sys_db w' = drop_fault d"
      using assms \<open>date_from_service_date (ek_service_date key) = Inr day\<close>
      by (auto simp: mark_push_sent_def Inr x db_run_def next_fault_def)
    moreover have "(n = 0 \<and> d = sys_db w) \<or>
        (n = 1 \<and> d = (sys_db w)\<lparr>db_push_sent := db_push_sent (sys_db w) @ [(j, key_row day key)]\<rparr>)"
      using Inr by (auto simp: x mark_stmt_def split: if_splits)
    ultimately show ?thesis
      using assms(2) \<open>date_from_service_date (ek_service_date key) = Inr day\<close>
      by (auto simp: claim_row_def tl simp del: select_convs update_convs)
  qed
qed

lemma mark_push_sent_grants:
  assumes "mark_push_sent i key w = (m, w')" and "db_faults (sys_db w) = []"
    and "claim_row key = Some k" and "in_range 32 (ek_stop_sequence key)"
    and "i \<in> fst ` set (db_subscriptions (sys_db w))" and "(i, k) \<notin> set (db_push_sent (sys_db w))"
  shows "m = Inr True"
proof -
  obtain day where day: "date_from_service_date (ek_service_date key) = Inr day" "k = key_row day key"
    using assms(3) by (auto simp: claim_row_def split: sum.splits)
  have "map_of (db_subscriptions (sys_db w)) i \<noteq> None" using assms(5) by (simp add: map_of_eq_None_iff)
  then have "mark_stmt i k (sys_db w) = Inr ((sys_db w)\<lparr>db_push_sent := db_push_sent (sys_db w) @ [(i, k)]\<rparr>, 1)"
    using assms(4,6) by (simp add: mark_stmt_def day key_row_def)
  then show ?thesis using assms(1,2) by (simp add: mark_push_sent_def day db_run_def next_fault_def)
qed

lemma open_alert_event:
  assumes pe: "pe_subs pe = store_subscriptions" "pe_queries pe = store_queries collate go_lower pg_lower"
    and stays: "sub_id sub = i \<Longrightarrow> \<forall>reqs payload. send_outcome (pe_send pe reqs sub payload) \<noteq> Push_gone"
    and op: "open_alert i k p"
  shows "open_alert i k (evaluate_event pe sub ev p) \<and>
    (sub_id sub = i \<and> alertable sub ev \<noteq> None \<and> claim_row (event_key_of ev) = Some k \<and> in_range 32 (se_stop_sequence ev) \<longrightarrow>
       (i, Some k) \<in> set (map (alert_claim claim_row) (ps_sent (evaluate_event pe sub ev p)))) \<and>
    set (ps_sent p) \<subseteq> set (ps_sent (evaluate_event pe sub ev p))"
proof (cases "alertable sub ev")
  case None
  then show ?thesis using op by (simp add: evaluate_event_def)
next
  case (Some d)
  obtain m w' where m: "mark_push_sent (sub_id sub) (event_key_of ev) (ps_sys p) = (m, w')" by (metis surj_pair)
  have ok: "store_alerts_ok (ps_sys p)" and calm: "db_faults (sys_db (ps_sys p)) = []"
    using op by (simp_all add: open_alert_def)
  have ok': "store_alerts_ok w'" using mark_push_sent_step [OF m ok] ok by (simp add: subs_step_def)
  define p1 where "p1 = p\<lparr>ps_sys := w'\<rparr>"
  have step: "evaluate_event pe sub ev p = (if m = Inr True then deliver pe sub ev d p1 else p1)"
    using Some m by (auto simp: evaluate_event_def pe store_subscriptions_def p1_def split: sum.splits)
  have seq: "ek_stop_sequence (event_key_of ev) = se_stop_sequence ev" by (simp add: event_key_of_def)
  from mark_push_sent_calm [OF m calm] show ?thesis
  proof
    assume n: "m \<noteq> Inr True \<and> sys_db w' = sys_db (ps_sys p)"
    then have e: "evaluate_event pe sub ev p = p1" by (simp add: step)
    have "open_alert i k p1" using op n by (simp add: open_alert_def p1_def)
    moreover have "(i, Some k) \<in> set (map (alert_claim claim_row) (ps_sent p))"
      if same: "sub_id sub = i" "claim_row (event_key_of ev) = Some k" "in_range 32 (se_stop_sequence ev)"
      using mark_push_sent_grants [OF m calm same(2)] same n op unfolding seq open_alert_def by blast
    ultimately show ?thesis unfolding e by (auto simp: p1_def)
  next
    assume "\<exists>k'. m = Inr True \<and> claim_row (event_key_of ev) = Some k' \<and>
       sys_db w' = (sys_db (ps_sys p))\<lparr>db_push_sent := db_push_sent (sys_db (ps_sys p)) @ [(sub_id sub, k')]\<rparr>"
    then obtain k' where k': "m = Inr True" "claim_row (event_key_of ev) = Some k'"
      "sys_db w' = (sys_db (ps_sys p))\<lparr>db_push_sent := db_push_sent (sys_db (ps_sys p)) @ [(sub_id sub, k')]\<rparr>"
      by blast
    have e: "evaluate_event pe sub ev p = deliver pe sub ev d p1" by (simp add: step k'(1))
    have good: "store_alerts_ok (ps_sys p1)" using ok' by (simp add: p1_def)
    note res = pg_push.deliver_result [OF pe good, of sub ev d]
    obtain payload where sent: "ps_sent (deliver pe sub ev d p1) =
        ps_sent p @ [\<lparr>pr_subscription = sub, pr_event = ev, pr_payload = payload\<rparr>]"
      using res by (auto simp: p1_def)
    have keeps: "keeps_sub i (sys_db w') (sys_db (ps_sys (deliver pe sub ev d p1)))"
      using deliver_keeps [OF pe, where sub = sub and i = i and p = p1 and ev = ev and d = d] stays by (simp add: p1_def)
    have claims: "set (map (alert_claim claim_row) (ps_sent (deliver pe sub ev d p1))) =
        insert (sub_id sub, Some k') (set (map (alert_claim claim_row) (ps_sent p)))"
      unfolding sent by (simp add: alert_claim_def k'(2))
    have "db_faults (sys_db w') = []" using calm k'(3) by simp
    then have after: "db_faults (sys_db (ps_sys (deliver pe sub ev d p1))) = []"
      "i \<in> fst ` set (db_subscriptions (sys_db (ps_sys p))) \<longrightarrow>
         i \<in> fst ` set (db_subscriptions (sys_db (ps_sys (deliver pe sub ev d p1))))"
      "(i, k) \<in> set (db_push_sent (sys_db (ps_sys (deliver pe sub ev d p1)))) \<longleftrightarrow>
         (i, k) \<in> set (db_push_sent (sys_db w'))"
      using keeps unfolding keeps_sub_def by (simp add: k'(3), simp add: k'(3), blast)
    have "open_alert i k (deliver pe sub ev d p1)"
      using op res after unfolding open_alert_def claims k'(3) by auto
    then show ?thesis unfolding e claims using k'(2) by (auto simp: sent)
  qed
qed

text \<open>What one step of a pass does to an alert, and what it settles.\<close>

definition settles :: "int \<Rightarrow> row_key \<Rightarrow> bool \<Rightarrow> store pass \<Rightarrow> store pass \<Rightarrow> bool" where
  "settles i k now p p' \<longleftrightarrow> open_alert i k p \<longrightarrow>
     open_alert i k p' \<and> set (ps_sent p) \<subseteq> set (ps_sent p') \<and>
     (now \<longrightarrow> (i, Some k) \<in> set (map (alert_claim claim_row) (ps_sent p')))"

lemma settles_trans: "settles i k now a b \<Longrightarrow> settles i k later b c \<Longrightarrow> settles i k (now \<or> later) a c"
  unfolding settles_def set_map by blast

definition about :: "int \<Rightarrow> row_key \<Rightarrow> subscription \<Rightarrow> stop_event \<Rightarrow> bool" where
  "about i k sub ev \<longleftrightarrow> sub_id sub = i \<and> alertable sub ev \<noteq> None \<and>
     claim_row (event_key_of ev) = Some k \<and> in_range 32 (se_stop_sequence ev)"

lemma fold_settles:
  assumes "\<And>ev p. settles i k (P ev) p (f ev p)"
  shows "settles i k (\<exists>ev \<in> set evs. P ev) p (fold f evs p)"
proof (induction evs arbitrary: p)
  case Nil
  then show ?case by (simp add: settles_def)
next
  case (Cons ev evs)
  show ?case using settles_trans [OF assms [of ev p] Cons.IH [of "f ev p"]] by simp
qed

lemma evaluate_all_settles:
  assumes pe: "pe_subs pe = store_subscriptions" "pe_queries pe = store_queries collate go_lower pg_lower"
    "pe_live pe = engine_live now en"
    and stays: "\<forall>sub \<in> set subs. sub_id sub = i \<longrightarrow>
      (\<forall>reqs payload. send_outcome (pe_send pe reqs sub payload) \<noteq> Push_gone)"
    and run: "evaluate_all pe (\<lambda>_. False) n subs p = (e, p')"
  shows "e = None \<and> settles i k (\<exists>sub \<in> set subs. \<exists>ev \<in> set (upcoming_at_stop (sub_stop_id sub) (pe_horizon pe) now en).
      about i k sub ev) p p'"
  using stays run
proof (induction subs arbitrary: n p)
  case Nil
  then show ?case by (simp add: settles_def)
next
  case (Cons sub subs)
  have "settles i k (about i k sub ev) p (evaluate_event pe sub ev p)" for ev p
    using open_alert_event [OF pe(1,2), of sub i k p ev] Cons.prems(1) by (simp add: settles_def about_def)
  then have "settles i k (\<exists>ev \<in> set (upcoming_at_stop (sub_stop_id sub) (pe_horizon pe) now en). about i k sub ev)
      p (evaluate_subscription pe sub p)"
    unfolding evaluate_subscription_def pe(3) engine_live_def by (simp add: fold_settles)
  from settles_trans [OF this] Cons.IH [of "Suc n" "evaluate_subscription pe sub p"] Cons.prems
  show ?case by simp
qed

text \<open>
  C6: with the database up, one pass requests every alert that is due: for each
  subscription and each upcoming arrival of the live state that it asks about and that is not claimed
  yet, a request is made, unless the push service says the subscription is gone.
\<close>

theorem due_alerts_requested:
  assumes pe: "pe_subs pe = store_subscriptions" "pe_queries pe = store_queries collate go_lower pg_lower"
    "pe_live pe = engine_live now en"
    and ok: "store_alerts_ok w" and up: "db_faults (sys_db w) = []"
    and run: "evaluate pe (\<lambda>_. False) ([], w) = (e, sent, w')"
    and sub: "sub \<in> set (db_all_subscriptions (sys_db w))"
    and ev: "ev \<in> set (upcoming_at_stop (sub_stop_id sub) (pe_horizon pe) now en)"
      "alertable sub ev = Some d" "in_range 32 (se_stop_sequence ev)"
    and fresh: "claim_row (event_key_of ev) = Some k" "\<not> store_used w (sub_id sub) (Some k)"
    and stays: "\<And>reqs payload. send_outcome (pe_send pe reqs sub payload) \<noteq> Push_gone"
  shows "e = None \<and> (\<exists>r \<in> set sent. sub_id (pr_subscription r) = sub_id sub \<and>
    claim_row (event_key_of (pr_event r)) = claim_row (event_key_of ev))"
proof -
  let ?subs = "db_all_subscriptions (sys_db w)"
  have all: "all_subscriptions w = (Inr ?subs, on_db drop_fault w)"
    using up by (simp add: all_subscriptions_def db_query_def next_fault_def)
  define p where "p = \<lparr>ps_stop_names = [], ps_route_names = [], ps_sent = [], ps_sys = on_db drop_fault w\<rparr>"
  obtain e1 p' where a: "evaluate_all pe (\<lambda>_. False) 0 ?subs p = (e1, p')" by (metis surj_pair)
  have r: "e = e1" "sent = ps_sent p'"
    using run all a pe by (auto simp: evaluate_def p_def store_subscriptions_def)
  have ids: "map sub_id ?subs = map fst (sort_key fst (db_subscriptions (sys_db w)))"
    by (auto simp: db_all_subscriptions_def subscription_of_row_def)
  have "distinct (map sub_id ?subs)"
    using ok unfolding ids subs_ok_def al_wf_def by (simp add: distinct_map)
  then have one: "s = sub" if "s \<in> set ?subs" "sub_id s = sub_id sub" for s
    using that sub by (simp add: distinct_map inj_on_def)
  have "sub_id sub \<in> set (map sub_id ?subs)" using sub by simp
  then have key: "sub_id sub \<in> fst ` set (db_subscriptions (sys_db w))" unfolding ids by simp
  have "open_alert (sub_id sub) k p"
    using ok up key fresh by (simp add: open_alert_def p_def subs_ok_def store_used_def spent_def)
  moreover have "\<forall>s \<in> set ?subs. sub_id s = sub_id sub \<longrightarrow>
      (\<forall>reqs payload. send_outcome (pe_send pe reqs s payload) \<noteq> Push_gone)"
    using one stays by blast
  moreover have "about (sub_id sub) k sub ev" using ev fresh by (simp add: about_def)
  ultimately have "e1 = None" "(sub_id sub, Some k) \<in> set (map (alert_claim claim_row) (ps_sent p'))"
    using evaluate_all_settles [OF pe _ a, of "sub_id sub" k] sub ev(1) unfolding settles_def by blast+
  then show ?thesis unfolding r fresh(1) by (auto simp: alert_claim_def)
qed

theorem due_alerts_requested_witness:
  "\<exists>r \<in> set (fst (sample_passes 1)). sub_id (pr_subscription r) = 1 \<and>
     claim_row (event_key_of (pr_event r)) = claim_row (event_key_of sample_late)"
proof -
  let ?sub = "sample_subscription\<lparr>sub_id := 1, sub_created_at := 0\<rparr>"
  have pe: "pe_subs sample_evaluator = store_subscriptions" "pe_queries sample_evaluator = store_queries id id id"
    "pe_live sample_evaluator = engine_live (unix_time 1795424000)
       ((new_engine 0 [])\<lparr>en_live_events := [(event_key_of sample_late, sample_late)]\<rparr>)"
    "\<And>reqs s p. pe_send sample_evaluator reqs s p = Inr 201"
    by (simp_all add: sample_evaluator_def new_evaluator_def)
  obtain e w' where run: "evaluate sample_evaluator (\<lambda>_. False) ([], sample_subscribed) = (e, fst (sample_passes 1), w')"
    by (cases "evaluate sample_evaluator (\<lambda>_. False) ([], sample_subscribed)") (auto simp: sample_passes_def)
  have a: "store_alerts_ok sample_subscribed" by code_simp
  have b: "db_faults (sys_db sample_subscribed) = []" by code_simp
  have c: "db_all_subscriptions (sys_db sample_subscribed) = [?sub]" by code_simp
  have d: "upcoming_at_stop ''A'' (pe_horizon sample_evaluator) (unix_time 1795424000)
      ((new_engine 0 [])\<lparr>en_live_events := [(event_key_of sample_late, sample_late)]\<rparr>) = [sample_late]" by code_simp
  have f: "alertable ?sub sample_late = Some 300" by code_simp
  have g: "claim_row (event_key_of sample_late) = Some (739942, ''T1'', [], 1)" by code_simp
  have h: "\<not> store_used sample_subscribed 1 (Some (739942, ''T1'', [], 1))" by code_simp
  have i: "in_range 32 (se_stop_sequence sample_late)" by code_simp
  show ?thesis
    using due_alerts_requested [OF pe(1-3) a b run, of "?sub" sample_late 300, OF _ _ _ i g] c d f h
    by (simp add: pe(4) send_outcome_def sample_subscription_def)
qed

end
