(* ===== verification/Decode.thy ===== *)
theory Decode
  imports Domain_Types
begin

text \<open>
  \<open>internal/ingest/decode.go\<close>: the mapping of a GTFS-realtime message to a snapshot.

  The message types and their wire format are the gtfs-realtime bindings, a third-party
  package: the records below have the fields of the specification that the code reads,
  \<open>None\<close> where a field or a pointer is absent, and a getter of an absent field returns the
  default of its type, 0 or the empty string. The decoder of the wire format and the names of
  the enums are the parameter \<open>proto\<close>. An absent relationship is \<open>SCHEDULED\<close>, number 0.
\<close>

section \<open>Messages\<close>

record pb_trip =
  pt_trip_id :: "string option"
  pt_route_id :: "string option"
  pt_direction_id :: "int option"
  pt_start_time :: "string option"
  pt_start_date :: "string option"
  pt_relationship :: "int option"

record pb_vehicle_id =
  pi_id :: "string option"
  pi_label :: "string option"

record pb_stop_event =
  pv_delay :: "int option"
  pv_time :: "int option"

record pb_stop_update =
  pu_stop_sequence :: "int option"
  pu_stop_id :: "string option"
  pu_arrival :: "pb_stop_event option"
  pu_departure :: "pb_stop_event option"
  pu_relationship :: "int option"

record pb_trip_update =
  pb_trip :: "pb_trip option"
  pb_vehicle :: "pb_vehicle_id option"
  pb_stop_updates :: "pb_stop_update list"
  pb_timestamp :: "int option"
  pb_delay :: "int option"

record pb_position =
  po_latitude :: "32 word option"
  po_longitude :: "32 word option"
  po_bearing :: "32 word option"
  po_speed :: "32 word option"

record pb_vehicle_position =
  pp_trip :: "pb_trip option"
  pp_vehicle :: "pb_vehicle_id option"
  pp_position :: "pb_position option"
  pp_stop_sequence :: "int option"
  pp_stop_id :: "string option"
  pp_status :: "int option"
  pp_timestamp :: "int option"

record pb_entity =
  pe_trip_update :: "pb_trip_update option"
  pe_vehicle :: "pb_vehicle_position option"

record pb_message =
  pm_timestamp :: "int option"
  pm_entities :: "pb_entity list"

record proto =
  pr_unmarshal :: "string \<Rightarrow> pb_message result"
  pr_trip_relationship :: "int \<Rightarrow> string"
  pr_stop_relationship :: "int \<Rightarrow> string"
  pr_vehicle_status :: "int \<Rightarrow> string"

text \<open>Getters: of a field, and of a field behind a pointer that may be nil.\<close>

definition get :: "'a \<Rightarrow> 'a option \<Rightarrow> 'a" where
  "get def f = (case f of None \<Rightarrow> def | Some x \<Rightarrow> x)"

definition get_of :: "'a \<Rightarrow> ('m \<Rightarrow> 'a option) \<Rightarrow> 'm option \<Rightarrow> 'a" where
  "get_of def f m = (case m of None \<Rightarrow> def | Some x \<Rightarrow> get def (f x))"

section \<open>Floats\<close>

text \<open>The conversion of a \<open>float32\<close> to a \<open>float64\<close>, which is exact, on bit patterns.\<close>

fun log2_nat :: "nat \<Rightarrow> nat" where
  "log2_nat n = (if n < 2 then 0 else Suc (log2_nat (n div 2)))"

declare log2_nat.simps [simp del]

definition f64_of_f32 :: "32 word \<Rightarrow> 64 word" where
  "f64_of_f32 x =
     (let n = unat x; s = n div 2 ^ 31; e = n div 2 ^ 23 mod 2 ^ 8; m = n mod 2 ^ 23;
          (e', m') =
            (if e = 255 then (2047, if m = 0 then 0 else if m < 2 ^ 22 then m * 2 ^ 29 + 2 ^ 51 else m * 2 ^ 29)
             else if e \<noteq> 0 then (e + 896, m * 2 ^ 29)
             else if m = 0 then (0, 0)
             else let k = log2_nat m in (k + 874, (m - 2 ^ k) * 2 ^ (52 - k)))
      in of_nat (s * 2 ^ 63 + e' * 2 ^ 52 + m'))"

text \<open>\<open>-1\<close> as a \<open>float32\<close>.\<close>

definition f32_minus_one :: "32 word" where
  "f32_minus_one = 0xBF800000"

section \<open>Decoding\<close>

definition decode_stop_time_update :: "proto \<Rightarrow> pb_stop_update \<Rightarrow> stop_time_update" where
  "decode_stop_time_update pr u =
     \<lparr>stu_stop_sequence = (case pu_stop_sequence u of None \<Rightarrow> - 1 | Some n \<Rightarrow> n),
      stu_stop_id = get [] (pu_stop_id u),
      stu_arrival_time = get_of 0 pv_time (pu_arrival u),
      stu_arrival_delay = get_of 0 pv_delay (pu_arrival u),
      stu_arrival_delay_set = (case pu_arrival u of None \<Rightarrow> False | Some a \<Rightarrow> pv_delay a \<noteq> None),
      stu_departure_time = get_of 0 pv_time (pu_departure u),
      stu_departure_delay = get_of 0 pv_delay (pu_departure u),
      stu_departure_delay_set = (case pu_departure u of None \<Rightarrow> False | Some a \<Rightarrow> pv_delay a \<noteq> None),
      stu_relationship = pr_stop_relationship pr (get 0 (pu_relationship u))\<rparr>"

text \<open>\<open>int16\<close> of the direction keeps the low 16 bits.\<close>

definition decode_trip_update :: "proto \<Rightarrow> pb_trip_update \<Rightarrow> trip_update" where
  "decode_trip_update pr u =
     (let td = pb_trip u in
      \<lparr>tu_trip_id = get_of [] pt_trip_id td,
       tu_route_id = get_of [] pt_route_id td,
       tu_direction_id = (case td of None \<Rightarrow> - 1 | Some t \<Rightarrow>
          (case pt_direction_id t of None \<Rightarrow> - 1 | Some n \<Rightarrow> wrap16 n)),
       tu_start_date = get_of [] pt_start_date td,
       tu_start_time = get_of [] pt_start_time td,
       tu_schedule_relationship = pr_trip_relationship pr (get_of 0 pt_relationship td),
       tu_vehicle_id = get_of [] pi_id (pb_vehicle u),
       tu_timestamp = get 0 (pb_timestamp u),
       tu_delay_secs = get 0 (pb_delay u),
       tu_delay_set = (pb_delay u \<noteq> None),
       tu_stop_time_updates = map (decode_stop_time_update pr) (pb_stop_updates u)\<rparr>)"

definition decode_vehicle :: "proto \<Rightarrow> pb_vehicle_position \<Rightarrow> vehicle_position" where
  "decode_vehicle pr v =
     (let td = pp_trip v; pos = pp_position v in
      \<lparr>vp_vehicle_id = get_of [] pi_id (pp_vehicle v),
       vp_label = get_of [] pi_label (pp_vehicle v),
       vp_trip_id = get_of [] pt_trip_id td,
       vp_route_id = get_of [] pt_route_id td,
       vp_start_date = get_of [] pt_start_date td,
       vp_lat = f64_of_f32 (get_of 0 po_latitude pos),
       vp_lon = f64_of_f32 (get_of 0 po_longitude pos),
       vp_bearing = (case pos of None \<Rightarrow> f32_minus_one | Some p \<Rightarrow> get f32_minus_one (po_bearing p)),
       vp_speed_mps = (case pos of None \<Rightarrow> f32_minus_one | Some p \<Rightarrow> get f32_minus_one (po_speed p)),
       vp_stop_sequence = (case pp_stop_sequence v of None \<Rightarrow> - 1 | Some n \<Rightarrow> n),
       vp_stop_id = get [] (pp_stop_id v),
       vp_status = (case pp_status v of None \<Rightarrow> [] | Some n \<Rightarrow> pr_vehicle_status pr n),
       vp_timestamp = get 0 (pp_timestamp v)\<rparr>)"

definition decode_feed :: "proto \<Rightarrow> feed \<Rightarrow> string \<Rightarrow> instant \<Rightarrow> snapshot result" where
  "decode_feed pr feed raw polled_at =
     (case pr_unmarshal pr raw of
        Inl e \<Rightarrow> Inl (Wrapped (''decode '' @ feed) e)
      | Inr msg \<Rightarrow>
          (let snap = \<lparr>sn_feed = feed, sn_polled_at = polled_at, sn_feed_timestamp = get 0 (pm_timestamp msg),
                 sn_raw_sha256 = [], sn_raw_path = [], sn_trip_updates = [], sn_vehicles = []\<rparr>
           in if feed = feed_trip_updates
              then Inr (snap\<lparr>sn_trip_updates :=
                map (decode_trip_update pr) (List.map_filter pe_trip_update (pm_entities msg))\<rparr>)
              else if feed = feed_vehicle_positions
              then Inr (snap\<lparr>sn_vehicles :=
                map (decode_vehicle pr) (List.map_filter pe_vehicle (pm_entities msg))\<rparr>)
              else Inl (Message ''decode: unknown feed'')))"

text \<open>The bytes alone decide what a snapshot says; the instant is only carried along.\<close>

lemma decode_feed_at:
  "decode_feed pr feed raw t' =
    (case decode_feed pr feed raw t of Inl e \<Rightarrow> Inl e | Inr snap \<Rightarrow> Inr (snap\<lparr>sn_polled_at := t'\<rparr>))"
  by (simp add: decode_feed_def Let_def split: sum.split)

lemma decode_feed_fields:
  "decode_feed pr feed raw t = Inr snap \<Longrightarrow>
     sn_feed snap = feed \<and> sn_polled_at snap = t \<and> sn_raw_sha256 snap = [] \<and> sn_raw_path snap = []"
  by (auto simp: decode_feed_def Let_def split: sum.splits if_splits)

section \<open>Nothing is lost\<close>

text \<open>
  A trip update, its sentinels read back: \<open>-1\<close> as an absent direction or sequence. Zero and
  the empty string are the same as absent.
\<close>

definition encode_stop_event :: "int \<Rightarrow> int \<Rightarrow> bool \<Rightarrow> pb_stop_event option" where
  "encode_stop_event time delay delay_set = Some
     \<lparr>pv_delay = (if delay_set then Some delay else None), pv_time = Some time\<rparr>"

definition encode_stop_time_update :: "(string \<Rightarrow> int) \<Rightarrow> stop_time_update \<Rightarrow> pb_stop_update" where
  "encode_stop_time_update number u =
     \<lparr>pu_stop_sequence = (if stu_stop_sequence u = - 1 then None else Some (stu_stop_sequence u)),
      pu_stop_id = Some (stu_stop_id u),
      pu_arrival = encode_stop_event (stu_arrival_time u) (stu_arrival_delay u) (stu_arrival_delay_set u),
      pu_departure = encode_stop_event (stu_departure_time u) (stu_departure_delay u) (stu_departure_delay_set u),
      pu_relationship = Some (number (stu_relationship u))\<rparr>"

definition encode_trip_update :: "(string \<Rightarrow> int) \<Rightarrow> (string \<Rightarrow> int) \<Rightarrow> trip_update \<Rightarrow> pb_trip_update" where
  "encode_trip_update trip_number stop_number u =
     \<lparr>pb_trip = Some
        \<lparr>pt_trip_id = Some (tu_trip_id u), pt_route_id = Some (tu_route_id u),
         pt_direction_id = (if tu_direction_id u = - 1 then None else Some (tu_direction_id u)),
         pt_start_time = Some (tu_start_time u), pt_start_date = Some (tu_start_date u),
         pt_relationship = Some (trip_number (tu_schedule_relationship u))\<rparr>,
      pb_vehicle = Some \<lparr>pi_id = Some (tu_vehicle_id u), pi_label = None\<rparr>,
      pb_stop_updates = map (encode_stop_time_update stop_number) (tu_stop_time_updates u),
      pb_timestamp = Some (tu_timestamp u),
      pb_delay = (if tu_delay_set u then Some (tu_delay_secs u) else None)\<rparr>"

text \<open>The updates a decoder can produce: a delay that is not set is 0, the direction fits.\<close>

definition stop_update_ok :: "proto \<Rightarrow> (string \<Rightarrow> int) \<Rightarrow> stop_time_update \<Rightarrow> bool" where
  "stop_update_ok pr number u \<longleftrightarrow>
     (\<not> stu_arrival_delay_set u \<longrightarrow> stu_arrival_delay u = 0) \<and>
     (\<not> stu_departure_delay_set u \<longrightarrow> stu_departure_delay u = 0) \<and>
     pr_stop_relationship pr (number (stu_relationship u)) = stu_relationship u"

lemma decode_encode_stop:
  "stop_update_ok pr number u \<Longrightarrow> decode_stop_time_update pr (encode_stop_time_update number u) = u"
  by (cases u) (auto simp: decode_stop_time_update_def encode_stop_time_update_def encode_stop_event_def
      stop_update_ok_def get_def get_of_def)

lemma decode_encode_trip:
  assumes "list_all (stop_update_ok pr stop_number) (tu_stop_time_updates u)"
    and "\<not> tu_delay_set u \<longrightarrow> tu_delay_secs u = 0" and "in_range 16 (tu_direction_id u)"
    and "pr_trip_relationship pr (trip_number (tu_schedule_relationship u)) = tu_schedule_relationship u"
  shows "decode_trip_update pr (encode_trip_update trip_number stop_number u) = u"
proof -
  have "map (\<lambda>s. decode_stop_time_update pr (encode_stop_time_update stop_number s)) (tu_stop_time_updates u) =
      tu_stop_time_updates u"
    using assms(1) decode_encode_stop by (intro map_idI) (auto simp: list_all_iff)
  then show ?thesis
    using assms(2-4) by (cases u) (auto simp: decode_trip_update_def encode_trip_update_def get_def get_of_def
        comp_def wrap_id)
qed

end
