(* ===== verification/Raw_Archive.thy ===== *)
theory Raw_Archive
  imports Database "HOL-Library.Product_Lexorder"
begin

text \<open>
  \<open>internal/store/rawarchive.go\<close>: the index of the archived responses. The locale
  \<open>archive_index\<close> states what the poller relies on: the hash last recorded for a feed is the
  one that is looked up, and nothing else changes the answer.
\<close>

section \<open>Operations\<close>

text \<open>The size and the number of entities are stored as \<open>INT\<close>; ids come from the sequence.\<close>

definition poll_stmt :: "raw_poll_row \<Rightarrow> db \<Rightarrow> (db \<times> unit) result" where
  "poll_stmt r d =
     (if \<not> in_range 32 (rr_bytes r) \<or> \<not> in_range 32 (rr_entity_count r)
      then Inl (Message ''value out of range'')
      else Inr (d\<lparr>db_raw_polls := db_raw_polls d @ [(db_poll_seq d, r)], db_poll_seq := db_poll_seq d + 1\<rparr>, ()))"

definition record_raw_poll ::
    "feed \<Rightarrow> instant \<Rightarrow> int \<Rightarrow> string \<Rightarrow> string \<Rightarrow> int \<Rightarrow> int \<Rightarrow> store sys \<Rightarrow> go_error option \<times> store sys" where
  "record_raw_poll feed polled_at feed_ts sha path bytes entities w =
     (case db_run (poll_stmt \<lparr>rr_feed = feed, rr_polled_at = polled_at,
            rr_feed_timestamp = (if feed_ts \<noteq> 0 then Some (wrap64 feed_ts) else None), rr_sha256 = sha,
            rr_path = path, rr_bytes = bytes, rr_entity_count = entities\<rparr>) w of
        (Inl e, w') \<Rightarrow> (Some (Wrapped ''store: record raw poll'' e), w')
      | (Inr _, w') \<Rightarrow> (None, w'))"

text \<open>\<open>ORDER BY polled_at DESC, id DESC LIMIT 1\<close>.\<close>

definition latest_poll :: "feed \<Rightarrow> db \<Rightarrow> (int \<times> raw_poll_row) option" where
  "latest_poll feed d =
     (case sort_key (\<lambda>(i, r). (- rr_polled_at r, - i)) (filter (\<lambda>(i, r). rr_feed r = feed) (db_raw_polls d)) of
        [] \<Rightarrow> None | x # _ \<Rightarrow> Some x)"

definition latest_sha :: "feed \<Rightarrow> db \<Rightarrow> string option" where
  "latest_sha feed d = map_option (\<lambda>(i, r). rr_sha256 r) (latest_poll feed d)"

definition last_sha :: "feed \<Rightarrow> store sys \<Rightarrow> string result \<times> store sys" where
  "last_sha feed w =
     (case db_query (latest_sha feed) w of
        (Inl e, w') \<Rightarrow> (Inl (Wrapped ''store: last sha'' e), w')
      | (Inr None, w') \<Rightarrow> (Inr [], w')
      | (Inr (Some sha), w') \<Rightarrow> (Inr sha, w'))"

definition store_archive :: "store raw_archive" where
  "store_archive = \<lparr>ra_record_raw_poll = record_raw_poll, ra_last_sha = last_sha\<rparr>"

section \<open>The contract of the index\<close>

definition newer :: "instant \<times> string \<Rightarrow> (instant \<times> string) option \<Rightarrow> (instant \<times> string) option" where
  "newer x old = (case old of None \<Rightarrow> Some x | Some y \<Rightarrow> if fst x < fst y then Some y else Some x)"

text \<open>
  \<open>latest w f = Some (t, sha)\<close>: the poll of \<open>f\<close> with the greatest instant, the last recorded
  of them, was at \<open>t\<close> with hash \<open>sha\<close>. A lookup that succeeds answers it; a record that
  succeeds replaces it unless it is older; one that fails may have happened.
\<close>

locale archive_index =
  fixes ra :: "'s raw_archive" and good :: "'s sys \<Rightarrow> bool"
    and latest :: "'s sys \<Rightarrow> feed \<Rightarrow> (instant \<times> string) option"
  assumes look_up: "good w \<Longrightarrow> ra_last_sha ra f w = (r, w') \<Longrightarrow>
      good w' \<and> latest w' = latest w \<and>
      (\<forall>sha. r = Inr sha \<longrightarrow> sha = (case latest w f of None \<Rightarrow> [] | Some (t, s) \<Rightarrow> s))"
    and record_poll: "good w \<Longrightarrow> ra_record_raw_poll ra f t ts sha path bytes n w = (e, w') \<Longrightarrow>
      good w' \<and> (latest w' = latest w \<or> latest w' = (latest w)(f := newer (t, sha) (latest w f))) \<and>
      (e = None \<longrightarrow> latest w' = (latest w)(f := newer (t, sha) (latest w f)))"
    and index_metrics: "good (on_metrics h w) = good w" "latest (on_metrics h w) = latest w"

section \<open>The tables keep the contract\<close>

definition polls_ok :: "db \<Rightarrow> bool" where
  "polls_ok d \<longleftrightarrow> al_wf (db_raw_polls d) \<and> (\<forall>i \<in> fst ` set (db_raw_polls d). i < db_poll_seq d)"

abbreviation poll_key :: "int \<times> raw_poll_row \<Rightarrow> int \<times> int" where
  "poll_key x \<equiv> (- rr_polled_at (snd x), - fst x)"

lemma latest_poll_sorted:
  "latest_poll f d = (case sort_key poll_key (filter (\<lambda>x. rr_feed (snd x) = f) (db_raw_polls d)) of
     [] \<Rightarrow> None | x # _ \<Rightarrow> Some x)"
  by (simp add: latest_poll_def case_prod_unfold)

lemma latest_poll_Some:
  assumes "latest_poll f d = Some x"
  shows "x \<in> set (db_raw_polls d) \<and> rr_feed (snd x) = f \<and>
    (\<forall>y \<in> set (db_raw_polls d). rr_feed (snd y) = f \<longrightarrow> poll_key x \<le> poll_key y)"
proof -
  let ?xs = "filter (\<lambda>x. rr_feed (snd x) = f) (db_raw_polls d)"
  obtain ys where ys: "sort_key poll_key ?xs = x # ys"
    using assms by (auto simp: latest_poll_sorted split: list.splits)
  have "set (x # ys) = set ?xs" unfolding ys [symmetric] by simp
  moreover have "sorted (map poll_key (x # ys))" unfolding ys [symmetric] by simp
  ultimately show ?thesis by auto
qed

lemma latest_poll_None: "latest_poll f d = None \<longleftrightarrow> (\<forall>x \<in> set (db_raw_polls d). rr_feed (snd x) \<noteq> f)"
proof -
  have "latest_poll f d = None \<longleftrightarrow> set (filter (\<lambda>x. rr_feed (snd x) = f) (db_raw_polls d)) = {}"
    unfolding latest_poll_sorted by (metis (no_types, lifting) list.simps(4) list.simps(5) neq_Nil_conv option.distinct(1)
        set_empty set_sort)
  then show ?thesis unfolding set_empty filter_empty_conv .
qed

lemma latest_poll_unique:
  assumes ok: "al_wf (db_raw_polls d)" and x: "x \<in> set (db_raw_polls d)" "rr_feed (snd x) = f"
    and least: "\<And>y. y \<in> set (db_raw_polls d) \<Longrightarrow> rr_feed (snd y) = f \<Longrightarrow> poll_key x \<le> poll_key y"
  shows "latest_poll f d = Some x"
proof -
  obtain z where z: "latest_poll f d = Some z" using latest_poll_None [of f d] x by (cases "latest_poll f d") blast+
  note zz = latest_poll_Some [OF z]
  have "poll_key z \<le> poll_key x" using zz x by blast
  moreover have "poll_key x \<le> poll_key z" using zz least by blast
  ultimately have "poll_key z = poll_key x" by (rule order_antisym)
  then have "fst z = fst x" by simp
  then have "z = x" using zz x(1) by (cases z; cases x) (auto simp: al_wf_mem [OF ok])
  then show ?thesis using z by simp
qed

definition store_latest :: "store sys \<Rightarrow> feed \<Rightarrow> (instant \<times> string) option" where
  "store_latest w f = map_option (\<lambda>x. (rr_polled_at (snd x), rr_sha256 (snd x))) (latest_poll f (sys_db w))"

abbreviation store_polls_ok :: "store sys \<Rightarrow> bool" where
  "store_polls_ok w \<equiv> polls_ok (sys_db w)"

lemma poll_stmt_latest:
  assumes ok: "polls_ok d" and s: "poll_stmt r d = Inr (d', u)"
  shows "polls_ok d' \<and> latest_poll (rr_feed r) d' =
      (case latest_poll (rr_feed r) d of None \<Rightarrow> Some (db_poll_seq d, r)
       | Some x \<Rightarrow> if rr_polled_at r < rr_polled_at (snd x) then Some x else Some (db_poll_seq d, r)) \<and>
    (\<forall>f. f \<noteq> rr_feed r \<longrightarrow> latest_poll f d' = latest_poll f d)"
proof -
  let ?new = "(db_poll_seq d, r)"
  have d': "d' = d\<lparr>db_raw_polls := db_raw_polls d @ [?new], db_poll_seq := db_poll_seq d + 1\<rparr>"
    using s by (auto simp: poll_stmt_def split: if_splits)
  have ok': "polls_ok d'" using ok by (auto simp: polls_ok_def d' al_wf_def)
  then have wf: "al_wf (db_raw_polls d')" by (simp add: polls_ok_def)
  have ids: "fst y < db_poll_seq d" if "y \<in> set (db_raw_polls d)" for y
    using ok that by (auto simp: polls_ok_def)
  have other: "latest_poll f d' = latest_poll f d" if "f \<noteq> rr_feed r" for f
    using that by (simp add: latest_poll_sorted d')
  show ?thesis
  proof (cases "latest_poll (rr_feed r) d")
    case None
    then have "latest_poll (rr_feed r) d' = Some ?new"
      by (intro latest_poll_unique [OF wf]) (auto simp: latest_poll_None d')
    then show ?thesis using ok' other None by simp
  next
    case (Some x)
    note x = latest_poll_Some [OF Some]
    show ?thesis
    proof (cases "rr_polled_at r < rr_polled_at (snd x)")
      case True
      have "latest_poll (rr_feed r) d' = Some x"
        using x True by (intro latest_poll_unique [OF wf]) (auto simp: d')
      then show ?thesis using ok' other Some True by simp
    next
      case False
      have "poll_key ?new \<le> poll_key y" if "y \<in> set (db_raw_polls d)" "rr_feed (snd y) = rr_feed r" for y
        using x that ids [OF that(1)] False by fastforce
      then have "latest_poll (rr_feed r) d' = Some ?new"
        by (intro latest_poll_unique [OF wf]) (auto simp: d')
      then show ?thesis using ok' other Some False by simp
    qed
  qed
qed

lemma latest_poll_faults [simp]: "latest_poll f (d\<lparr>db_faults := x\<rparr>) = latest_poll f d"
  by (simp add: latest_poll_def)

lemma polls_ok_faults [simp]: "polls_ok (d\<lparr>db_faults := x\<rparr>) = polls_ok d"
  by (simp add: polls_ok_def)

lemma record_raw_poll_latest:
  assumes ok: "store_polls_ok w" and run: "record_raw_poll f t ts sha path bytes n w = (e, w')"
  shows "store_polls_ok w' \<and>
    (store_latest w' = store_latest w \<or> store_latest w' = (store_latest w)(f := newer (t, sha) (store_latest w f))) \<and>
    (e = None \<longrightarrow> store_latest w' = (store_latest w)(f := newer (t, sha) (store_latest w f)))"
proof -
  define r where "r = \<lparr>rr_feed = f, rr_polled_at = t,
      rr_feed_timestamp = (if ts \<noteq> 0 then Some (wrap64 ts) else None), rr_sha256 = sha,
      rr_path = path, rr_bytes = bytes, rr_entity_count = n\<rparr>"
  have eff: "polls_ok d \<and> map_option (\<lambda>x. (rr_polled_at (snd x), rr_sha256 (snd x))) (latest_poll g d) =
      ((store_latest w)(f := newer (t, sha) (store_latest w f))) g" if "poll_stmt r (sys_db w) = Inr (d, u)" for d u g
    using poll_stmt_latest [OF ok that]
    by (auto simp: store_latest_def newer_def r_def split: option.splits)
  obtain x w1 where run1: "db_run (poll_stmt r) w = (x, w1)" by (metis surj_pair)
  have e: "w' = w1" "e = None \<longleftrightarrow> \<not> isl x"
    using run run1 by (auto simp: record_raw_poll_def r_def split: sum.splits)
  have "(store_polls_ok w1 \<and> store_latest w1 = store_latest w \<and> isl x) \<or>
      (store_polls_ok w1 \<and> store_latest w1 = (store_latest w)(f := newer (t, sha) (store_latest w f)))"
  proof (cases "poll_stmt r (sys_db w)")
    case (Inl a)
    then show ?thesis using run1 ok
      by (auto simp: db_run_def Inl store_latest_def fun_eq_iff split: option.splits fault.splits if_splits)
  next
    case (Inr y)
    obtain d u where y: "y = (d, u)" by (metis surj_pair)
    note eff = eff [OF Inr [unfolded y]]
    show ?thesis using run1 ok eff
      by (auto simp: db_run_def Inr y store_latest_def [of w1] fun_eq_iff split: option.splits fault.splits if_splits)
        (auto simp: store_latest_def)
  qed
  then show ?thesis unfolding e by blast
qed

lemma last_sha_latest:
  assumes "store_polls_ok w" and "last_sha f w = (r, w')"
  shows "store_polls_ok w' \<and> store_latest w' = store_latest w \<and>
    (\<forall>sha. r = Inr sha \<longrightarrow> sha = (case store_latest w f of None \<Rightarrow> [] | Some (t, s) \<Rightarrow> s))"
  using assms
  by (auto simp: last_sha_def db_query_def latest_sha_def store_latest_def fun_eq_iff
      split: option.splits fault.splits sum.splits)

interpretation pg_archive: archive_index store_archive store_polls_ok store_latest
proof
  show "store_polls_ok w' \<and> store_latest w' = store_latest w \<and>
      (\<forall>sha. r = Inr sha \<longrightarrow> sha = (case store_latest w f of None \<Rightarrow> [] | Some (t, s) \<Rightarrow> s))"
    if "store_polls_ok w" "ra_last_sha store_archive f w = (r, w')" for w f r w'
    using last_sha_latest that by (simp add: store_archive_def)
  show "store_polls_ok w' \<and>
      (store_latest w' = store_latest w \<or> store_latest w' = (store_latest w)(f := newer (t, sha) (store_latest w f))) \<and>
      (e = None \<longrightarrow> store_latest w' = (store_latest w)(f := newer (t, sha) (store_latest w f)))"
    if "store_polls_ok w" "ra_record_raw_poll store_archive f t ts sha path bytes n w = (e, w')"
    for w f t ts sha path bytes n e w'
    using record_raw_poll_latest that by (simp add: store_archive_def)
qed (simp_all add: store_latest_def fun_eq_iff)

end
