(* ===== verification/Poller.thy ===== *)
theory Poller
  imports Decode Raw_Archive
begin

text \<open>
  \<open>internal/ingest/ingest.go\<close>: one poll cycle, from the response to the sink.

  The archive on disk is a list of files by relative path and a list of directories. Every
  operation on it may fail, as a stream of faults says. The compression, the hash and the
  decoder of messages are the record \<open>codec\<close>: \<open>compress/gzip\<close> and \<open>crypto/sha256\<close> are
  bound by \<open>codec_ok\<close> to what they document. What the HTTP client answers is an argument. The sink works on its own state and on the state outside.
\<close>

section \<open>The disk\<close>

record codec =
  cd_gzip :: "string \<Rightarrow> string"
  cd_gunzip :: "string \<Rightarrow> string result"
  cd_sha :: "string \<Rightarrow> string"
  cd_proto :: proto

definition is_hex :: "char \<Rightarrow> bool" where
  "is_hex c \<longleftrightarrow> is_digit c \<or> (97 \<le> byte c \<and> byte c \<le> 102)"

definition codec_ok :: "codec \<Rightarrow> bool" where
  "codec_ok c \<longleftrightarrow> (\<forall>raw. cd_gunzip c (cd_gzip c raw) = Inr raw) \<and>
     (\<forall>raw. length (cd_sha c raw) = 64 \<and> list_all is_hex (cd_sha c raw))"

text \<open>
  What can fail: making the directories, creating the temporary file, or anything up to the
  rename, which may leave the temporary file behind; reading, walking or removing.
\<close>

datatype disk_fault =
    Mkdir_fault go_error
  | Temp_fault go_error
  | Write_fault go_error "(nat \<times> string) option"
  | Io_fault go_error

record disk =
  dk_files :: "(string \<times> string) list"
  dk_dirs :: "string list"
  dk_faults :: "disk_fault option list"

definition next_disk_fault :: "disk \<Rightarrow> disk_fault option" where
  "next_disk_fault d = (case dk_faults d of [] \<Rightarrow> None | f # _ \<Rightarrow> f)"

abbreviation drop_disk_fault :: "disk \<Rightarrow> disk" where
  "drop_disk_fault d \<equiv> d\<lparr>dk_faults := tl (dk_faults d)\<rparr>"

fun join_path :: "string list \<Rightarrow> string" where
  "join_path [] = []"
| "join_path [p] = p"
| "join_path (p # q # ps) = p @ ''/'' @ join_path (q # ps)"

definition parents :: "string \<Rightarrow> string list" where
  "parents path = (let ps = split_on (CHR ''/'') path in map (\<lambda>i. join_path (take i ps)) [1..<length ps])"

definition make_dirs :: "string \<Rightarrow> disk \<Rightarrow> disk" where
  "make_dirs path d = d\<lparr>dk_dirs := dk_dirs d @ filter (\<lambda>p. p \<notin> set (dk_dirs d)) (parents path)\<rparr>"

text \<open>The name that \<open>CreateTemp(dir, ".tmp-*")\<close> makes up next to \<open>path\<close>.\<close>

definition temp_path :: "string \<Rightarrow> nat \<Rightarrow> string" where
  "temp_path path n = join_path (butlast (split_on (CHR ''/'') path) @ [''.tmp-'' @ nat_dec n])"

section \<open>Archiving\<close>

text \<open>\<open>path.Join\<close> of parts that are not empty and have neither slashes nor dots alone.\<close>

definition blob_path :: "feed \<Rightarrow> instant \<Rightarrow> string \<Rightarrow> string" where
  "blob_path feed polled_at sha =
     (case civil_of_days (local_day utc polled_at) of (y, m, d) \<Rightarrow>
       join_path [feed, fmt_0d 4 y, fmt_0d 2 m, fmt_0d 2 d, fmt_0d 2 (local_hour utc polled_at),
         fmt_d (to_unix polled_at) @ ''_'' @ take 8 sha @ ''.pb.gz''])"

text \<open>The file appears with the rename, complete or not at all.\<close>

definition write_blob :: "codec \<Rightarrow> string \<Rightarrow> string \<Rightarrow> disk \<Rightarrow> int result \<times> disk" where
  "write_blob c path raw d =
     (let gz = cd_gzip c raw; d' = drop_disk_fault d; made = make_dirs path d' in
      case next_disk_fault d of
        None \<Rightarrow> (Inr (int (length gz)), made\<lparr>dk_files := al_put path gz (dk_files made)\<rparr>)
      | Some (Mkdir_fault e) \<Rightarrow> (Inl (Wrapped ''archive mkdir'' e), d')
      | Some (Temp_fault e) \<Rightarrow> (Inl (Wrapped ''archive temp file'' e), made)
      | Some (Io_fault e) \<Rightarrow> (Inl (Wrapped (''archive '' @ path) e), made)
      | Some (Write_fault e left) \<Rightarrow>
          (Inl (Wrapped (''archive '' @ path) e),
           (case left of None \<Rightarrow> made
            | Some (n, part) \<Rightarrow> made\<lparr>dk_files := al_put (temp_path path n) part (dk_files made)\<rparr>)))"

section \<open>The poll cycle\<close>

record poller =
  pl_feed :: feed
  pl_url :: string
  pl_interval :: duration
  pl_timeout :: duration
  pl_last_feed_ts :: int

definition new_poller :: "feed \<Rightarrow> string \<Rightarrow> duration \<Rightarrow> poller" where
  "new_poller feed url interval =
     (let i = (if interval \<le> 0 then 15 * second else interval)
      in \<lparr>pl_feed = feed, pl_url = url, pl_interval = i, pl_timeout = min i (10 * second), pl_last_feed_ts = 0\<rparr>)"

type_synonym ('e, 's) sink = "snapshot \<Rightarrow> 'e \<times> 's sys \<Rightarrow> go_error option \<times> 'e \<times> 's sys"

text \<open>
  What the HTTP client answers: no request could be built, no response came, or a response
  with its status and a body that may fail to arrive.
\<close>

datatype http_reply = No_request go_error | No_reply go_error | Reply int string "string result"

definition fetch :: "string \<Rightarrow> http_reply \<Rightarrow> string result" where
  "fetch url reply =
     (case reply of
        No_request e \<Rightarrow> Inl (Wrapped ''build request'' e)
      | No_reply e \<Rightarrow> Inl (Wrapped (''fetch '' @ url) e)
      | Reply code status body \<Rightarrow>
          if code \<noteq> 200 then Inl (Message (''fetch '' @ url @ '': status '' @ status))
          else case body of Inl e \<Rightarrow> Inl (Wrapped (''read body '' @ url) e) | Inr raw \<Rightarrow> Inr raw)"

text \<open>What a poll sees of the world: when it starts, when it ends, whether its context is done.\<close>

record poll_input =
  pi_start :: instant
  pi_later :: instant
  pi_ctx_err :: "go_error option"
  pi_reply :: http_reply

definition fetched :: "poller \<Rightarrow> poll_input \<Rightarrow> string result" where
  "fetched p i = fetch (pl_url p) (pi_reply i)"

abbreviation count_poll :: "feed \<Rightarrow> string \<Rightarrow> 's sys \<Rightarrow> 's sys" where
  "count_poll feed label \<equiv> on_metrics (\<lambda>m. m\<lparr>mt_polls := (feed, label) # mt_polls m\<rparr>)"

definition note_staleness :: "feed \<Rightarrow> int \<Rightarrow> instant \<Rightarrow> 's sys \<Rightarrow> 's sys" where
  "note_staleness feed ts later w =
     (if ts > 0 then on_metrics (\<lambda>m. m\<lparr>mt_feed_staleness :=
          (feed, go_sub later (unix_time (wrap64 ts))) # mt_feed_staleness m\<rparr>) w
      else w)"

definition snapshot_size :: "snapshot \<Rightarrow> int" where
  "snapshot_size snap = int (length (sn_trip_updates snap)) + int (length (sn_vehicles snap))"

text \<open>Decoded and indexed: the snapshot goes to the sink.\<close>

definition sink_snapshot ::
    "('e, 's) sink option \<Rightarrow> instant \<Rightarrow> snapshot \<Rightarrow> poller \<times> disk \<times> 'e \<times> 's sys \<Rightarrow>
     go_error option \<times> poller \<times> disk \<times> 'e \<times> 's sys" where
  "sink_snapshot sink later snap s =
     (case s of (p, d, e, w) \<Rightarrow>
       (case (case sink of None \<Rightarrow> (None, e, w) | Some f \<Rightarrow> f snap (e, w)) of
          (Some err, e', w') \<Rightarrow> (Some (Wrapped ''sink'' err), p, d, e', count_poll (pl_feed p) ''error'' w')
        | (None, e', w') \<Rightarrow>
            (None, p\<lparr>pl_last_feed_ts := sn_feed_timestamp snap\<rparr>, d, e',
             note_staleness (pl_feed p) (sn_feed_timestamp snap) later (count_poll (pl_feed p) ''ok'' w'))))"

text \<open>The response differs from the last one: archive it, index it, decode it, in this order.\<close>

definition poll_changed ::
    "codec \<Rightarrow> 's raw_archive \<Rightarrow> ('e, 's) sink option \<Rightarrow> poll_input \<Rightarrow> string \<Rightarrow> poller \<times> disk \<times> 'e \<times> 's sys \<Rightarrow>
     go_error option \<times> poller \<times> disk \<times> 'e \<times> 's sys" where
  "poll_changed c ra sink i raw s =
     (case s of (p, d, e, w) \<Rightarrow>
       (let sha = cd_sha c raw; path = blob_path (pl_feed p) (pi_start i) sha in
        case write_blob c path raw d of
          (Inl err, d') \<Rightarrow> (Some err, p, d', e, count_poll (pl_feed p) ''error'' w)
        | (Inr n_bytes, d') \<Rightarrow>
            (let w1 = on_metrics (\<lambda>m. m\<lparr>mt_raw_archive_bytes := mt_raw_archive_bytes m + n_bytes\<rparr>) w;
                 dec = decode_feed (cd_proto c) (pl_feed p) raw (pi_start i);
                 (ts, n) = (case dec of Inl _ \<Rightarrow> (0, 0) | Inr snap \<Rightarrow> (sn_feed_timestamp snap, snapshot_size snap))
             in case ra_record_raw_poll ra (pl_feed p) (pi_start i) ts sha path n_bytes n w1 of
                  (Some err, w2) \<Rightarrow>
                    (Some (Wrapped ''record raw poll'' err), p, d', e, count_poll (pl_feed p) ''error'' w2)
                | (None, w2) \<Rightarrow>
                    (case dec of
                       Inl err \<Rightarrow> (Some err, p, d', e, count_poll (pl_feed p) ''decode_error'' w2)
                     | Inr snap \<Rightarrow>
                         sink_snapshot sink (pi_later i) (snap\<lparr>sn_raw_sha256 := sha, sn_raw_path := path\<rparr>)
                           (p, d', e, w2)))))"

definition poll_once ::
    "codec \<Rightarrow> 's raw_archive \<Rightarrow> ('e, 's) sink option \<Rightarrow> poll_input \<Rightarrow> poller \<times> disk \<times> 'e \<times> 's sys \<Rightarrow>
     go_error option \<times> poller \<times> disk \<times> 'e \<times> 's sys" where
  "poll_once c ra sink i s =
     (case s of (p, d, e, w) \<Rightarrow>
       (case fetched p i of
          Inl err \<Rightarrow>
            (case pi_ctx_err i of
               Some x \<Rightarrow> (Some x, s)
             | None \<Rightarrow> (Some err, p, d, e, count_poll (pl_feed p) ''error'' w))
        | Inr raw \<Rightarrow>
            (case ra_last_sha ra (pl_feed p) w of (r, w1) \<Rightarrow>
              (let last = (case r of Inl _ \<Rightarrow> [] | Inr sha \<Rightarrow> sha) in
               if last \<noteq> [] \<and> last = cd_sha c raw
               then (None, p, d, e, note_staleness (pl_feed p) (pl_last_feed_ts p) (pi_later i)
                       (count_poll (pl_feed p) ''unchanged'' w1))
               else poll_changed c ra sink i raw (p, d, e, w1)))))"

text \<open>\<open>Run\<close>: polls one after the other; the errors are logged only.\<close>

fun poll_run ::
    "codec \<Rightarrow> 's raw_archive \<Rightarrow> ('e, 's) sink option \<Rightarrow> poll_input list \<Rightarrow> poller \<times> disk \<times> 'e \<times> 's sys \<Rightarrow>
     poller \<times> disk \<times> 'e \<times> 's sys" where
  "poll_run c ra sink [] s = s"
| "poll_run c ra sink (i # is) s = poll_run c ra sink is (snd (poll_once c ra sink i s))"

section \<open>Paths of blobs\<close>

lemma split_join: "ps \<noteq> [] \<Longrightarrow> (\<And>p. p \<in> set ps \<Longrightarrow> CHR ''/'' \<notin> set p) \<Longrightarrow> split_on (CHR ''/'') (join_path ps) = ps"
  by (induction ps rule: join_path.induct) (auto simp: split_on_single split_on_append)

lemma last_part_join:
  "ps \<noteq> [] \<Longrightarrow> (\<And>p. p \<in> set ps \<Longrightarrow> CHR ''/'' \<notin> set p) \<Longrightarrow> last_part (CHR ''/'') (join_path ps) = last ps"
  by (simp add: last_part_def split_join)

lemma digit_no_slash: "is_digit c \<Longrightarrow> c \<noteq> CHR ''/''"
  by (auto simp: is_digit_def byte_def)

lemma hex_no_slash: "is_hex c \<Longrightarrow> c \<noteq> CHR ''/''"
  by (auto simp: is_hex_def is_digit_def byte_def)

lemma nat_dec_no_slash [simp]: "CHR ''/'' \<notin> set (nat_dec n)"
  using nat_dec_digits digit_no_slash by blast

lemma zeros_no_slash [simp]: "CHR ''/'' \<notin> set (zeros n)"
  by (simp add: zeros_def)

lemma fmt_no_slash [simp]: "CHR ''/'' \<notin> set (fmt_d n)" "CHR ''/'' \<notin> set (fmt_0d w n)"
  by (simp_all add: fmt_d_def fmt_0d_def)

abbreviation blob_file :: "instant \<Rightarrow> string \<Rightarrow> string" where
  "blob_file t sha \<equiv> fmt_d (to_unix t) @ ''_'' @ take 8 sha @ ''.pb.gz''"

text \<open>The feeds and hashes that make up paths.\<close>

definition known_feed :: "feed \<Rightarrow> bool" where
  "known_feed f \<longleftrightarrow> f = feed_trip_updates \<or> f = feed_vehicle_positions"

lemma known_feed_no_slash: "known_feed f \<Longrightarrow> CHR ''/'' \<notin> set f"
  by (auto simp: known_feed_def feed_trip_updates_def feed_vehicle_positions_def)

lemma blob_path_parts:
  assumes "known_feed f" and "list_all is_hex sha"
  obtains ps where "blob_path f t sha = join_path (f # ps @ [blob_file t sha])"
    "split_on (CHR ''/'') (blob_path f t sha) = f # ps @ [blob_file t sha]" "ps \<noteq> []"
proof -
  obtain y m d where c: "civil_of_days (local_day utc t) = (y, m, d)" by (metis surj_pair)
  let ?ps = "[fmt_0d 4 y, fmt_0d 2 m, fmt_0d 2 d, fmt_0d 2 (local_hour utc t)]"
  have eq: "blob_path f t sha = join_path (f # ?ps @ [blob_file t sha])" by (simp add: blob_path_def c)
  have "CHR ''/'' \<notin> set (take 8 sha)"
    using assms(2) hex_no_slash by (metis in_set_takeD list_all_iff)
  then have "CHR ''/'' \<notin> set p" if "p \<in> set (f # ?ps @ [blob_file t sha])" for p
    using that known_feed_no_slash [OF assms(1)] by auto
  then have "split_on (CHR ''/'') (blob_path f t sha) = f # ?ps @ [blob_file t sha]"
    unfolding eq by (intro split_join) auto
  then show ?thesis using that eq by blast
qed

lemma blob_path_file:
  "known_feed f \<Longrightarrow> list_all is_hex sha \<Longrightarrow> last_part (CHR ''/'') (blob_path f t sha) = blob_file t sha"
  by (metis blob_path_parts last_part_def last_snoc last_ConsR append_is_Nil_conv not_Cons_self2)

text \<open>A temporary file is not a blob.\<close>

lemma temp_path_file:
  assumes "known_feed f" and "list_all is_hex sha"
  shows "last_part (CHR ''/'') (temp_path (blob_path f t sha) n) = ''.tmp-'' @ nat_dec n"
proof -
  obtain ps where ps: "split_on (CHR ''/'') (blob_path f t sha) = f # ps @ [blob_file t sha]"
    using blob_path_parts [OF assms] by metis
  have "CHR ''/'' \<notin> set p" if "p \<in> set (f # ps @ [''.tmp-'' @ nat_dec n])" for p
    using that split_on_parts [of p "CHR ''/''" "blob_path f t sha"] unfolding ps by auto
  then show ?thesis unfolding temp_path_def ps by (subst last_part_join) auto
qed

section \<open>What a poll leaves on disk\<close>

lemma make_dirs_files [simp]: "dk_files (make_dirs path d) = dk_files d" "dk_faults (make_dirs path d) = dk_faults d"
  by (simp_all add: make_dirs_def)

definition left_temp :: "string \<Rightarrow> (string \<times> string) list \<Rightarrow> (string \<times> string) list \<Rightarrow> bool" where
  "left_temp path fs fs' \<longleftrightarrow> fs' = fs \<or> (\<exists>n part. fs' = al_put (temp_path path n) part fs)"

lemma left_temp_simps [simp]: "left_temp path fs fs" "left_temp path fs (al_put (temp_path path n) part fs)"
  by (auto simp: left_temp_def)

text \<open>A write that succeeded is on disk; one that failed leaves at most a temporary file.\<close>

lemma write_blob_files:
  assumes "write_blob c path raw d = (r, d')"
  shows "(\<exists>n. r = Inr n \<and> dk_files d' = al_put path (cd_gzip c raw) (dk_files d)) \<or>
    (\<exists>e. r = Inl e \<and> left_temp path (dk_files d) (dk_files d'))"
  using assms
  by (cases "next_disk_fault d") (auto simp: write_blob_def Let_def split: disk_fault.splits option.splits)

lemma sink_snapshot_frame:
  "sink_snapshot sink later snap (p, d, e, w) = (err, p', d', e', w') \<Longrightarrow> d' = d \<and> pl_feed p' = pl_feed p"
  by (auto simp: sink_snapshot_def split: option.splits prod.splits)

text \<open>
  The outcomes of a poll. Nothing happened but in the index and the counters; the write
  failed; or the response is on disk, and only then does the sink see a snapshot, which is
  decoded from these bytes.
\<close>

definition sunk :: "codec \<Rightarrow> feed \<Rightarrow> instant \<Rightarrow> string \<Rightarrow> snapshot \<Rightarrow> bool" where
  "sunk c f t raw snap \<longleftrightarrow> (\<exists>s. decode_feed (cd_proto c) f raw t = Inr s \<and>
     snap = s\<lparr>sn_raw_sha256 := cd_sha c raw, sn_raw_path := blob_path f t (cd_sha c raw)\<rparr>)"

lemma poll_changed_outcome:
  assumes "poll_changed c ra sink i raw (p, d, e, w) = (err, p', d', e', w')"
  defines "path \<equiv> blob_path (pl_feed p) (pi_start i) (cd_sha c raw)"
  shows "pl_feed p' = pl_feed p \<and>
    ((err \<noteq> None \<and> e' = e \<and> left_temp path (dk_files d) (dk_files d')) \<or>
     (dk_files d' = al_put path (cd_gzip c raw) (dk_files d) \<and>
        ((err \<noteq> None \<and> e' = e) \<or>
         (\<exists>snap w1 err1 w2. sunk c (pl_feed p) (pi_start i) raw snap \<and>
            (case sink of None \<Rightarrow> (None, e, w1) | Some f \<Rightarrow> f snap (e, w1)) = (err1, e', w2) \<and>
            (err = None \<longleftrightarrow> err1 = None)))))"
proof -
  obtain r d1 where wr: "write_blob c path raw d = (r, d1)" by (metis surj_pair)
  note files = write_blob_files [OF wr]
  show ?thesis
  proof (cases r)
    case (Inl x)
    then show ?thesis using assms(1) wr files by (auto simp: poll_changed_def path_def [symmetric] Let_def)
  next
    case (Inr n_bytes)
    then have fs: "dk_files d1 = al_put path (cd_gzip c raw) (dk_files d)" using files by auto
    define dec where "dec = decode_feed (cd_proto c) (pl_feed p) raw (pi_start i)"
    define ts where "ts = (case dec of Inl _ \<Rightarrow> 0 | Inr snap \<Rightarrow> sn_feed_timestamp snap)"
    define n where "n = (case dec of Inl _ \<Rightarrow> 0 | Inr snap \<Rightarrow> snapshot_size snap)"
    define w1 where "w1 = on_metrics (\<lambda>m. m\<lparr>mt_raw_archive_bytes := mt_raw_archive_bytes m + n_bytes\<rparr>) w"
    have tsn: "(case dec of Inl _ \<Rightarrow> (0, 0) | Inr snap \<Rightarrow> (sn_feed_timestamp snap, snapshot_size snap)) = (ts, n)"
      by (simp add: ts_def n_def split: sum.split)
    obtain re w2 where rec: "ra_record_raw_poll ra (pl_feed p) (pi_start i) ts (cd_sha c raw) path n_bytes n w1 = (re, w2)"
      by (metis surj_pair)
    have run: "(case re of
          Some err \<Rightarrow> (Some (Wrapped ''record raw poll'' err), p, d1, e, count_poll (pl_feed p) ''error'' w2)
        | None \<Rightarrow> (case dec of
             Inl err \<Rightarrow> (Some err, p, d1, e, count_poll (pl_feed p) ''decode_error'' w2)
           | Inr snap \<Rightarrow> sink_snapshot sink (pi_later i) (snap\<lparr>sn_raw_sha256 := cd_sha c raw, sn_raw_path := path\<rparr>)
               (p, d1, e, w2))) = (err, p', d', e', w')"
      using assms(1) wr Inr tsn rec unfolding path_def
      by (simp add: poll_changed_def Let_def dec_def [symmetric] w1_def [symmetric])
    show ?thesis
    proof (cases "\<exists>snap. re = None \<and> dec = Inr snap")
      case False
      then show ?thesis using run fs by (cases re; cases dec) auto
    next
      case True
      then obtain s where s: "re = None" "dec = Inr s" by blast
      define snap where "snap = s\<lparr>sn_raw_sha256 := cd_sha c raw, sn_raw_path := path\<rparr>"
      have sk: "sink_snapshot sink (pi_later i) snap (p, d1, e, w2) = (err, p', d', e', w')"
        using run s by (simp add: snap_def)
      obtain err1 e1 w3 where call: "(case sink of None \<Rightarrow> (None, e, w2) | Some f \<Rightarrow> f snap (e, w2)) = (err1, e1, w3)"
        by (metis prod_cases3)
      have "e' = e1 \<and> (err = None \<longleftrightarrow> err1 = None)"
        using sk call by (auto simp: sink_snapshot_def split: option.splits)
      moreover have "sunk c (pl_feed p) (pi_start i) raw snap"
        using s(2) by (auto simp: sunk_def snap_def path_def dec_def)
      ultimately show ?thesis using call sink_snapshot_frame [OF sk] fs by blast
    qed
  qed
qed

lemma temp_not_blob:
  assumes "known_feed f" "list_all is_hex sha" "0 \<le> to_unix t" and "known_feed f'" "list_all is_hex sha'"
  shows "blob_path f t sha \<noteq> temp_path (blob_path f' t' sha') n"
proof
  assume "blob_path f t sha = temp_path (blob_path f' t' sha') n"
  then have eq: "blob_file t sha = ''.tmp-'' @ nat_dec n"
    using temp_path_file [OF assms(4,5)] blob_path_file [OF assms(1,2)] by metis
  obtain x xs where x: "fmt_d (to_unix t) = x # xs" using assms(3) by (cases "fmt_d (to_unix t)") (auto simp: fmt_d_def)
  then have "is_digit x" using fmt_d_digits [OF assms(3)] by simp
  moreover have "x = CHR ''.''" using eq x by simp
  ultimately show False by (simp add: is_digit_def byte_def)
qed

text \<open>A poll of a response either leaves the blobs alone and does not call the sink, or archives it.\<close>

lemma poll_once_outcome:
  assumes run: "poll_once c ra sink i (p, d, e, w) = (err, p', d', e', w')" and resp: "fetched p i = Inr raw"
  defines "path \<equiv> blob_path (pl_feed p) (pi_start i) (cd_sha c raw)"
  shows "(e' = e \<and> (err \<noteq> None \<or> fst (ra_last_sha ra (pl_feed p) w) = Inr (cd_sha c raw)) \<and>
      left_temp path (dk_files d) (dk_files d')) \<or>
    (dk_files d' = al_put path (cd_gzip c raw) (dk_files d) \<and>
      ((err \<noteq> None \<and> e' = e) \<or>
       (\<exists>snap w1 err1 w2. sunk c (pl_feed p) (pi_start i) raw snap \<and>
          (case sink of None \<Rightarrow> (None, e, w1) | Some f \<Rightarrow> f snap (e, w1)) = (err1, e', w2) \<and>
          (err = None \<longleftrightarrow> err1 = None))))"
proof -
  obtain r w1 where l: "ra_last_sha ra (pl_feed p) w = (r, w1)" by (metis surj_pair)
  show ?thesis
  proof (cases "r = Inr (cd_sha c raw) \<and> cd_sha c raw \<noteq> []")
    case True
    then show ?thesis using run resp l by (auto simp: poll_once_def)
  next
    case False
    then have "poll_changed c ra sink i raw (p, d, e, w1) = (err, p', d', e', w')"
      using run resp l by (auto simp: poll_once_def Let_def split: sum.splits if_splits)
    from poll_changed_outcome [OF this] show ?thesis unfolding path_def by blast
  qed
qed

end
