(* ===== verification/Replay.thy ===== *)
theory Replay
  imports Poller "HOL-Library.List_Lexorder" "HOL-Library.Char_ord"
begin

text \<open>
  \<open>internal/ingest/replay.go\<close>: the archive read back in order of time, and pruned. The walk
  visits the files in the order of their list, which is any order.
\<close>

section \<open>Paths\<close>

text \<open>
  An archived poll. The order is that of \<open>discoverBlobs\<close>: by time, then by path, which
  decides the feed.
\<close>

datatype blob_ref = Blob (bl_feed: feed) (bl_unix: int) (bl_path: string)

abbreviation blob_key :: "blob_ref \<Rightarrow> int \<times> string \<times> feed" where
  "blob_key b \<equiv> (bl_unix b, bl_path b, bl_feed b)"

instantiation blob_ref :: linorder
begin

definition less_eq_blob_ref :: "blob_ref \<Rightarrow> blob_ref \<Rightarrow> bool" where
  "less_eq_blob_ref a b \<longleftrightarrow> blob_key a \<le> blob_key b"

definition less_blob_ref :: "blob_ref \<Rightarrow> blob_ref \<Rightarrow> bool" where
  "less_blob_ref a b \<longleftrightarrow> blob_key a < blob_key b"

instance
proof
  fix a b c :: blob_ref
  show "(a < b) = (a \<le> b \<and> \<not> b \<le> a)" by (simp only: less_eq_blob_ref_def less_blob_ref_def less_le_not_le)
  show "a \<le> a" by (simp only: less_eq_blob_ref_def order_refl)
  show "a \<le> b \<Longrightarrow> b \<le> c \<Longrightarrow> a \<le> c" unfolding less_eq_blob_ref_def by (rule order_trans)
  show "a \<le> b \<Longrightarrow> b \<le> a \<Longrightarrow> a = b"
    unfolding less_eq_blob_ref_def by (drule (1) order_antisym) (simp add: blob_ref.expand)
  show "a \<le> b \<or> b \<le> a" unfolding less_eq_blob_ref_def by (rule linear)
qed

end

text \<open>\<open>blobNameRe\<close>, and its digits.\<close>

definition blob_name :: "string \<Rightarrow> string option" where
  "blob_name s =
     (let ds = takeWhile is_digit s; rest = dropWhile is_digit s
      in if ds \<noteq> [] \<and> length rest = 15 \<and> hd rest = CHR ''_'' \<and> list_all is_hex (take 8 (tl rest)) \<and>
            drop 9 rest = ''.pb.gz''
         then Some ds else None)"

definition parse_blob_path :: "string \<Rightarrow> blob_ref option" where
  "parse_blob_path rel =
     (case blob_name (last_part (CHR ''/'') rel) of
        None \<Rightarrow> None
      | Some ds \<Rightarrow>
          (let feed = (if has_prefix rel (feed_trip_updates @ ''/'') then Some feed_trip_updates
                       else if has_prefix rel (feed_vehicle_positions @ ''/'') then Some feed_vehicle_positions
                       else None)
           in case feed of None \<Rightarrow> None
              | Some f \<Rightarrow> (case parse_int ds of None \<Rightarrow> None | Some u \<Rightarrow> Some (Blob f u rel))))"

section \<open>Reading the archive\<close>

definition discover_blobs :: "disk \<Rightarrow> blob_ref list result \<times> disk" where
  "discover_blobs d =
     (case next_disk_fault d of
        Some (Io_fault e) \<Rightarrow> (Inl (Wrapped ''walk archive'' e), drop_disk_fault d)
      | _ \<Rightarrow> (Inr (sort (List.map_filter parse_blob_path (map fst (dk_files d)))), drop_disk_fault d))"

definition read_blob :: "codec \<Rightarrow> blob_ref \<Rightarrow> disk \<Rightarrow> snapshot result \<times> disk" where
  "read_blob c b d =
     (case (case next_disk_fault d of
              Some (Io_fault e) \<Rightarrow> Inl e
            | _ \<Rightarrow> (case map_of (dk_files d) (bl_path b) of
                      None \<Rightarrow> Inl (Message ''no such file'')
                    | Some gz \<Rightarrow>
                        (case cd_gunzip c gz of
                           Inl e \<Rightarrow> Inl (Wrapped (''gunzip '' @ bl_path b) e)
                         | Inr raw \<Rightarrow>
                             (case decode_feed (cd_proto c) (bl_feed b) raw (unix_time (bl_unix b)) of
                                Inl e \<Rightarrow> Inl e
                              | Inr snap \<Rightarrow>
                                  Inr (snap\<lparr>sn_raw_sha256 := cd_sha c raw, sn_raw_path := bl_path b\<rparr>))))) of
        r \<Rightarrow> (r, drop_disk_fault d))"

text \<open>\<open>cancelled n\<close>: the context is done before the blob number \<open>n\<close> in range.\<close>

fun replay_blobs ::
    "codec \<Rightarrow> (nat \<Rightarrow> bool) \<Rightarrow> ('e, 's) sink \<Rightarrow> nat \<Rightarrow> blob_ref list \<Rightarrow> int \<Rightarrow> disk \<times> 'e \<times> 's sys \<Rightarrow>
     (int \<times> go_error option) \<times> disk \<times> 'e \<times> 's sys" where
  "replay_blobs c cancelled sink k [] n s = ((n, None), s)"
| "replay_blobs c cancelled sink k (b # bs) n (d, e, w) =
     (if cancelled k then ((n, Some (Sentinel Ctx_canceled)), (d, e, w))
      else case read_blob c b d of
          (Inl err, d') \<Rightarrow>
            replay_blobs c cancelled sink (Suc k) bs n (d', e, count_poll (bl_feed b) ''decode_error'' w)
        | (Inr snap, d') \<Rightarrow>
            (case sink snap (e, w) of
               (Some err, e', w') \<Rightarrow> ((n, Some (Wrapped (''replay sink '' @ bl_path b) err)), (d', e', w'))
             | (None, e', w') \<Rightarrow> replay_blobs c cancelled sink (Suc k) bs (n + 1) (d', e', w')))"

definition replay ::
    "codec \<Rightarrow> (nat \<Rightarrow> bool) \<Rightarrow> ('e, 's) sink \<Rightarrow> instant \<Rightarrow> instant \<Rightarrow> disk \<times> 'e \<times> 's sys \<Rightarrow>
     (int \<times> go_error option) \<times> disk \<times> 'e \<times> 's sys" where
  "replay c cancelled sink lo hi s =
     (case s of (d, e, w) \<Rightarrow>
       (case discover_blobs d of
          (Inl err, d') \<Rightarrow> ((0, Some err), (d', e, w))
        | (Inr blobs, d') \<Rightarrow>
            replay_blobs c cancelled sink 0
              (filter (\<lambda>b. \<not> (bl_unix b < to_unix lo \<or> bl_unix b > to_unix hi)) blobs) 0 (d', e, w)))"

section \<open>Pruning\<close>

definition prunable :: "int \<Rightarrow> string \<Rightarrow> bool" where
  "prunable cutoff rel =
     (case blob_name (last_part (CHR ''/'') rel) of
        None \<Rightarrow> False
      | Some ds \<Rightarrow> (case parse_int ds of None \<Rightarrow> False | Some u \<Rightarrow> \<not> u \<ge> cutoff))"

text \<open>The walk removes as it goes; the first failure ends it.\<close>

fun prune_files :: "int \<Rightarrow> string list \<Rightarrow> int \<Rightarrow> disk \<Rightarrow> (int \<times> go_error option) \<times> disk" where
  "prune_files cutoff [] n d = ((n, None), d)"
| "prune_files cutoff (rel # rels) n d =
     (if \<not> prunable cutoff rel then prune_files cutoff rels n d
      else case next_disk_fault d of
          Some (Io_fault e) \<Rightarrow> ((n, Some (Wrapped (''prune '' @ rel) e)), drop_disk_fault d)
        | _ \<Rightarrow> prune_files cutoff rels (n + 1) ((drop_disk_fault d)\<lparr>dk_files := al_del rel (dk_files d)\<rparr>))"

definition inside :: "string \<Rightarrow> string \<Rightarrow> bool" where
  "inside dir path = has_prefix path (dir @ ''/'')"

text \<open>\<open>os.Remove\<close> of a directory fails, and is ignored, unless it is empty.\<close>

definition remove_dir :: "string \<Rightarrow> disk \<Rightarrow> disk" where
  "remove_dir dir d =
     (if list_ex (inside dir) (map fst (dk_files d) @ dk_dirs d) then d
      else d\<lparr>dk_dirs := filter (\<lambda>x. x \<noteq> dir) (dk_dirs d)\<rparr>)"

definition depth :: "string \<Rightarrow> nat" where
  "depth path = length (filter (\<lambda>c. c = CHR ''/'') path)"

definition prune_archive :: "instant \<Rightarrow> disk \<Rightarrow> (int \<times> go_error option) \<times> disk" where
  "prune_archive older_than d =
     (case next_disk_fault d of
        Some (Io_fault e) \<Rightarrow> ((0, Some (Wrapped ''prune walk'' e)), drop_disk_fault d)
      | _ \<Rightarrow>
          (case prune_files (to_unix older_than) (map fst (dk_files d)) 0 (drop_disk_fault d) of
             ((n, Some e), d') \<Rightarrow> ((n, Some (Wrapped ''prune walk'' e)), d')
           | ((n, None), d') \<Rightarrow>
               ((n, None), fold remove_dir (sort_key (\<lambda>p. - int (depth p)) (dk_dirs d)) d')))"

section \<open>Blobs found again\<close>

lemma takeWhile_digits:
  assumes "list_all is_digit ds" and "\<not> is_digit x"
  shows "takeWhile is_digit (ds @ x # r) = ds" "dropWhile is_digit (ds @ x # r) = x # r"
  using assms by (simp_all add: takeWhile_append2 dropWhile_append2 list_all_iff)

lemma blob_name_file:
  assumes u: "0 \<le> to_unix t" and sha: "8 \<le> length sha" "list_all is_hex sha"
  shows "blob_name (blob_file t sha) = Some (fmt_d (to_unix t))"
proof -
  have ds: "list_all is_digit (fmt_d (to_unix t))" using fmt_d_digits [OF u] by (simp add: list_all_iff)
  have eq: "blob_file t sha = fmt_d (to_unix t) @ CHR ''_'' # take 8 sha @ ''.pb.gz''" by simp
  have "\<not> is_digit (CHR ''_'')" by (simp add: is_digit_def byte_def)
  note parts = takeWhile_digits [OF ds this, of "take 8 sha @ ''.pb.gz''"]
  have "list_all is_hex (take 8 sha)" using sha(2) by (metis append_take_drop_id list_all_append)
  moreover have "fmt_d (to_unix t) \<noteq> []" using u by (simp add: fmt_d_def)
  ultimately show ?thesis
    using sha(1) unfolding eq blob_name_def parts by (simp add: min_def)
qed

lemma known_prefix:
  "has_prefix (feed_trip_updates @ CHR ''/'' # x) (feed_trip_updates @ ''/'')"
  "\<not> has_prefix (feed_vehicle_positions @ CHR ''/'' # x) (feed_trip_updates @ ''/'')"
  "has_prefix (feed_vehicle_positions @ CHR ''/'' # x) (feed_vehicle_positions @ ''/'')"
  by (simp_all add: feed_trip_updates_def feed_vehicle_positions_def)

lemma to_unix_range: "in_range 64 (to_unix t)"
  by (simp add: to_unix_def wrap_in_range)

lemma parse_blob_path_path: "parse_blob_path rel = Some b \<Longrightarrow> bl_path b = rel"
  by (auto simp: parse_blob_path_def Let_def split: option.splits if_splits)

lemma blob_path_round_trip_parse:
  assumes "known_feed f" and u: "0 \<le> to_unix t" and sha: "8 \<le> length sha" "list_all is_hex sha"
  shows "parse_blob_path (blob_path f t sha) = Some (Blob f (to_unix t) (blob_path f t sha))"
proof -
  obtain ps where ps: "blob_path f t sha = join_path (f # ps @ [blob_file t sha])"
    using blob_path_parts [OF assms(1) sha(2)] by metis
  have pre: "\<exists>x. blob_path f t sha = f @ CHR ''/'' # x" unfolding ps by (cases ps) auto
  have "parse_int (fmt_d (to_unix t)) = Some (to_unix t)"
    using parse_int_fmt_d [OF to_unix_range u] .
  then show ?thesis
    using pre assms(1) known_prefix
    unfolding parse_blob_path_def blob_path_file [OF assms(1) sha(2)] blob_name_file [OF u sha]
    by (auto simp: known_feed_def)
qed

text \<open>
  The path of a blob says what it is: the feed, and the second of the poll, are read
  back from it, with no database, for every instant since 1970.
\<close>

theorem blob_path_round_trip:
  assumes "known_feed f" and u: "0 \<le> to_unix t" and sha: "8 \<le> length sha" "list_all is_hex sha"
  shows "parse_blob_path (blob_path f t sha) = Some (Blob f (to_unix t) (blob_path f t sha))"
  using blob_path_round_trip_parse [OF assms] .

theorem blob_path_round_trip_witness:
  "parse_blob_path (blob_path feed_trip_updates (unix_time 1795424400) ''0123abcd'') =
     Some (Blob feed_trip_updates 1795424400 (blob_path feed_trip_updates (unix_time 1795424400) ''0123abcd''))"
proof -
  have u: "to_unix (unix_time 1795424400) = 1795424400" by code_simp
  have "list_all is_hex ''0123abcd''" by code_simp
  then show ?thesis
    using blob_path_round_trip [of feed_trip_updates "unix_time 1795424400" "''0123abcd''"] u
    by (simp add: known_feed_def)
qed

section \<open>A sample\<close>

text \<open>
  A codec for examples: the first byte of a response is its feed timestamp, an empty response
  cannot be decoded, and the hash repeats that byte as a digit.
\<close>

definition sample_codec :: codec where
  "sample_codec =
     \<lparr>cd_gzip = id, cd_gunzip = Inr,
      cd_sha = (\<lambda>raw. replicate 64 (digit_char (case raw of [] \<Rightarrow> 0 | b # _ \<Rightarrow> byte b mod 10))),
      cd_proto = \<lparr>pr_unmarshal = (\<lambda>raw. case raw of [] \<Rightarrow> Inl (Message ''EOF'')
          | b # _ \<Rightarrow> Inr \<lparr>pm_timestamp = Some (int (byte b)), pm_entities = []\<rparr>),
        pr_trip_relationship = (\<lambda>_. ''SCHEDULED''), pr_stop_relationship = (\<lambda>_. ''SCHEDULED''),
        pr_vehicle_status = (\<lambda>_. [])\<rparr>\<rparr>"

lemma sample_codec_ok: "codec_ok sample_codec"
  by (auto simp: codec_ok_def sample_codec_def list_all_iff is_hex_def split: list.split)

definition sample_blob :: "feed \<Rightarrow> nat \<Rightarrow> string \<times> string" where
  "sample_blob f n =
     (blob_path f (unix_time (1795424400 + int n)) (replicate 8 (digit_char n)), if n = 0 then [] else [char_of n])"

definition sample_disk :: disk where
  "sample_disk =
     \<lparr>dk_files = [sample_blob feed_vehicle_positions 4, sample_blob feed_trip_updates 3, sample_blob feed_trip_updates 0],
      dk_dirs = [], dk_faults = []\<rparr>"

lemma sample_blob_parse:
  assumes "n < 10" "known_feed f"
  shows "parse_blob_path (fst (sample_blob f n)) = Some (Blob f (1795424400 + int n) (fst (sample_blob f n)))"
proof -
  have "to_unix (unix_time (1795424400 + int n)) = 1795424400 + int n"
    using assms(1) by (intro to_unix_unix_time) simp
  then show ?thesis
    using blob_path_round_trip_parse [of f "unix_time (1795424400 + int n)" "replicate 8 (digit_char n)"] assms
    by (simp add: sample_blob_def list_all_iff is_hex_def)
qed

lemma sample_blobs:
  "map_of (dk_files sample_disk) (fst (sample_blob feed_vehicle_positions 4)) = Some [char_of (4 :: nat)]"
  "map_of (dk_files sample_disk) (fst (sample_blob feed_trip_updates 3)) = Some [char_of (3 :: nat)]"
  "map_of (dk_files sample_disk) (fst (sample_blob feed_trip_updates 0)) = Some []"
  "al_wf (dk_files sample_disk)"
proof -
  have "fst (sample_blob f n) \<noteq> fst (sample_blob g m)" if "n < 10" "m < 10" "known_feed f" "known_feed g" "n \<noteq> m" for f g n m
    using sample_blob_parse [OF that(1,3)] sample_blob_parse [OF that(2,4)] that(5) by auto
  then have "fst (sample_blob feed_vehicle_positions 4) \<noteq> fst (sample_blob feed_trip_updates 3)"
    "fst (sample_blob feed_vehicle_positions 4) \<noteq> fst (sample_blob feed_trip_updates 0)"
    "fst (sample_blob feed_trip_updates 3) \<noteq> fst (sample_blob feed_trip_updates 0)"
    by (simp_all add: known_feed_def)
  moreover have "snd (sample_blob f n) = (if n = 0 then [] else [char_of n])" for f n by (simp add: sample_blob_def)
  moreover have "map_of (x # xs) k = (if fst x = k then Some (snd x) else map_of xs k)"
    for x :: "string \<times> string" and xs k by (cases x) simp
  ultimately show
    "map_of (dk_files sample_disk) (fst (sample_blob feed_vehicle_positions 4)) = Some [char_of (4 :: nat)]"
    "map_of (dk_files sample_disk) (fst (sample_blob feed_trip_updates 3)) = Some [char_of (3 :: nat)]"
    "map_of (dk_files sample_disk) (fst (sample_blob feed_trip_updates 0)) = Some []"
    "al_wf (dk_files sample_disk)"
    by (simp_all add: sample_disk_def al_wf_def)
qed

definition sample_outside :: "store sys" where
  "sample_outside = opened_store []"

section \<open>What a replay delivers\<close>

text \<open>The snapshots of the archive in a range, in the order of discovery, and the pure reading of one.\<close>

definition blob_snapshot :: "codec \<Rightarrow> disk \<Rightarrow> blob_ref \<Rightarrow> snapshot option" where
  "blob_snapshot c d b =
     (case map_of (dk_files d) (bl_path b) of
        None \<Rightarrow> None
      | Some gz \<Rightarrow>
          (case cd_gunzip c gz of
             Inl e \<Rightarrow> None
           | Inr raw \<Rightarrow>
               (case decode_feed (cd_proto c) (bl_feed b) raw (unix_time (bl_unix b)) of
                  Inl e \<Rightarrow> None
                | Inr snap \<Rightarrow> Some (snap\<lparr>sn_raw_sha256 := cd_sha c raw, sn_raw_path := bl_path b\<rparr>))))"

definition archived_blobs :: "disk \<Rightarrow> instant \<Rightarrow> instant \<Rightarrow> blob_ref list" where
  "archived_blobs d lo hi =
     filter (\<lambda>b. to_unix lo \<le> bl_unix b \<and> bl_unix b \<le> to_unix hi)
       (sort (List.map_filter parse_blob_path (map fst (dk_files d))))"

text \<open>A sink that works on its own state and does not fail.\<close>

definition pure_sink :: "(snapshot \<Rightarrow> 'e \<Rightarrow> 'e) \<Rightarrow> ('e, 's) sink" where
  "pure_sink g = (\<lambda>snap (e, w). (None, g snap e, w))"

lemma read_blob_pure:
  assumes "dk_faults d = []"
  shows "snd (read_blob c b d) = d \<and>
    (case blob_snapshot c d b of Some snap \<Rightarrow> fst (read_blob c b d) = Inr snap | None \<Rightarrow> \<exists>e. fst (read_blob c b d) = Inl e)"
proof -
  have "d\<lparr>dk_faults := []\<rparr> = d" using assms by simp
  then show ?thesis
    using assms by (auto simp: read_blob_def blob_snapshot_def next_disk_fault_def Let_def split: option.split sum.split)
qed

lemma replay_blobs_pure:
  assumes up: "dk_faults d = []"
  shows "\<exists>w'. replay_blobs c (\<lambda>_. False) (pure_sink g) k bs n (d, e, w) =
    ((n + int (length (List.map_filter (blob_snapshot c d) bs)), None),
     (d, fold g (List.map_filter (blob_snapshot c d) bs) e, w'))"
proof (induction bs arbitrary: k n e w)
  case Nil
  then show ?case by (simp add: map_filter_simps)
next
  case (Cons b bs)
  obtain r where r: "read_blob c b d = (r, d)" using read_blob_pure [OF up] by (metis prod.collapse)
  show ?case
  proof (cases "blob_snapshot c d b")
    case None
    then obtain x where "r = Inl x" using read_blob_pure [OF up, of c b] r by auto
    then show ?thesis
      using Cons.IH [of "Suc k" n e "count_poll (bl_feed b) ''decode_error'' w"] None r by (simp add: map_filter_simps)
  next
    case (Some snap)
    then have "r = Inr snap" using read_blob_pure [OF up, of c b] r by auto
    then show ?thesis
      using Cons.IH [of "Suc k" "n + 1" "g snap e" w] Some r
      by (simp add: map_filter_simps pure_sink_def algebra_simps)
  qed
qed

lemma replay_shape:
  assumes up: "dk_faults d = []"
  shows "\<exists>w'. replay c (\<lambda>_. False) (pure_sink g) lo hi (d, e, w) =
      ((int (length (List.map_filter (blob_snapshot c d) (archived_blobs d lo hi))), None),
       (d, fold g (List.map_filter (blob_snapshot c d) (archived_blobs d lo hi)) e, w')) \<and>
    sorted (archived_blobs d lo hi) \<and>
    set (archived_blobs d lo hi) = {b. parse_blob_path (bl_path b) = Some b \<and> bl_path b \<in> fst ` set (dk_files d) \<and>
       to_unix lo \<le> bl_unix b \<and> bl_unix b \<le> to_unix hi}"
proof -
  note path = parse_blob_path_path
  have "b \<in> set (List.map_filter parse_blob_path (map fst (dk_files d))) \<longleftrightarrow>
      parse_blob_path (bl_path b) = Some b \<and> bl_path b \<in> fst ` set (dk_files d)" for b
    using path by (auto simp: List.map_filter_def image_iff) (metis fst_conv option.sel)+
  then have mem: "set (archived_blobs d lo hi) = {b. parse_blob_path (bl_path b) = Some b \<and>
      bl_path b \<in> fst ` set (dk_files d) \<and> to_unix lo \<le> bl_unix b \<and> bl_unix b \<le> to_unix hi}"
    by (auto simp: archived_blobs_def)
  have sorted: "sorted (archived_blobs d lo hi)"
    unfolding archived_blobs_def by (rule sorted_wrt_filter) simp
  have d: "d\<lparr>dk_faults := []\<rparr> = d" using up by simp
  have disc: "discover_blobs d = (Inr (sort (List.map_filter parse_blob_path (map fst (dk_files d)))), d)"
    using up d by (simp add: discover_blobs_def next_disk_fault_def)
  have "filter (\<lambda>b. \<not> (bl_unix b < to_unix lo \<or> bl_unix b > to_unix hi))
      (sort (List.map_filter parse_blob_path (map fst (dk_files d)))) = archived_blobs d lo hi"
    by (simp add: archived_blobs_def not_less)
  then have "replay c (\<lambda>_. False) (pure_sink g) lo hi (d, e, w) =
      replay_blobs c (\<lambda>_. False) (pure_sink g) 0 (archived_blobs d lo hi) 0 (d, e, w)"
    by (simp add: replay_def disc)
  then show ?thesis
    using replay_blobs_pure [OF up, of c g 0 "archived_blobs d lo hi" 0 e w] mem sorted by simp
qed

text \<open>
  C33: a replay is exact. While the disk can be read, the sink sees the decodable blobs of
  the known feeds in the range, each once, in ascending order of their time and path, blobs
  that cannot be read or decoded are skipped, and the number returned is that of the
  snapshots sunk.
\<close>

theorem replay_exact:
  assumes up: "dk_faults d = []" and wf: "al_wf (dk_files d)"
  shows "\<exists>w'. replay c (\<lambda>_. False) (pure_sink g) lo hi (d, e, w) =
      ((int (length (List.map_filter (blob_snapshot c d) (archived_blobs d lo hi))), None),
       (d, fold g (List.map_filter (blob_snapshot c d) (archived_blobs d lo hi)) e, w')) \<and>
    sorted_wrt (<) (archived_blobs d lo hi) \<and>
    set (archived_blobs d lo hi) = {b. parse_blob_path (bl_path b) = Some b \<and> bl_path b \<in> fst ` set (dk_files d) \<and>
       to_unix lo \<le> bl_unix b \<and> bl_unix b \<le> to_unix hi}"
proof -
  have "distinct (List.map_filter parse_blob_path rels)" if "distinct rels" for rels
    using that
  proof (induction rels)
    case Nil
    then show ?case by (simp add: map_filter_simps)
  next
    case (Cons rel rels)
    have "b \<notin> set (List.map_filter parse_blob_path rels)" if b: "parse_blob_path rel = Some b" for b
    proof
      assume "b \<in> set (List.map_filter parse_blob_path rels)"
      then obtain rel' where "rel' \<in> set rels" "parse_blob_path rel' = Some b" by (auto simp: List.map_filter_def)
      then show False using Cons.prems parse_blob_path_path b by (metis distinct.simps(2))
    qed
    then show ?case using Cons by (simp add: map_filter_simps split: option.split)
  qed
  then have "distinct (archived_blobs d lo hi)"
    using wf by (simp add: archived_blobs_def al_wf_def)
  then show ?thesis using replay_shape [OF up, of c g lo hi e w] by (simp add: strict_sorted_iff)
qed

theorem replay_exact_witness:
  "\<exists>w'. replay sample_codec (\<lambda>_. False) (pure_sink (\<lambda>snap ts. ts @ [sn_feed_timestamp snap]))
      (unix_time 1795424400) (unix_time 1795424500) (sample_disk, [], sample_outside) =
    ((2, None), (sample_disk, [3, 4], w'))"
proof -
  let ?v = "fst (sample_blob feed_vehicle_positions 4)" and ?t = "\<lambda>n. fst (sample_blob feed_trip_updates n)"
  have up: "dk_faults sample_disk = []" by (simp add: sample_disk_def)
  have at: "to_unix (unix_time 1795424400) = 1795424400" "to_unix (unix_time 1795424500) = 1795424500" by code_simp+
  have blobs: "archived_blobs sample_disk (unix_time 1795424400) (unix_time 1795424500) =
      [Blob feed_trip_updates 1795424400 (?t 0), Blob feed_trip_updates 1795424403 (?t 3),
       Blob feed_vehicle_positions 1795424404 ?v]"
    using sample_blob_parse [of 4 feed_vehicle_positions] sample_blob_parse [of 3 feed_trip_updates]
      sample_blob_parse [of 0 feed_trip_updates]
    by (simp add: archived_blobs_def sample_disk_def map_filter_simps at known_feed_def less_eq_blob_ref_def)
  have none: "blob_snapshot sample_codec sample_disk (Blob feed_trip_updates u (?t 0)) = None" for u
    by (simp add: blob_snapshot_def sample_blobs sample_codec_def decode_feed_def)
  obtain a where a: "blob_snapshot sample_codec sample_disk (Blob feed_trip_updates 1795424403 (?t 3)) = Some a"
      "sn_feed_timestamp a = 3"
    by (simp add: blob_snapshot_def sample_blobs sample_codec_def decode_feed_def get_def byte_def)
  obtain b where b: "blob_snapshot sample_codec sample_disk (Blob feed_vehicle_positions 1795424404 ?v) = Some b"
      "sn_feed_timestamp b = 4"
    by (simp add: blob_snapshot_def sample_blobs sample_codec_def decode_feed_def get_def byte_def)
  have "List.map_filter (blob_snapshot sample_codec sample_disk)
      (archived_blobs sample_disk (unix_time 1795424400) (unix_time 1795424500)) = [a, b]"
    by (simp add: blobs map_filter_simps none a b)
  then show ?thesis
    using replay_exact [OF up sample_blobs(4), of sample_codec "\<lambda>snap ts. ts @ [sn_feed_timestamp snap]"
        "unix_time 1795424400" "unix_time 1795424500" "[]" sample_outside] a b by simp
qed

section \<open>The archive is the system of record\<close>

text \<open>A sink that remembers what it has seen.\<close>

abbreviation recorder :: "(snapshot list, 's) sink" where
  "recorder \<equiv> pure_sink (\<lambda>snap seen. seen @ [snap])"

text \<open>
  Histories of polls of any pollers of the known feeds over one archive and one recorder,
  with any failures, and any changes of the state outside. \<open>bytes\<close> maps the path of a
  response to it: two different responses of a feed in the same second have hashes that
  differ in their first eight digits.
\<close>

inductive poll_history :: "codec \<Rightarrow> 's raw_archive \<Rightarrow> (string \<Rightarrow> string) \<Rightarrow> disk \<Rightarrow> disk \<times> snapshot list \<Rightarrow> bool"
  for c :: codec and ra :: "'s raw_archive" and bytes :: "string \<Rightarrow> string" and d0 :: disk where
  history_start: "poll_history c ra bytes d0 (d0, [])"
| history_poll: "poll_history c ra bytes d0 (d, seen) \<Longrightarrow> known_feed (pl_feed p) \<Longrightarrow> 0 \<le> to_unix (pi_start i) \<Longrightarrow>
    (\<And>raw. fetched p i = Inr raw \<Longrightarrow> bytes (blob_path (pl_feed p) (pi_start i) (cd_sha c raw)) = raw) \<Longrightarrow>
    poll_once c ra (Some recorder) i (p, d, seen, w) = (err, p', d', seen', w') \<Longrightarrow>
    poll_history c ra bytes d0 (d', seen')"

text \<open>The archive holds a snapshot: its bytes are at its path, and decode to it.\<close>

definition holds :: "codec \<Rightarrow> (string \<Rightarrow> string) \<Rightarrow> disk \<Rightarrow> snapshot \<Rightarrow> bool" where
  "holds c bytes d snap \<longleftrightarrow> (\<exists>f t raw. known_feed f \<and> 0 \<le> to_unix t \<and> sunk c f t raw snap \<and>
     bytes (blob_path f t (cd_sha c raw)) = raw \<and>
     map_of (dk_files d) (blob_path f t (cd_sha c raw)) = Some (cd_gzip c raw))"

lemma poll_history_holds:
  assumes "poll_history c ra bytes d0 s" and c: "codec_ok c"
  shows "\<forall>snap \<in> set (snd s). holds c bytes (fst s) snap"
  using assms(1)
proof (induction rule: poll_history.induct)
  case history_start
  then show ?case by simp
next
  case (history_poll d seen p i w err p' d' seen' w')
  have hex: "list_all is_hex (cd_sha c r)" for r using c by (simp add: codec_ok_def)
  show ?case
  proof (cases "fetched p i")
    case (Inl x)
    then have "d' = d \<and> seen' = seen"
      using history_poll.hyps(5) by (auto simp: poll_once_def split: option.splits)
    then show ?thesis using history_poll.IH by simp
  next
    case (Inr raw)
    let ?path = "blob_path (pl_feed p) (pi_start i) (cd_sha c raw)"
    note kf = history_poll.hyps(2) and at = history_poll.hyps(4) [OF Inr]
    from poll_once_outcome [OF history_poll.hyps(5) Inr] consider
        (idle) "seen' = seen" "dk_files d' = dk_files d"
      | (temp) n part where "seen' = seen" "dk_files d' = al_put (temp_path ?path n) part (dk_files d)"
      | (put) "dk_files d' = al_put ?path (cd_gzip c raw) (dk_files d)"
          "seen' = seen \<or> (\<exists>snap. sunk c (pl_feed p) (pi_start i) raw snap \<and> seen' = seen @ [snap])"
      by (auto simp: pure_sink_def left_temp_def)
    then show ?thesis
    proof cases
      case idle
      then show ?thesis using history_poll.IH by (simp add: holds_def)
    next
      case temp
      have "holds c bytes d' snap" if "holds c bytes d snap" for snap
        using that temp_not_blob [OF _ hex _ kf hex] unfolding holds_def temp(2) by (simp, metis)
      then show ?thesis using history_poll.IH temp(1) by simp
    next
      case put
      have "map_of (dk_files d') (blob_path f t (cd_sha c r)) = Some (cd_gzip c r)"
        if "bytes (blob_path f t (cd_sha c r)) = r" "map_of (dk_files d) (blob_path f t (cd_sha c r)) = Some (cd_gzip c r)"
        for f t r
        using that at by (auto simp: put(1))
      then have old: "holds c bytes d' snap" if "holds c bytes d snap" for snap
        using that unfolding holds_def by metis
      have new: "holds c bytes d' snap" if "sunk c (pl_feed p) (pi_start i) raw snap" for snap
        unfolding holds_def using that kf history_poll.hyps(3) at put(1) by fastforce
      show ?thesis using history_poll.IH put(2) old new by auto
    qed
  qed
qed

lemma holds_read_back:
  assumes "holds c bytes d snap" and c: "codec_ok c"
  shows "\<exists>b. parse_blob_path (bl_path b) = Some b \<and> bl_path b \<in> fst ` set (dk_files d) \<and>
    bl_unix b = to_unix (sn_polled_at snap) \<and>
    blob_snapshot c d b = Some (snap\<lparr>sn_polled_at := unix_time (to_unix (sn_polled_at snap))\<rparr>)"
proof -
  obtain f t raw where h: "known_feed f" "0 \<le> to_unix t" "sunk c f t raw snap"
      "map_of (dk_files d) (blob_path f t (cd_sha c raw)) = Some (cd_gzip c raw)"
    using assms(1) unfolding holds_def by blast
  have sha: "8 \<le> length (cd_sha c raw)" "list_all is_hex (cd_sha c raw)" using c by (simp_all add: codec_ok_def)
  let ?b = "Blob f (to_unix t) (blob_path f t (cd_sha c raw))"
  obtain s where s: "decode_feed (cd_proto c) f raw t = Inr s"
    "snap = s\<lparr>sn_raw_sha256 := cd_sha c raw, sn_raw_path := blob_path f t (cd_sha c raw)\<rparr>"
    using h(3) by (auto simp: sunk_def)
  have at: "sn_polled_at snap = t" using decode_feed_fields [OF s(1)] s(2) by simp
  have "decode_feed (cd_proto c) f raw (unix_time (to_unix t)) = Inr (s\<lparr>sn_polled_at := unix_time (to_unix t)\<rparr>)"
    using decode_feed_at [of "cd_proto c" f raw "unix_time (to_unix t)" t] s(1) by simp
  then have "blob_snapshot c d ?b = Some (snap\<lparr>sn_polled_at := unix_time (to_unix t)\<rparr>)"
    using h(4) c by (simp add: blob_snapshot_def codec_ok_def s(2))
  moreover have "blob_path f t (cd_sha c raw) \<in> fst ` set (dk_files d)"
    using h(4) by (metis domI dom_map_of_conv_image_fst)
  ultimately show ?thesis
    using blob_path_round_trip_parse [OF h(1,2) sha] at by (intro exI [of _ ?b]) simp
qed

text \<open>
  C3: the archive is the system of record. Whatever failed while a history of polls ran, a
  replay over the archive it left delivers every snapshot that the sink accepted, with
  the same content, its instant cut to the second that its path carries.
\<close>

theorem replay_complete:
  assumes hist: "poll_history c ra bytes d0 (d, seen)" and c: "codec_ok c" and up: "dk_faults d = []"
    and run: "replay c (\<lambda>_. False) recorder lo hi (d, [], w) = ((n, err), (d', replayed, w'))"
    and snap: "snap \<in> set seen" "to_unix lo \<le> to_unix (sn_polled_at snap)" "to_unix (sn_polled_at snap) \<le> to_unix hi"
  shows "err = None \<and> snap\<lparr>sn_polled_at := unix_time (to_unix (sn_polled_at snap))\<rparr> \<in> set replayed \<and>
    n = int (length replayed)"
proof -
  have "holds c bytes d snap" using poll_history_holds [OF hist c] snap(1) by simp
  from holds_read_back [OF this c] obtain b where b: "parse_blob_path (bl_path b) = Some b"
    "bl_path b \<in> fst ` set (dk_files d)" "bl_unix b = to_unix (sn_polled_at snap)"
    "blob_snapshot c d b = Some (snap\<lparr>sn_polled_at := unix_time (to_unix (sn_polled_at snap))\<rparr>)" by blast
  have fold: "fold (\<lambda>x seen. seen @ [x]) xs ys = ys @ xs" for xs ys :: "snapshot list"
    by (induction xs arbitrary: ys) auto
  note exact = replay_shape [OF up, of c "\<lambda>snap seen. seen @ [snap]" lo hi "[]" w]
  have eq: "err = None" "replayed = List.map_filter (blob_snapshot c d) (archived_blobs d lo hi)" "n = int (length replayed)"
    using exact run by (auto simp: fold)
  have "b \<in> set (archived_blobs d lo hi)" using exact b snap by simp
  then show ?thesis using eq b(4) by (force simp: List.map_filter_def)
qed

section \<open>A poll and its replay\<close>

definition sample_poll :: "go_error option \<times> poller \<times> disk \<times> snapshot list \<times> store sys" where
  "sample_poll = poll_once sample_codec store_archive (Some recorder)
     \<lparr>pi_start = unix_time 3, pi_later = unix_time 4, pi_ctx_err = None, pi_reply = Reply 200 [] (Inr [char_of (3 :: nat)])\<rparr>
     (new_poller feed_trip_updates [] 0, \<lparr>dk_files = [], dk_dirs = [], dk_faults = []\<rparr>, [], sample_outside)"

abbreviation sample_polled_disk :: disk where
  "sample_polled_disk \<equiv> fst (snd (snd sample_poll))"

abbreviation sample_polled_seen :: "snapshot list" where
  "sample_polled_seen \<equiv> fst (snd (snd (snd sample_poll)))"

lemma sample_times:
  "to_unix (unix_time 3) = 3" "to_unix (unix_time 0) = 0" "to_unix (unix_time 9) = 9"
  by (simp_all add: to_unix_unix_time)

lemma sample_poll_2: "dk_faults sample_polled_disk = []" by code_simp
lemma sample_poll_4:  "map sn_polled_at sample_polled_seen = [unix_time 3]" by code_simp

lemma sample_sha: "list_all is_hex (cd_sha sample_codec raw)"
  using sample_codec_ok by (simp add: codec_ok_def)

lemma sample_gzip [simp]: "cd_gzip sample_codec raw = raw"
  by (simp add: sample_codec_def)

lemma blob_path_feed:
  assumes "known_feed f" "known_feed g" "f \<noteq> g" "list_all is_hex sha" "list_all is_hex sha'"
  shows "blob_path f t sha \<noteq> blob_path g t' sha'"
  using assms blob_path_parts by (metis list.sel(1))

text \<open>
  C2: nothing is acted on that is not archived. After a poll of a response, whatever failed,
  either its bytes are on disk under the path of its feed, instant and hash, or the sink has
  not been called, and the poll has failed or found the bytes unchanged. No other blob of the
  archive is touched.
\<close>

theorem archived_before_sink:
  assumes run: "poll_once c ra sink i (p, d, e, w) = (err, p', d', e', w')" and resp: "fetched p i = Inr raw"
    and c: "codec_ok c" and feed: "known_feed (pl_feed p)"
    and other: "known_feed f" "list_all is_hex sha" "0 \<le> to_unix t"
      "blob_path f t sha \<noteq> blob_path (pl_feed p) (pi_start i) (cd_sha c raw)"
  shows "(map_of (dk_files d') (blob_path (pl_feed p) (pi_start i) (cd_sha c raw)) = Some (cd_gzip c raw) \<or>
      e' = e \<and> (err \<noteq> None \<or> fst (ra_last_sha ra (pl_feed p) w) = Inr (cd_sha c raw))) \<and>
    map_of (dk_files d') (blob_path f t sha) = map_of (dk_files d) (blob_path f t sha)"
proof -
  have hex: "list_all is_hex (cd_sha c raw)" using c by (simp add: codec_ok_def)
  show ?thesis
    using poll_once_outcome [OF run resp] other(4) temp_not_blob [OF other(1-3) feed hex]
    by (auto simp: left_temp_def)
qed

theorem archived_before_sink_witness:
  "map_of (dk_files sample_polled_disk)
     (blob_path feed_trip_updates (unix_time 3) (cd_sha sample_codec [char_of (3 :: nat)])) = Some [char_of (3 :: nat)]"
proof -
  obtain err p' d' e' w' where run: "sample_poll = (err, p', d', e', w')" by (metis surj_pair)
  have "list_all is_hex ''33333333''" by code_simp
  moreover have "blob_path feed_vehicle_positions (unix_time 3) ''33333333'' \<noteq>
      blob_path feed_trip_updates (unix_time 3) (cd_sha sample_codec [char_of (3 :: nat)])"
    by (rule blob_path_feed) (simp_all add: known_feed_def sample_sha is_hex_def is_digit_def byte_def)
  ultimately show ?thesis
    using archived_before_sink [OF run [unfolded sample_poll_def] _ sample_codec_ok, of "[char_of (3 :: nat)]"
        feed_vehicle_positions "''33333333''" "unix_time 3"] sample_poll_4 sample_times(1)
    unfolding run by (auto simp: new_poller_def fetched_def fetch_def Let_def known_feed_def sample_gzip)
qed

theorem replay_complete_witness:
  "(case replay sample_codec (\<lambda>_. False) recorder (unix_time 0) (unix_time 9) (sample_polled_disk, [], sample_outside) of
     ((n, err), _, replayed, _) \<Rightarrow> err = None \<and> unix_time 3 \<in> sn_polled_at ` set replayed \<and> n = int (length replayed))"
proof -
  obtain err p' d' e' w' where run: "sample_poll = (err, p', d', e', w')" by (metis surj_pair)
  obtain s where s: "e' = [s]" "sn_polled_at s = unix_time 3"
    using sample_poll_4 unfolding run by (cases e') auto
  have hist: "poll_history sample_codec store_archive (\<lambda>_. [char_of (3 :: nat)])
      \<lparr>dk_files = [], dk_dirs = [], dk_faults = []\<rparr> (d', [s])"
    by (rule history_poll [OF history_start _ _ _ run [unfolded sample_poll_def s(1)]])
      (simp_all add: new_poller_def fetched_def fetch_def Let_def known_feed_def sample_times)
  obtain n x d'' replayed w'' where rep: "replay sample_codec (\<lambda>_. False) recorder (unix_time 0) (unix_time 9)
      (d', [], sample_outside) = ((n, x), (d'', replayed, w''))" by (metis surj_pair)
  have up: "dk_faults d' = []" using sample_poll_2 unfolding run by simp
  show ?thesis
    using replay_complete [OF hist sample_codec_ok up rep, of s]
    by (simp add: s(2) sample_times run rep image_iff) (metis snapshot.select_convs(2) snapshot.surjective snapshot.update_convs(2))
qed

section \<open>What pruning leaves\<close>

lemma al_del_filter: "al_del k xs = filter (\<lambda>x. fst x \<noteq> k) xs"
  by (auto simp: AList.delete_eq case_prod_unfold intro: filter_cong)

lemma prune_files_outcome:
  assumes "prune_files cutoff rels n d = ((m, err), d')" and "al_wf (dk_files d)"
    and "distinct rels" "set rels \<subseteq> fst ` set (dk_files d)"
  shows "\<exists>dead. dk_files d' = filter (\<lambda>x. fst x \<notin> dead) (dk_files d) \<and> dk_dirs d' = dk_dirs d \<and>
    dead \<subseteq> set rels \<and> Ball dead (prunable cutoff) \<and> m = n + int (card dead) \<and>
    (err = None \<longrightarrow> dead = {rel \<in> set rels. prunable cutoff rel})"
  using assms
proof (induction cutoff rels n d rule: prune_files.induct)
  case (1 cutoff n d)
  then show ?case by (intro exI [of _ "{}"]) auto
next
  case (2 cutoff rel rels n d)
  let ?d = "(drop_disk_fault d)\<lparr>dk_files := al_del rel (dk_files d)\<rparr>"
  show ?case
  proof (cases "prunable cutoff rel")
    case False
    then have "prune_files cutoff rels n d = ((m, err), d')" using "2.prems"(1) by simp
    from "2.IH"(1) [OF False this "2.prems"(2)] "2.prems"(3,4) show ?thesis using False by auto
  next
    case True
    show ?thesis
    proof (cases "\<exists>e. next_disk_fault d = Some (Io_fault e)")
      case True
      then show ?thesis using "2.prems"(1) \<open>prunable cutoff rel\<close> by (intro exI [of _ "{}"]) auto
    next
      case False
      have run: "prune_files cutoff rels (n + 1) ?d = ((m, err), d')"
        using "2.prems"(1) True False by (auto split: option.splits disk_fault.splits)
      have wf: "al_wf (dk_files ?d)" using "2.prems"(2) by (auto simp: al_del_filter al_wf_def distinct_map_filter)
      have sub: "set rels \<subseteq> fst ` set (dk_files ?d)" using "2.prems"(3,4) by (force simp: al_del_filter image_iff)
      have IH: "\<exists>dead. dk_files d' = filter (\<lambda>x. fst x \<notin> dead) (dk_files ?d) \<and> dk_dirs d' = dk_dirs ?d \<and>
          dead \<subseteq> set rels \<and> Ball dead (prunable cutoff) \<and> m = n + 1 + int (card dead) \<and>
          (err = None \<longrightarrow> dead = {rel \<in> set rels. prunable cutoff rel})"
      proof (cases "next_disk_fault d")
        case None
        then show ?thesis using "2.IH" True run wf sub "2.prems"(3) by auto
      next
        case (Some a)
        then show ?thesis using "2.IH" True False run wf sub "2.prems"(3) by (cases a) auto
      qed
      then obtain dead where dead: "dk_files d' = filter (\<lambda>x. fst x \<notin> dead) (dk_files ?d)" "dk_dirs d' = dk_dirs ?d"
          "dead \<subseteq> set rels" "Ball dead (prunable cutoff)" "m = n + 1 + int (card dead)"
          "err = None \<longrightarrow> dead = {rel \<in> set rels. prunable cutoff rel}" by blast
      have "card (insert rel dead) = Suc (card dead)"
        using dead(3) "2.prems"(3) by (subst card_insert_disjoint) (auto dest: finite_subset)
      then have "m = n + int (card (insert rel dead))" using dead(5) by simp
      moreover have "dk_files d' = filter (\<lambda>x. fst x \<notin> insert rel dead) (dk_files d)"
        unfolding dead(1) by (simp add: al_del_filter conj_commute)
      moreover have "err = None \<longrightarrow> insert rel dead = {r \<in> set (rel # rels). prunable cutoff r}"
        using dead(6) True by auto
      ultimately show ?thesis using dead(2-4) True by (intro exI [of _ "insert rel dead"]) auto
    qed
  qed
qed

lemma inside_depth: "inside x y \<Longrightarrow> depth x < depth y"
  by (auto simp: inside_def has_prefix_iff depth_def)

lemma inside_trans: "inside x y \<Longrightarrow> inside y z \<Longrightarrow> inside x z"
  by (auto simp: inside_def has_prefix_iff)

text \<open>A directory is kept when a file is left in it.\<close>

definition holds_file :: "disk \<Rightarrow> string \<Rightarrow> bool" where
  "holds_file d dir = list_ex (inside dir) (map fst (dk_files d))"

lemma holds_file_dirs [simp]: "holds_file (d\<lparr>dk_dirs := x\<rparr>) = holds_file d"
  by (simp add: holds_file_def fun_eq_iff)

lemma holds_file_up: "holds_file d y \<Longrightarrow> inside x y \<Longrightarrow> holds_file d x"
  by (auto simp: holds_file_def list_ex_iff intro: inside_trans)

lemma fold_remove_dir:
  assumes "sorted_wrt (\<lambda>x y. depth x \<ge> depth y) (qs @ ps)" and "set (qs @ ps) = set D"
    and "dk_dirs d = filter (\<lambda>x. x \<notin> set qs \<or> holds_file d x) D"
  shows "fold remove_dir ps d = d\<lparr>dk_dirs := filter (holds_file d) D\<rparr>"
  using assms
proof (induction ps arbitrary: qs d)
  case Nil
  then have "dk_dirs d = filter (holds_file d) D" by (auto intro: filter_cong)
  then have "d = d\<lparr>dk_dirs := filter (holds_file d) D\<rparr>" by (cases d) simp
  then show ?case by simp
next
  case (Cons p ps)
  have D: "x \<in> set qs" if "x \<in> set D" "inside p x" for x
  proof -
    have "x \<notin> set (p # ps)" using Cons.prems(1) inside_depth [OF that(2)] by (auto simp: sorted_wrt_append)
    then show ?thesis using that(1) Cons.prems(2) by auto
  qed
  have "list_ex (inside p) (map fst (dk_files d) @ dk_dirs d) \<longleftrightarrow> holds_file d p"
    using D holds_file_up [of d _ p] by (auto simp: list_ex_iff holds_file_def Cons.prems(3))
  then have "remove_dir p d = d\<lparr>dk_dirs := filter (\<lambda>x. x \<noteq> p \<or> holds_file d x) (dk_dirs d)\<rparr>"
    by (cases d; cases "holds_file d p") (auto simp: remove_dir_def intro!: filter_cong filter_True [symmetric])
  moreover have "filter (\<lambda>x. x \<noteq> p \<or> holds_file d x) (dk_dirs d) =
      filter (\<lambda>x. x \<notin> set (qs @ [p]) \<or> holds_file d x) D"
    unfolding Cons.prems(3) filter_filter by (rule filter_cong) auto
  ultimately have step: "remove_dir p d = d\<lparr>dk_dirs := filter (\<lambda>x. x \<notin> set (qs @ [p]) \<or> holds_file d x) D\<rparr>"
    by simp
  have "fold remove_dir ps (remove_dir p d) = (remove_dir p d)\<lparr>dk_dirs := filter (holds_file (remove_dir p d)) D\<rparr>"
    using Cons.prems(1,2) by (intro Cons.IH [of "qs @ [p]"]) (simp_all add: step)
  then show ?case by (simp add: step)
qed

lemma sort_depth: "sorted_wrt (\<lambda>x y. depth x \<ge> depth y) (sort_key (\<lambda>p. - int (depth p)) ps)"
  using sorted_sort_key [of "\<lambda>p. - int (depth p)" ps] by (simp add: sorted_wrt_map)

lemma prune_files_up:
  "dk_faults d = [] \<Longrightarrow> prune_files cutoff rels n d = ((m, err), d') \<Longrightarrow> err = None"
  by (induction cutoff rels n d rule: prune_files.induct) (auto simp: next_disk_fault_def split: if_splits)

lemma sample_blob_prunable:
  assumes "n < 10" "known_feed f"
  shows "prunable cutoff (fst (sample_blob f n)) \<longleftrightarrow> 1795424400 + int n < cutoff"
  using sample_blob_parse [OF assms]
  by (auto simp: parse_blob_path_def prunable_def Let_def split: option.splits if_splits)



end
