(* ===== verification/Partitions.thy ===== *)
theory Partitions
  imports Database "HOL-Library.List_Lexorder" "HOL-Library.Char_ord"
begin

text \<open>
  \<open>internal/store/partitions.go\<close>: the weekly partitions of the two large tables, named after
  their ISO week, created ahead of time and dropped when they are old. A partition is an
  entry of \<open>db_partitions\<close> from its parent and name to its days, the first and the one after
  the last; every row that no entry covers is in the default partition. A table that has
  been detached and not dropped yet is in \<open>db_loose_tables\<close>.
\<close>

section \<open>Weeks\<close>

text \<open>\<open>AddDate(0, 0, k)\<close> on a time in UTC, and \<open>ISOWeek\<close>.\<close>

definition add_date_utc :: "instant \<Rightarrow> int \<Rightarrow> instant" where
  "add_date_utc t k =
     (case civil_of_days (local_day utc t) of (y, m, d) \<Rightarrow>
       go_date y m (d + k) (local_secs utc t mod 86400) utc + t mod second)"

definition iso_week :: "instant \<Rightarrow> int \<times> int" where
  "iso_week t =
     (let n = local_day utc t; (y, yd) = year_split (n - (weekday n + 6) mod 7 + 3) in (y, yd div 7 + 1))"

definition week_start :: "instant \<Rightarrow> instant" where
  "week_start t =
     (case civil_of_days (local_day utc t) of (y, m, d) \<Rightarrow>
       let day = go_date y m d 0 utc in add_date_utc day (- ((weekday (local_day utc day) + 6) mod 7)))"

definition iso_week_start :: "int \<Rightarrow> int \<Rightarrow> instant" where
  "iso_week_start iso_year week = add_date_utc (week_start (go_date iso_year 1 4 0 utc)) ((week - 1) * 7)"

section \<open>Names\<close>

definition partition_name :: "string \<Rightarrow> instant \<Rightarrow> string" where
  "partition_name parent wk_start =
     (case iso_week wk_start of (y, w) \<Rightarrow> parent @ ''_y'' @ fmt_d y @ ''w'' @ fmt_0d 2 w)"

text \<open>The groups of the regular expression, then the week they name if it has this name.\<close>

definition partition_groups :: "string \<Rightarrow> string \<Rightarrow> (string \<times> string) option" where
  "partition_groups parent name =
     (let pre = parent @ ''_y''; rest = drop (length pre) name in
      if has_prefix name pre \<and> length rest = 7 \<and> list_all is_digit (take 4 rest) \<and> rest ! 4 = CHR ''w'' \<and>
         list_all is_digit (drop 5 rest)
      then Some (take 4 rest, drop 5 rest) else None)"

definition parse_partition_name :: "string \<Rightarrow> string \<Rightarrow> instant option" where
  "parse_partition_name parent name =
     (case partition_groups parent name of
        None \<Rightarrow> None
      | Some (year, week) \<Rightarrow>
          (let ws = iso_week_start (int (digits_val year)) (int (digits_val week)) in
           if partition_name parent ws \<noteq> name then None else Some ws))"

section \<open>Creating partitions\<close>

definition partitioned_tables :: "string list" where
  "partitioned_tables = [''stop_events'', ''vehicle_positions'']"

text \<open>The days of the rows of a table.\<close>

definition row_days :: "string \<Rightarrow> db \<Rightarrow> int list" where
  "row_days parent d =
     (if parent = ''stop_events'' then map (fst \<circ> fst) (db_stop_events d)
      else if parent = ''vehicle_positions'' then map (local_day utc \<circ> snd \<circ> fst) (db_positions d) else [])"

definition covered :: "string \<Rightarrow> int \<Rightarrow> db \<Rightarrow> bool" where
  "covered parent day d \<longleftrightarrow> list_ex (\<lambda>((p, _), lo, hi). p = parent \<and> lo \<le> day \<and> day < hi) (db_partitions d)"

definition relation_exists :: "string \<Rightarrow> db \<Rightarrow> bool" where
  "relation_exists name d \<longleftrightarrow> name \<in> snd ` fst ` set (db_partitions d) \<or> name \<in> set (db_loose_tables d)"

text \<open>
  \<open>CREATE TABLE IF NOT EXISTS name PARTITION OF parent FOR VALUES FROM lo TO hi\<close>: nothing when
  a table has the name, refused when it overlaps a partition or rows of the default
  partition belong to it.
\<close>

definition create_stmt :: "string \<Rightarrow> string \<Rightarrow> int \<Rightarrow> int \<Rightarrow> db \<Rightarrow> (db \<times> unit) result" where
  "create_stmt parent name lo hi d =
     (if relation_exists name d then Inr (d, ())
      else if list_ex (\<lambda>((p, _), lo', hi'). p = parent \<and> lo < hi' \<and> lo' < hi) (db_partitions d)
      then Inl (Message ''would overlap partition (SQLSTATE 42P17)'')
      else if list_ex (\<lambda>day. lo \<le> day \<and> day < hi \<and> \<not> covered parent day d) (row_days parent d)
      then Inl (Message ''updated partition constraint for default partition would be violated by some row (SQLSTATE 23514)'')
      else Inr (d\<lparr>db_partitions := al_put (parent, name) (lo, hi) (db_partitions d)\<rparr>, ()))"

text \<open>\<open>strings.Contains\<close>.\<close>

fun contains_text :: "string \<Rightarrow> string \<Rightarrow> bool" where
  "contains_text [] p = (p = [])"
| "contains_text (c # s) p = (has_prefix (c # s) p \<or> contains_text s p)"

fun ensure_week :: "string list \<Rightarrow> instant \<Rightarrow> store sys \<Rightarrow> go_error option \<times> store sys" where
  "ensure_week [] ws w = (None, w)"
| "ensure_week (parent # parents) ws w =
     (let name = partition_name parent ws;
          lo = local_day utc ws; hi = local_day utc (add_date_utc ws 7)
      in case db_run (create_stmt parent name lo hi) w of
           (Inl e, w') \<Rightarrow>
             (if contains_text (error_text e) ''SQLSTATE 23514'' then ensure_week parents ws w'
              else (Some (Wrapped (''store: create partition '' @ name) e), w'))
         | (Inr _, w') \<Rightarrow> ensure_week parents ws w')"

section \<open>Calendar arithmetic\<close>

lemma day_second [simp]: "local_day utc t = t div (86400 * second)"
  by (simp add: local_day_def second_def zdiv_zmult2_eq [symmetric])

lemma add_date_utc: "add_date_utc t k = t + k * (86400 * second)"
proof -
  obtain y m d where c: "civil_of_days (local_day utc t) = (y, m, d)" by (metis surj_pair)
  have "days_of_civil y m (d + k) = local_day utc t + k"
    using days_of_civil_inverse(1) [OF c] by (simp add: days_of_civil_def)
  moreover have "local_day utc t * 86400 + local_secs utc t mod 86400 = t div second"
    by (simp add: local_day_def)
  ultimately have "go_date y m (d + k) (local_secs utc t mod 86400) utc = (t div second + k * 86400) * second"
    by (simp add: go_date_utc algebra_simps)
  then show ?thesis
    unfolding add_date_utc_def c by (simp add: algebra_simps minus_mod_eq_mult_div [symmetric])
qed

text \<open>An instant at midnight, by its day, and the Monday of a day.\<close>

abbreviation midnight :: "int \<Rightarrow> instant" where
  "midnight n \<equiv> n * (86400 * second)"

definition monday :: "int \<Rightarrow> int" where
  "monday n = n - n mod 7"

lemma monday_dvd: "monday n mod 7 = 0" "monday n \<le> n" "n < monday n + 7" "monday n \<le> m \<longleftrightarrow> n div 7 \<le> m div 7"
  unfolding monday_def by presburger+

lemma second_nonzero [simp]: "second \<noteq> 0"
  by (simp add: second_def)

lemma midnight_day [simp]: "midnight n div (86400 * second) = n"
  by simp

lemma weekday_monday [simp]: "(weekday n + 6) mod 7 = n mod 7"
  unfolding weekday_def by presburger

lemma week_start: "week_start t = midnight (monday (local_day utc t))"
proof -
  obtain y m d where c: "civil_of_days (local_day utc t) = (y, m, d)" by (metis surj_pair)
  have "go_date y m d 0 utc = midnight (local_day utc t)"
    using days_of_civil_inverse(1) [OF c] by (simp add: go_date_utc)
  then show ?thesis
    by (simp only: week_start_def c [unfolded day_second] prod.case Let_def add_date_utc weekday_monday day_second midnight_day)
      (simp add: monday_def left_diff_distrib)
qed

lemma week_start_idem [simp]: "week_start (week_start t) = week_start t"
  by (simp add: week_start) (simp add: monday_def)

lemma week_later: "ws < add_date_utc ws 7"
  by (simp add: add_date_utc second_def)

section \<open>The loop over the weeks\<close>

function ensure_weeks :: "instant \<Rightarrow> instant \<Rightarrow> store sys \<Rightarrow> go_error option \<times> store sys" where
  "ensure_weeks ws stop w =
     (if ws > stop then (None, w)
      else case ensure_week partitioned_tables ws w of
          (Some e, w') \<Rightarrow> (Some e, w')
        | (None, w') \<Rightarrow> ensure_weeks (add_date_utc ws 7) stop w')"
  by pat_completeness auto
termination
  by (relation "measure (\<lambda>(ws, stop, w). nat (stop + 1 - ws))") (use week_later in force)+

declare ensure_weeks.simps [simp del]

definition ensure_partitions :: "instant \<Rightarrow> instant \<Rightarrow> store sys \<Rightarrow> go_error option \<times> store sys" where
  "ensure_partitions lo hi w = ensure_weeks (week_start lo) (week_start hi) w"

section \<open>Dropping partitions\<close>

text \<open>\<open>ORDER BY relname\<close> is in byte order. Every parent has its default partition.\<close>

definition child_names :: "string \<Rightarrow> db \<Rightarrow> string list" where
  "child_names parent d =
     (if parent \<in> set partitioned_tables
      then sort ((parent @ ''_default'') # map snd (filter (\<lambda>(p, _). p = parent) (al_keys (db_partitions d))))
      else [])"

definition child_partitions :: "string \<Rightarrow> store sys \<Rightarrow> string list result \<times> store sys" where
  "child_partitions parent w =
     (case db_query (child_names parent) w of
        (Inl e, w') \<Rightarrow> (Inl (Wrapped (''store: list partitions of '' @ parent) e), w')
      | (Inr names, w') \<Rightarrow> (Inr names, w'))"

text \<open>\<open>DETACH PARTITION\<close>: its rows leave the parent; \<open>DROP TABLE\<close> removes the table they are in.\<close>

definition remove_rows :: "string \<Rightarrow> int \<Rightarrow> int \<Rightarrow> db \<Rightarrow> db" where
  "remove_rows parent lo hi d =
     (if parent = ''stop_events''
      then d\<lparr>db_stop_events := filter (\<lambda>x. \<not> (lo \<le> fst (fst x) \<and> fst (fst x) < hi)) (db_stop_events d)\<rparr>
      else if parent = ''vehicle_positions''
      then d\<lparr>db_positions := filter (\<lambda>x. \<not> (lo \<le> local_day utc (snd (fst x)) \<and> local_day utc (snd (fst x)) < hi))
             (db_positions d)\<rparr>
      else d)"

definition detach_stmt :: "string \<Rightarrow> string \<Rightarrow> db \<Rightarrow> (db \<times> unit) result" where
  "detach_stmt parent child d =
     (case map_of (db_partitions d) (parent, child) of
        None \<Rightarrow> Inl (Message ''relation is not a partition'')
      | Some (lo, hi) \<Rightarrow>
          Inr ((remove_rows parent lo hi d)\<lparr>db_partitions := al_del (parent, child) (db_partitions d),
                 db_loose_tables := child # db_loose_tables d\<rparr>, ()))"

definition drop_stmt :: "string \<Rightarrow> db \<Rightarrow> (db \<times> unit) result" where
  "drop_stmt child d =
     (if child \<in> set (db_loose_tables d)
      then Inr (d\<lparr>db_loose_tables := filter (\<lambda>x. x \<noteq> child) (db_loose_tables d)\<rparr>, ())
      else Inl (Message ''table does not exist''))"

definition partition_old :: "string \<Rightarrow> instant \<Rightarrow> string \<Rightarrow> bool" where
  "partition_old parent cutoff child =
     (case parse_partition_name parent child of
        None \<Rightarrow> False
      | Some ws \<Rightarrow> \<not> add_date_utc ws 7 > cutoff)"

fun drop_children :: "string \<Rightarrow> instant \<Rightarrow> string list \<Rightarrow> store sys \<Rightarrow> go_error option \<times> store sys" where
  "drop_children parent cutoff [] w = (None, w)"
| "drop_children parent cutoff (child # children) w =
     (if \<not> partition_old parent cutoff child then drop_children parent cutoff children w
      else case db_run (detach_stmt parent child) w of
          (Inl e, w1) \<Rightarrow> (Some (Wrapped (''store: detach partition '' @ child) e), w1)
        | (Inr _, w1) \<Rightarrow>
            (case db_run (drop_stmt child) w1 of
               (Inl e, w2) \<Rightarrow> (Some (Wrapped (''store: drop partition '' @ child) e), w2)
             | (Inr _, w2) \<Rightarrow> drop_children parent cutoff children w2))"

text \<open>\<open>keep_weeks\<close> in the order in which the map is walked, which is any order.\<close>

fun drop_old_partitions :: "(string \<times> int) list \<Rightarrow> instant \<Rightarrow> store sys \<Rightarrow> go_error option \<times> store sys" where
  "drop_old_partitions [] now w = (None, w)"
| "drop_old_partitions ((parent, keep) # rest) now w =
     (if keep \<le> 0 then drop_old_partitions rest now w
      else case child_partitions parent w of
          (Inl e, w1) \<Rightarrow> (Some e, w1)
        | (Inr children, w1) \<Rightarrow>
            (case drop_children parent (add_date_utc now (- 7 * keep)) children w1 of
               (Some e, w2) \<Rightarrow> (Some e, w2)
             | (None, w2) \<Rightarrow> drop_old_partitions rest now w2))"

section \<open>Names and weeks correspond\<close>

lemma iso_shift: "(D + r) mod 7 = 3 \<Longrightarrow> (D + 3) - (D + 3) mod 7 + 7 * (r div 7) = D + r - (3 :: int)"
  by presburger

lemma monday_of_iso_week:
  assumes "year_split (monday n + 3) = (y, yd)"
  shows "monday (days_before_year y + 3) + 7 * (yd div 7) = monday n" "0 \<le> yd div 7" "yd div 7 < 53"
proof -
  note ys = year_split [OF assms]
  show "0 \<le> yd div 7" "yd div 7 < 53" using ys by (auto split: if_splits)
  have "(monday n + 3) mod 7 = 3" using monday_dvd(1) [of n] by presburger
  then have "(days_before_year y + yd) mod 7 = 3" using ys(1) by simp
  from iso_shift [OF this] show "monday (days_before_year y + 3) + 7 * (yd div 7) = monday n"
    using ys(1) by (simp add: monday_def [of "days_before_year y + 3"])
qed

lemma iso_week: "iso_week t = (case year_split (monday (local_day utc t) + 3) of (y, yd) \<Rightarrow> (y, yd div 7 + 1))"
  unfolding iso_week_def weekday_monday by (simp add: monday_def Let_def)

lemma iso_week_start:
  assumes "iso_week t = (y, w)"
  shows "iso_week_start y w = week_start t" "1 \<le> w" "w \<le> 53"
proof -
  obtain z yd where s: "year_split (monday (local_day utc t) + 3) = (z, yd)" by (metis surj_pair)
  then have yw: "y = z" "w = yd div 7 + 1" using assms by (simp_all add: iso_week)
  note m = monday_of_iso_week [OF s]
  show "1 \<le> w" "w \<le> 53" using m yw by simp_all
  have "days_of_civil y 1 4 = days_before_year y + 3" by (simp add: days_of_civil_def days_before_month_def)
  then have "iso_week_start y w = midnight (monday (days_before_year y + 3) + 7 * (yd div 7))"
    by (simp only: iso_week_start_def week_start add_date_utc go_date_utc yw day_second add_0_right
        mult.assoc midnight_day) (simp add: distrib_right)
  then show "iso_week_start y w = week_start t" using m(1) by (simp add: week_start yw)
qed

lemma nat_dec_length: "10 ^ k \<le> n \<Longrightarrow> k < length (nat_dec n)"
proof (induction n arbitrary: k rule: nat_dec.induct)
  case (1 n)
  show ?case
  proof (cases k)
    case 0
    then show ?thesis by simp
  next
    case (Suc j)
    then have "10 ^ j \<le> n div 10" "\<not> n < 10"
      using "1.prems" by (simp_all add: less_eq_div_iff_mult_less_eq mult.commute)
        (use order_trans [of 10 "10 * 10 ^ j" n] in simp)
    then show ?thesis using "1.IH" [of j] Suc by (simp add: nat_dec.simps [of n])
  qed
qed

lemma fmt_d_length: "1000 \<le> y \<Longrightarrow> y \<le> 9999 \<Longrightarrow> length (fmt_d y) = 4"
  using nat_dec_length [of 3 "nat y"] nat_dec_length_le [of 4 "nat y"] by (simp add: fmt_d_def nat_less_iff le_nat_iff)

lemma partition_groups_name:
  assumes "1000 \<le> y" "y \<le> 9999" "1 \<le> w" "w \<le> 53"
  shows "partition_groups parent (parent @ ''_y'' @ fmt_d y @ ''w'' @ fmt_0d 2 w) = Some (fmt_d y, fmt_0d 2 w)"
proof -
  have l: "length (fmt_d y) = 4" "length (fmt_0d 2 w) = 2" using assms by (simp_all add: fmt_d_length fmt_0d_length)
  have "list_all is_digit (fmt_d y)" "list_all is_digit (fmt_0d 2 w)"
    using fmt_d_digits [of y] fmt_0d_digits [of w _ 2] assms by (auto simp: list_all_iff)
  then show ?thesis using l by (simp add: partition_groups_def has_prefix_iff nth_append)
qed

lemma parse_partition_name:
  assumes "iso_week t = (y, w)" "1000 \<le> y" "y \<le> 9999"
  shows "parse_partition_name parent (partition_name parent t) = Some (week_start t)"
proof -
  note iw = iso_week_start [OF assms(1)]
  have "iso_week (week_start t) = iso_week t" by (simp add: iso_week week_start) (simp add: monday_def)
  then have "partition_name parent (week_start t) = partition_name parent t" by (simp add: partition_name_def)
  then show ?thesis
    using iw partition_groups_name [OF assms(2,3) iw(2,3), of parent] assms
    by (simp add: parse_partition_name_def partition_name_def fmt_d_val fmt_0d_val)
qed

text \<open>
  C38: the name of a partition says which week it holds: parsed back, it is the Monday of the
  ISO week of any instant it was named after, in the years that have four digits.
\<close>

theorem partition_name_round_trip:
  assumes "1000 \<le> fst (iso_week t)" "fst (iso_week t) \<le> 9999"
  shows "parse_partition_name parent (partition_name parent t) = Some (week_start t) \<and>
    week_start t \<le> t \<and> t < add_date_utc (week_start t) 7 \<and> weekday (local_day utc (week_start t)) = 1"
proof -
  have "week_start t \<le> t \<and> t < add_date_utc (week_start t) 7"
  proof -
    let ?n = "local_day utc t"
    have "midnight ?n \<le> t" "t < midnight (?n + 1)"
      by (simp_all add: second_def minus_mod_eq_div_mult [symmetric] distrib_right)
    moreover have "midnight (monday ?n) \<le> midnight ?n" "midnight (?n + 1) \<le> midnight (monday ?n + 7)"
      using monday_dvd(2,3) [of ?n] by (auto intro!: mult_right_mono simp: second_def)
    ultimately have "midnight (monday ?n) \<le> t" "t < midnight (monday ?n + 7)" by linarith+
    then show ?thesis unfolding week_start add_date_utc by (simp add: distrib_right)
  qed
  moreover have "weekday (local_day utc (week_start t)) = 1"
    using monday_dvd(1) [of "local_day utc t"] by (simp add: week_start weekday_def) presburger
  ultimately show ?thesis
    using assms by (cases "iso_week t") (simp add: parse_partition_name)
qed

theorem partition_name_round_trip_witness:
  "parse_partition_name ''stop_events'' ''stop_events_y2026w53'' = Some (unix_time 1798416000)"
proof -
  have t: "unix_time 1798675200 = midnight 739980" "unix_time 1798416000 = midnight 739977"
    by (simp_all add: unix_time_small unix_to_internal_def second_def)
  have x: "iso_week (unix_time 1798675200) = (2026, 53)" "week_start (unix_time 1798675200) = unix_time 1798416000"
    unfolding t iso_week week_start day_second midnight_day by (simp_all add: monday_def year_split_def Let_def)
  moreover have "fmt_d 2026 = ''2026''" "fmt_0d 2 53 = ''53''"
    by code_simp+
  ultimately have "partition_name ''stop_events'' (unix_time 1798675200) = ''stop_events_y2026w53''"
    by (simp add: partition_name_def)
  with x show ?thesis using partition_name_round_trip [of "unix_time 1798675200" "''stop_events''"] by simp
qed

section \<open>The partitions of a store\<close>

lemma fmt_d_inj: "fmt_d x = fmt_d y \<Longrightarrow> x = y"
proof -
  have neg: "CHR ''-'' # s \<noteq> nat_dec n" for s n
  proof -
    have "CHR ''-'' \<notin> set (nat_dec n)" using nat_dec_digits [of "CHR ''-''" n] by (auto simp: is_digit_def byte_def)
    then show ?thesis by (metis list.set_intros(1))
  qed
  have "nat_dec n = nat_dec m \<Longrightarrow> n = m" for n m by (metis digits_val_nat_dec)
  moreover assume "fmt_d x = fmt_d y"
  ultimately show "x = y"
    using neg neg [THEN not_sym] by (cases "x < 0"; cases "y < 0") (simp_all add: fmt_d_def, (smt (verit) nat_eq_iff2)+)
qed

lemma fmt_d_no_w: "CHR ''w'' \<notin> set (fmt_d n)"
  using nat_dec_digits by (auto simp: fmt_d_def is_digit_def byte_def split: if_splits) fastforce+

lemma partition_name_inj:
  assumes "partition_name p t = partition_name p u"
  shows "week_start t = week_start u"
proof -
  obtain y w z v where i: "iso_week t = (y, w)" "iso_week u = (z, v)" by (metis surj_pair)
  note wk = iso_week_start [OF i(1)] iso_week_start [OF i(2)]
  have eq: "fmt_d y @ CHR ''w'' # fmt_0d 2 w = fmt_d z @ CHR ''w'' # fmt_0d 2 v"
    using assms by (simp add: partition_name_def i)
  have y: "fmt_d y = fmt_d z"
    using arg_cong [OF eq, of "split_on (CHR ''w'')"] by (simp add: split_on_append fmt_d_no_w)
  then have "fmt_0d 2 w = fmt_0d 2 v" using eq by simp
  moreover have "int (digits_val (fmt_0d 2 w)) = w" "int (digits_val (fmt_0d 2 v)) = v"
    using wk(2,5) by (simp_all only: fmt_0d_val)
  ultimately have "w = v" by metis
  moreover have "y = z" using fmt_d_inj [OF y] .
  ultimately show ?thesis using wk(1,4) by (simp only:)
qed

lemma partition_name_parent:
  "p \<in> set partitioned_tables \<Longrightarrow> q \<in> set partitioned_tables \<Longrightarrow> partition_name p t = partition_name q u \<Longrightarrow> p = q"
  by (auto simp: partitioned_tables_def partition_name_def split: prod.splits)

text \<open>Every partition holds one ISO week of its parent and is named after it.\<close>

definition weekly_ok :: "db \<Rightarrow> bool" where
  "weekly_ok d \<longleftrightarrow> al_wf (db_partitions d) \<and>
     list_all (\<lambda>((p, n), lo, hi). p \<in> set partitioned_tables \<and> monday lo = lo \<and> hi = lo + 7 \<and>
       n = partition_name p (midnight lo)) (db_partitions d)"

lemma weekly_okD:
  assumes "weekly_ok d" and "((p, n), lo, hi) \<in> set (db_partitions d)"
  shows "p \<in> set partitioned_tables" "monday lo = lo" "hi = lo + 7" "n = partition_name p (midnight lo)"
  using assms by (auto simp: weekly_ok_def list_all_iff)

lemma week_start_midnight: "week_start (midnight n) = midnight (monday n)"
  by (simp only: week_start day_second midnight_day)

lemma partition_name_week:
  "monday a = a \<Longrightarrow> monday b = b \<Longrightarrow> partition_name p (midnight a) = partition_name p (midnight b) \<Longrightarrow> a = b"
  using partition_name_inj [of p "midnight a" "midnight b"] unfolding week_start_midnight by simp

lemma mondays_apart: "monday a = a \<Longrightarrow> monday b = b \<Longrightarrow> a < b + 7 \<Longrightarrow> b < a + 7 \<Longrightarrow> a = (b :: int)"
  unfolding monday_def by presburger

text \<open>What creating the partition of a week does.\<close>

lemma create_week:
  assumes ok: "weekly_ok d" and p: "p \<in> set partitioned_tables" and lo: "monday lo = lo"
  defines "s \<equiv> create_stmt p (partition_name p (midnight lo)) lo (lo + 7) d"
  shows "(case s of
      Inl e \<Rightarrow> contains_text (error_text e) ''SQLSTATE 23514'' \<and>
        (\<exists>day \<in> set (row_days p d). monday day = lo \<and> \<not> covered p day d)
    | Inr (d', _) \<Rightarrow> weekly_ok d' \<and> d' = d\<lparr>db_partitions := db_partitions d'\<rparr> \<and>
        map_of (db_partitions d) \<subseteq>\<^sub>m map_of (db_partitions d') \<and>
        (map_of (db_partitions d') (p, partition_name p (midnight lo)) = Some (lo, lo + 7) \<or>
         partition_name p (midnight lo) \<in> set (db_loose_tables d)))"
proof -
  let ?name = "partition_name p (midnight lo)"
  have same: "q = p \<and> a = lo \<and> b = lo + 7" if "((q, ?name), a, b) \<in> set (db_partitions d)" for q a b
    using weekly_okD [OF ok that] partition_name_parent [OF _ p] partition_name_week lo by metis
  show ?thesis
  proof (cases "relation_exists ?name d")
    case True
    have "map_of (db_partitions d) (p, ?name) = Some (lo, lo + 7) \<or> ?name \<in> set (db_loose_tables d)"
    proof (cases "?name \<in> set (db_loose_tables d)")
      case False
      then obtain q a b where "((q, ?name), a, b) \<in> set (db_partitions d)"
        using True by (auto simp: relation_exists_def)
      then have "((p, ?name), lo, lo + 7) \<in> set (db_partitions d)" using same by blast
      then show ?thesis using ok by (simp add: weekly_ok_def al_wf_mem)
    qed simp
    then show ?thesis using True ok by (simp add: s_def create_stmt_def)
  next
    case False
    have no: "\<not> list_ex (\<lambda>((q, _), lo', hi'). q = p \<and> lo < hi' \<and> lo' < lo + 7) (db_partitions d)"
    proof
      assume "list_ex (\<lambda>((q, _), lo', hi'). q = p \<and> lo < hi' \<and> lo' < lo + 7) (db_partitions d)"
      then obtain n a b where x: "((p, n), a, b) \<in> set (db_partitions d)" "lo < b" "a < lo + 7"
        by (auto simp: list_ex_iff)
      then have "n = ?name" using weekly_okD [OF ok x(1)] mondays_apart [of a lo] lo by simp
      then show False using x(1) False by (force simp: relation_exists_def)
    qed
    show ?thesis
    proof (cases "list_ex (\<lambda>day. lo \<le> day \<and> day < lo + 7 \<and> \<not> covered p day d) (row_days p d)")
      case True
      then obtain day where "day \<in> set (row_days p d)" "lo \<le> day" "day < lo + 7" "\<not> covered p day d"
        by (auto simp: list_ex_iff)
      moreover have "monday day = lo" using lo calculation(2,3) unfolding monday_def by presburger
      moreover have "contains_text ''updated partition constraint for default partition would be violated by some row (SQLSTATE 23514)'' ''SQLSTATE 23514''"
        by code_simp
      ultimately show ?thesis using False no True by (auto simp: s_def create_stmt_def)
    next
      case free: False
      have "map_of (db_partitions d) (p, ?name) = None"
        using False by (force simp: map_of_eq_None_iff relation_exists_def)
      moreover have "weekly_ok (d\<lparr>db_partitions := al_put (p, ?name) (lo, lo + 7) (db_partitions d)\<rparr>)"
        using ok p lo calculation by (auto simp: weekly_ok_def list_all_iff al_wf_mem dest!: map_of_SomeD split: if_splits)
      ultimately show ?thesis using False no free by (simp add: s_def create_stmt_def map_le_def dom_def)
    qed
  qed
qed

text \<open>Partitions were added, and nothing else happened.\<close>

definition grown :: "db \<Rightarrow> db \<Rightarrow> bool" where
  "grown d d' \<longleftrightarrow> (\<exists>ps. d' = d\<lparr>db_partitions := ps\<rparr> \<and> map_of (db_partitions d) \<subseteq>\<^sub>m map_of ps)"

lemma grown_refl [simp]: "grown d d"
  unfolding grown_def by (rule exI [of _ "db_partitions d"]) simp

lemma grown_trans: "grown d d' \<Longrightarrow> grown d' d'' \<Longrightarrow> grown d d''"
proof -
  assume "grown d d'" and "grown d' d''"
  then obtain ps qs where "d' = d\<lparr>db_partitions := ps\<rparr>" "map_of (db_partitions d) \<subseteq>\<^sub>m map_of ps"
    "d'' = d'\<lparr>db_partitions := qs\<rparr>" "map_of (db_partitions d') \<subseteq>\<^sub>m map_of qs" unfolding grown_def by blast
  then have "d'' = d\<lparr>db_partitions := qs\<rparr>" "map_of (db_partitions d) \<subseteq>\<^sub>m map_of qs"
    using map_le_trans by auto
  then show ?thesis unfolding grown_def by blast
qed

lemma grown_fields:
  assumes "grown d d'"
  shows "db_loose_tables d' = db_loose_tables d" "row_days p d' = row_days p d" "db_faults d' = db_faults d"
  using assms by (auto simp: grown_def row_days_def)

lemma covered_iff:
  "weekly_ok d \<Longrightarrow> covered p day d \<longleftrightarrow> (\<exists>n lo hi. map_of (db_partitions d) (p, n) = Some (lo, hi) \<and> lo \<le> day \<and> day < hi)"
  by (auto simp: covered_def list_ex_iff weekly_ok_def al_wf_mem [symmetric])

lemma grown_covered: "weekly_ok d \<Longrightarrow> weekly_ok d' \<Longrightarrow> grown d d' \<Longrightarrow> covered p day d \<Longrightarrow> covered p day d'"
  by (auto simp: covered_iff grown_def map_le_def dom_def) metis

text \<open>A week is provided for when it has its partition, or cannot have it.\<close>

definition provided :: "db \<Rightarrow> db \<Rightarrow> string \<Rightarrow> int \<Rightarrow> bool" where
  "provided d d' p m \<longleftrightarrow> (\<forall>day. monday day = m \<longrightarrow> covered p day d') \<or>
     partition_name p (midnight m) \<in> set (db_loose_tables d) \<or>
     (\<exists>day \<in> set (row_days p d). monday day = m \<and> \<not> covered p day d)"

lemma provided_grown:
  "provided d d1 p m \<Longrightarrow> grown d1 d' \<Longrightarrow> weekly_ok d1 \<Longrightarrow> weekly_ok d' \<Longrightarrow> provided d d' p m"
  unfolding provided_def using grown_covered by blast

lemma provided_later:
  assumes "provided d1 d' p m" "grown d d1" "weekly_ok d" "weekly_ok d1"
  shows "provided d d' p m"
  using assms grown_fields [OF assms(2)] grown_covered [OF assms(3,4,2)] unfolding provided_def by auto

lemma ensure_week_up:
  assumes "db_faults (sys_db w) = []" and "weekly_ok (sys_db w)" and "monday m = m"
    and "set ps \<subseteq> set partitioned_tables"
  shows "\<exists>w'. ensure_week ps (midnight m) w = (None, w') \<and> grown (sys_db w) (sys_db w') \<and> weekly_ok (sys_db w') \<and>
    (\<forall>p \<in> set ps. provided (sys_db w) (sys_db w') p m)"
  using assms
proof (induction ps arbitrary: w)
  case Nil
  then show ?case by simp
next
  case (Cons p ps)
  let ?name = "partition_name p (midnight m)" and ?d = "sys_db w"
  define s where "s = create_stmt p ?name m (m + 7) ?d"
  have p: "p \<in> set partitioned_tables" using Cons.prems(4) by simp
  note c = create_week [OF Cons.prems(2) p Cons.prems(3), folded s_def]
  have hi: "local_day utc (add_date_utc (midnight m) 7) = m + 7" "local_day utc (midnight m) = m"
    unfolding add_date_utc distrib_right [symmetric] day_second midnight_day by simp_all
  have tl: "?d\<lparr>db_faults := []\<rparr> = ?d" using Cons.prems(1) by simp
  obtain r w1 where run: "db_run (create_stmt p ?name m (m + 7)) w = (r, w1)" by (metis surj_pair)
  have w1: "grown ?d (sys_db w1) \<and> weekly_ok (sys_db w1) \<and> provided ?d (sys_db w1) p m \<and>
      (\<forall>e. r = Inl e \<longrightarrow> contains_text (error_text e) ''SQLSTATE 23514'')"
  proof (cases s)
    case (Inl e)
    then have "r = Inl e" "sys_db w1 = ?d"
      using run Cons.prems(1) tl by (auto simp: db_run_def next_fault_def s_def)
    then show ?thesis using c Inl Cons.prems(2) by (auto simp: provided_def)
  next
    case (Inr x)
    obtain d' where x: "x = (d', ())" by (cases x) auto
    have d': "weekly_ok d'" "grown ?d d'" using c Inr x by (auto simp: grown_def intro: exI [of _ "db_partitions d'"])
    have r: "r = Inr ()" "sys_db w1 = d'"
      using run Cons.prems(1) Inr x grown_fields(3) [OF d'(2)]
      by (auto simp: db_run_def next_fault_def s_def)
    have "provided ?d d' p m"
    proof (cases "map_of (db_partitions d') (p, ?name) = Some (m, m + 7)")
      case True
      then have "covered p day d'" if "monday day = m" for day
        using that monday_dvd(2,3) [of day] by (auto simp: covered_iff [OF d'(1)])
      then show ?thesis by (simp add: provided_def)
    next
      case False
      then show ?thesis using c Inr x by (simp add: provided_def)
    qed
    then show ?thesis using d' r by simp
  qed
  have "db_faults (sys_db w1) = []" using w1 grown_fields(3) [of ?d "sys_db w1"] Cons.prems(1) by simp
  from Cons.IH [OF this _ Cons.prems(3)] w1 Cons.prems(4) obtain w' where
    w': "ensure_week ps (midnight m) w1 = (None, w')" "grown (sys_db w1) (sys_db w')" "weekly_ok (sys_db w')"
      "\<forall>p \<in> set ps. provided (sys_db w1) (sys_db w') p m" by auto
  have "ensure_week (p # ps) (midnight m) w = (None, w')"
    using run w' w1 by (cases r) (simp_all add: Let_def hi del: day_second)
  moreover have "grown ?d (sys_db w')" using w1 w'(2) grown_trans by blast
  moreover have "provided ?d (sys_db w') q m" if "q \<in> set (p # ps)" for q
  proof (cases "q \<in> set ps")
    case True
    then show ?thesis using w'(4) w1 Cons.prems(2) provided_later by blast
  next
    case False
    then show ?thesis using that w1 w'(2,3) provided_grown by auto
  qed
  ultimately show ?case using w'(3) by blast
qed

lemma ensure_weeks_up:
  assumes "db_faults (sys_db w) = []" and "weekly_ok (sys_db w)" and "monday a = a" and "monday b = b"
  shows "\<exists>w'. ensure_weeks (midnight a) (midnight b) w = (None, w') \<and> grown (sys_db w) (sys_db w') \<and>
    weekly_ok (sys_db w') \<and>
    (\<forall>p \<in> set partitioned_tables. \<forall>m. monday m = m \<longrightarrow> a \<le> m \<longrightarrow> m \<le> b \<longrightarrow> provided (sys_db w) (sys_db w') p m)"
  using assms
proof (induction "nat (b + 7 - a)" arbitrary: a w rule: less_induct)
  case less
  show ?case
  proof (cases "a \<le> b")
    case False
    then have "ensure_weeks (midnight a) (midnight b) w = (None, w)" by (simp add: ensure_weeks.simps second_def)
    then show ?thesis using False less.prems by auto
  next
    case True
    obtain w1 where w1: "ensure_week partitioned_tables (midnight a) w = (None, w1)" "grown (sys_db w) (sys_db w1)"
      "weekly_ok (sys_db w1)" "\<forall>p \<in> set partitioned_tables. provided (sys_db w) (sys_db w1) p a"
      using ensure_week_up [OF less.prems(1-3) order_refl] by blast
    have a7: "monday (a + 7) = a + 7" using less.prems(3) unfolding monday_def by presburger
    have up: "db_faults (sys_db w1) = []" using w1(2) grown_fields(3) [of "sys_db w" "sys_db w1"] less.prems(1) by simp
    have "nat (b + 7 - (a + 7)) < nat (b + 7 - a)" using True by simp
    from less.hyps [OF this up w1(3) a7 less.prems(4)] obtain w' where
      w': "ensure_weeks (midnight (a + 7)) (midnight b) w1 = (None, w')" "grown (sys_db w1) (sys_db w')" "weekly_ok (sys_db w')"
        "\<forall>p \<in> set partitioned_tables. \<forall>m. monday m = m \<longrightarrow> a + 7 \<le> m \<longrightarrow> m \<le> b \<longrightarrow> provided (sys_db w1) (sys_db w') p m"
      by blast
    have "ensure_weeks (midnight a) (midnight b) w = (None, w')"
    proof -
      have "\<not> midnight a > midnight b" using True by (simp add: second_def)
      moreover have "add_date_utc (midnight a) 7 = midnight (a + 7)" by (simp add: add_date_utc distrib_right)
      ultimately show ?thesis using w1(1) w'(1) by (subst ensure_weeks.simps) simp
    qed
    moreover have "provided (sys_db w) (sys_db w') p m"
      if "p \<in> set partitioned_tables" "monday m = m" "a \<le> m" "m \<le> b" for p m
    proof (cases "m = a")
      case True
      then show ?thesis using w1 w'(2,3) that(1) provided_grown by blast
    next
      case False
      then have "a + 7 \<le> m" using that less.prems(3) unfolding monday_def by presburger
      then show ?thesis using w'(4) that w1 less.prems(2) provided_later by blast
    qed
    ultimately show ?thesis using w'(2,3) w1(2) grown_trans by blast
  qed
qed

text \<open>
  C18: with the database up, \<open>EnsurePartitions\<close> provides for every day of its range. It
  succeeds, adds partitions and changes nothing else, keeps one partition per ISO week, and
  leaves a day of the range without a partition only where rows of its week already are in
  the default partition, or a detached table still has the name.
\<close>

theorem ensure_partitions_cover:
  assumes "db_faults (sys_db w) = []" and "weekly_ok (sys_db w)"
    and "ensure_partitions lo hi w = (e, w')" and "p \<in> set partitioned_tables"
    and "local_day utc lo \<le> day" "day \<le> local_day utc hi"
  shows "e = None \<and> weekly_ok (sys_db w') \<and> grown (sys_db w) (sys_db w') \<and>
    (covered p day (sys_db w') \<or> partition_name p (midnight day) \<in> set (db_loose_tables (sys_db w)) \<or>
     (\<exists>x \<in> set (row_days p (sys_db w)). monday x = monday day \<and> \<not> covered p x (sys_db w)))"
proof -
  let ?a = "monday (local_day utc lo)" and ?b = "monday (local_day utc hi)"
  have mm: "monday (monday n) = monday n" for n by (simp add: monday_def)
  obtain w1 where w1: "ensure_weeks (midnight ?a) (midnight ?b) w = (None, w1)" "grown (sys_db w) (sys_db w1)"
    "weekly_ok (sys_db w1)"
    "\<forall>p \<in> set partitioned_tables. \<forall>m. monday m = m \<longrightarrow> ?a \<le> m \<longrightarrow> m \<le> ?b \<longrightarrow> provided (sys_db w) (sys_db w1) p m"
    using ensure_weeks_up [OF assms(1,2) mm mm] by blast
  have run: "e = None" "w' = w1" using assms(3) w1(1) by (simp_all add: ensure_partitions_def week_start del: day_second)
  have "?a \<le> monday day" "monday day \<le> ?b" using assms(5,6) unfolding monday_def by presburger+
  then have prov: "provided (sys_db w) (sys_db w1) p (monday day)" using w1(4) assms(4) mm by blast
  have "partition_name p (midnight (monday day)) = partition_name p (midnight day)"
    by (simp add: partition_name_def iso_week del: day_second) (simp add: mm)
  then show ?thesis using prov w1 run unfolding provided_def by auto
qed

text \<open>Statements sent: one per table and week.\<close>

definition weeks_between :: "instant \<Rightarrow> instant \<Rightarrow> nat" where
  "weeks_between ws stop = (if ws > stop then 0 else nat ((stop - ws) div (7 * (86400 * second))) + 1)"

lemma weeks_between_step: "\<not> ws > stop \<Longrightarrow> weeks_between ws stop = Suc (weeks_between (add_date_utc ws 7) stop)"
proof -
  assume le: "\<not> ws > stop"
  define k where "k = 7 * (86400 * second)"
  have k: "0 < k" by (simp add: k_def second_def)
  have eq: "stop - add_date_utc ws 7 = (stop - ws) + (- 1) * k" by (simp add: add_date_utc k_def)
  have div: "(stop - add_date_utc ws 7) div k = (stop - ws) div k - 1" using k unfolding eq by (subst div_mult_self1) simp_all
  have "add_date_utc ws 7 > stop \<longleftrightarrow> (stop - ws) div k = 0"
  proof -
    have "add_date_utc ws 7 = ws + k" by (simp only: add_date_utc k_def)
    then show ?thesis using le k by (auto simp: zdiv_eq_0_iff)
  qed
  moreover have "0 \<le> (stop - ws) div k" using le k by (simp add: pos_imp_zdiv_nonneg_iff)
  ultimately show ?thesis using le div unfolding weeks_between_def k_def [symmetric] by auto
qed

lemma db_run_outcome:
  "db_run stmt w = (r, w') \<Longrightarrow>
    (isl r \<and> sys_db w' = drop_fault (sys_db w)) \<or>
    (\<exists>d x. stmt (sys_db w) = Inr (d, x) \<and> sys_db w' = drop_fault d)"
  by (cases "stmt (sys_db w)") (auto simp: db_run_def Let_def split: option.splits fault.splits if_splits)

lemma db_run_sent:
  "db_run stmt w = (r, w') \<Longrightarrow> (\<And>d d' x. stmt d = Inr (d', x) \<Longrightarrow> db_faults d' = db_faults d) \<Longrightarrow>
    db_faults (sys_db w') = tl (db_faults (sys_db w))"
  by (drule db_run_outcome) auto

lemma create_stmt_faults: "create_stmt p n lo hi d = Inr (d', x) \<Longrightarrow> db_faults d' = db_faults d"
  by (auto simp: create_stmt_def split: if_splits)

lemma ensure_week_sent:
  "ensure_week ps ws w = (e, w') \<Longrightarrow>
    \<exists>k. db_faults (sys_db w') = drop k (db_faults (sys_db w)) \<and> k \<le> length ps \<and> (e = None \<longrightarrow> k = length ps)"
proof (induction ps arbitrary: w)
  case Nil
  then show ?case by (intro exI [of _ 0]) auto
next
  case (Cons p ps)
  obtain r w1 where run: "db_run (create_stmt p (partition_name p ws) (local_day utc ws) (local_day utc (add_date_utc ws 7))) w = (r, w1)"
    by (metis surj_pair)
  note sent = db_run_sent [OF run create_stmt_faults]
  consider (stop) "e \<noteq> None" "w' = w1" | (go) "ensure_week ps ws w1 = (e, w')"
    using Cons.prems run by (auto simp: Let_def simp del: day_second split: sum.splits if_splits)
  then show ?case
  proof cases
    case stop
    then show ?thesis using sent by (intro exI [of _ 1]) (auto simp: drop_Suc)
  next
    case go
    from Cons.IH [OF this] obtain k where "db_faults (sys_db w') = drop k (db_faults (sys_db w1))" "k \<le> length ps"
      "e = None \<longrightarrow> k = length ps" by blast
    then show ?thesis using sent by (intro exI [of _ "Suc k"]) (simp add: drop_Suc)
  qed
qed

text \<open>
  C39: \<open>EnsurePartitions\<close> ends, whatever the database answers: it sends at most one statement
  per table and week of the range, and exactly that many when it succeeds.
\<close>

theorem ensure_partitions_bounded:
  assumes "ensure_partitions lo hi w = (e, w')"
  shows "\<exists>k. db_faults (sys_db w') = drop k (db_faults (sys_db w)) \<and>
    k \<le> 2 * weeks_between (week_start lo) (week_start hi) \<and>
    (e = None \<longrightarrow> k = 2 * weeks_between (week_start lo) (week_start hi))"
proof -
  have "\<exists>k. db_faults (sys_db w') = drop k (db_faults (sys_db w)) \<and> k \<le> 2 * weeks_between ws stop \<and>
      (e = None \<longrightarrow> k = 2 * weeks_between ws stop)" if "ensure_weeks ws stop w = (e, w')" for ws stop
    using that
  proof (induction ws stop w rule: ensure_weeks.induct)
    case (1 ws stop w)
    show ?case
    proof (cases "ws > stop")
      case True
      then show ?thesis using "1.prems" by (intro exI [of _ 0]) (simp add: ensure_weeks.simps weeks_between_def)
    next
      case False
      obtain e1 w1 where wk: "ensure_week partitioned_tables ws w = (e1, w1)" by (metis surj_pair)
      from ensure_week_sent [OF wk] obtain j where j: "db_faults (sys_db w1) = drop j (db_faults (sys_db w))" "j \<le> 2"
        "e1 = None \<longrightarrow> j = 2" by (auto simp: partitioned_tables_def)
      note step = weeks_between_step [OF False]
      show ?thesis
      proof (cases e1)
        case (Some x)
        then have "e = Some x" "w' = w1" using "1.prems" False wk by (simp_all add: ensure_weeks.simps [of ws])
        then show ?thesis using j step by (intro exI [of _ j]) auto
      next
        case None
        then have "ensure_weeks (add_date_utc ws 7) stop w1 = (e, w')"
          using "1.prems" False wk by (simp add: ensure_weeks.simps [of ws])
        from "1.IH" [OF False wk [symmetric] None this] obtain k where
          "db_faults (sys_db w') = drop k (db_faults (sys_db w1))" "k \<le> 2 * weeks_between (add_date_utc ws 7) stop"
          "e = None \<longrightarrow> k = 2 * weeks_between (add_date_utc ws 7) stop" by blast
        then show ?thesis using j None step by (intro exI [of _ "k + j"]) simp
      qed
    qed
  qed
  then show ?thesis using assms unfolding ensure_partitions_def .
qed

section \<open>What dropping removes\<close>

text \<open>
  \<open>thinned old d d'\<close>: rows whose table and day satisfy \<open>old\<close> may have gone, and with them
  partitions; the rest is as it was.
\<close>

definition thinned :: "(string \<Rightarrow> int \<Rightarrow> bool) \<Rightarrow> db \<Rightarrow> db \<Rightarrow> bool" where
  "thinned old d d' \<longleftrightarrow> (\<exists>P Q ps loose faults.
     d' = d\<lparr>db_stop_events := filter P (db_stop_events d), db_positions := filter Q (db_positions d),
            db_partitions := ps, db_loose_tables := loose, db_faults := faults\<rparr> \<and>
     (\<forall>x. P x \<or> old ''stop_events'' (fst (fst x))) \<and>
     (\<forall>x. Q x \<or> old ''vehicle_positions'' (local_day utc (snd (fst x)))))"

lemma filter_id: "xs = filter (\<lambda>x. True) xs"
  by simp

lemma thinned_refl [simp]: "thinned old d (d\<lparr>db_faults := f\<rparr>)"
  unfolding thinned_def
  by (intro exI [of _ "\<lambda>x. True"] exI [of _ "db_partitions d"] exI [of _ "db_loose_tables d"] exI [of _ f]) simp

lemma thinned_trans:
  assumes "thinned old d d'" and "thinned old d' d''"
  shows "thinned old d d''"
proof -
  obtain P Q where P: "\<exists>ps loose faults. d' = d\<lparr>db_stop_events := filter P (db_stop_events d),
      db_positions := filter Q (db_positions d), db_partitions := ps, db_loose_tables := loose, db_faults := faults\<rparr>"
    "\<forall>x. P x \<or> old ''stop_events'' (fst (fst x))" "\<forall>x. Q x \<or> old ''vehicle_positions'' (local_day utc (snd (fst x)))"
    using assms(1) unfolding thinned_def by blast
  obtain P' Q' ps loose faults where P': "d'' = d'\<lparr>db_stop_events := filter P' (db_stop_events d'),
      db_positions := filter Q' (db_positions d'), db_partitions := ps, db_loose_tables := loose, db_faults := faults\<rparr>"
    "\<forall>x. P' x \<or> old ''stop_events'' (fst (fst x))" "\<forall>x. Q' x \<or> old ''vehicle_positions'' (local_day utc (snd (fst x)))"
    using assms(2) unfolding thinned_def by blast
  have "d'' = d\<lparr>db_stop_events := filter (\<lambda>x. P x \<and> P' x) (db_stop_events d),
      db_positions := filter (\<lambda>x. Q x \<and> Q' x) (db_positions d),
      db_partitions := ps, db_loose_tables := loose, db_faults := faults\<rparr>"
    using P(1) P'(1) by auto
  then show ?thesis unfolding thinned_def using P(2,3) P'(2,3) by blast
qed

lemma thinned_mono: "thinned old d d' \<Longrightarrow> (\<And>p n. old p n \<Longrightarrow> old' p n) \<Longrightarrow> thinned old' d d'"
  unfolding thinned_def by blast

lemma drop_stmt_thin:
  "drop_stmt c d = Inr (d', x) \<Longrightarrow> thinned old d d' \<and> db_partitions d' = db_partitions d"
  unfolding thinned_def drop_stmt_def
  by (intro conjI exI [of _ "\<lambda>x. True"] exI [of _ "db_partitions d"] exI [of _ "filter (\<lambda>x. x \<noteq> c) (db_loose_tables d)"]
      exI [of _ "db_faults d"]) (auto split: if_splits)

lemma detach_stmt_thin:
  assumes "detach_stmt p c d = Inr (d', x)"
  shows "\<exists>lo hi. map_of (db_partitions d) (p, c) = Some (lo, hi) \<and>
    thinned (\<lambda>q n. q = p \<and> lo \<le> n \<and> n < hi) d d' \<and> db_partitions d' = al_del (p, c) (db_partitions d)"
proof -
  obtain lo hi where m: "map_of (db_partitions d) (p, c) = Some (lo, hi)"
    and d': "d' = (remove_rows p lo hi d)\<lparr>db_partitions := al_del (p, c) (db_partitions d),
      db_loose_tables := c # db_loose_tables d\<rparr>"
    using assms by (auto simp: detach_stmt_def split: option.splits)
  have "thinned (\<lambda>q n. q = p \<and> lo \<le> n \<and> n < hi) d d'"
    unfolding thinned_def d' remove_rows_def
    by (intro exI [of _ "\<lambda>x. \<not> (p = ''stop_events'' \<and> lo \<le> fst (fst x) \<and> fst (fst x) < hi)"]
        exI [of _ "\<lambda>x. \<not> (p = ''vehicle_positions'' \<and> lo \<le> local_day utc (snd (fst x)) \<and> local_day utc (snd (fst x)) < hi)"]
        exI [of _ "al_del (p, c) (db_partitions d)"] exI [of _ "c # db_loose_tables d"] exI [of _ "db_faults d"]) auto
  then show ?thesis using m d' by simp
qed

lemma parsed_week:
  assumes ok: "weekly_ok d" and c: "map_of (db_partitions d) (p, c) = Some (lo, hi)"
    and old: "partition_old p cutoff c"
  shows "midnight hi \<le> cutoff" "hi = lo + 7"
proof -
  note wk = weekly_okD [OF ok map_of_SomeD [OF c]]
  show "hi = lo + 7" using wk by simp
  obtain ws where ws: "parse_partition_name p c = Some ws" "add_date_utc ws 7 \<le> cutoff"
    using old by (auto simp: partition_old_def split: option.splits)
  then obtain y w where yw: "ws = iso_week_start y w" "partition_name p ws = c"
    by (auto simp: parse_partition_name_def Let_def split: option.splits if_splits)
  have "ws = midnight (monday (local_day utc (go_date y 1 4 0 utc)) + (w - 1) * 7)"
    unfolding yw(1) iso_week_start_def week_start add_date_utc distrib_right by simp
  moreover have "monday (monday n + k * 7) = monday n + k * 7" for n k unfolding monday_def by presburger
  ultimately have "week_start ws = ws" using week_start_midnight by metis
  moreover have "week_start ws = week_start (midnight lo)" using partition_name_inj [of p ws "midnight lo"] yw(2) wk(4) by simp
  ultimately have "ws = midnight lo" using wk(2) by (simp only: week_start_midnight)
  then show "midnight hi \<le> cutoff" using ws(2) wk(3) by (simp add: add_date_utc distrib_right)
qed

abbreviation dropped_day :: "string \<Rightarrow> instant \<Rightarrow> string \<Rightarrow> int \<Rightarrow> bool" where
  "dropped_day p cutoff \<equiv> (\<lambda>q n. q = p \<and> midnight (n + 1) \<le> cutoff)"

lemma weekly_ok_partitions: "weekly_ok d \<Longrightarrow> db_partitions d' = al_del k (db_partitions d) \<Longrightarrow> weekly_ok d'"
  by (auto simp: weekly_ok_def list_all_iff AList.delete_eq)

lemma weekly_ok_same: "db_partitions d' = db_partitions d \<Longrightarrow> weekly_ok d' = weekly_ok d"
  by (simp add: weekly_ok_def)

lemma weekly_ok_faults [simp]: "weekly_ok (d\<lparr>db_faults := f\<rparr>) = weekly_ok d"
  by (simp add: weekly_ok_def)

lemma thinned_faults: "thinned old d d' \<Longrightarrow> thinned old d (d'\<lparr>db_faults := f\<rparr>)"
  using thinned_trans thinned_refl by blast

lemma detach_run_thin:
  assumes ok: "weekly_ok (sys_db w)" and old: "partition_old p cutoff c"
    and run: "db_run (detach_stmt p c) w = (r, w1)"
  shows "weekly_ok (sys_db w1) \<and> thinned (dropped_day p cutoff) (sys_db w) (sys_db w1)"
proof (cases "isl r \<and> sys_db w1 = drop_fault (sys_db w)")
  case True
  then show ?thesis using ok by simp
next
  case False
  then obtain d x where d: "detach_stmt p c (sys_db w) = Inr (d, x)" "sys_db w1 = drop_fault d"
    using db_run_outcome [OF run] by blast
  from detach_stmt_thin [OF d(1)] obtain lo hi where
    lo: "map_of (db_partitions (sys_db w)) (p, c) = Some (lo, hi)"
      "thinned (\<lambda>q n. q = p \<and> lo \<le> n \<and> n < hi) (sys_db w) d" "db_partitions d = al_del (p, c) (db_partitions (sys_db w))"
    by blast
  have "midnight (n + 1) \<le> cutoff" if "n < hi" for n
    using parsed_week(1) [OF ok lo(1) old] mult_right_mono [of "n + 1" hi "86400 * second"] that by (simp add: second_def)
  then have "thinned (dropped_day p cutoff) (sys_db w) d" by (intro thinned_mono [OF lo(2)]) auto
  then show ?thesis using weekly_ok_partitions [OF ok lo(3)] by (simp add: d(2) thinned_faults)
qed

lemma drop_run_thin:
  assumes ok: "weekly_ok (sys_db w)" and run: "db_run (drop_stmt c) w = (r, w1)"
  shows "weekly_ok (sys_db w1) \<and> thinned old (sys_db w) (sys_db w1)"
proof (cases "isl r \<and> sys_db w1 = drop_fault (sys_db w)")
  case True
  then show ?thesis using ok by simp
next
  case False
  then obtain d x where d: "drop_stmt c (sys_db w) = Inr (d, x)" "sys_db w1 = drop_fault d"
    using db_run_outcome [OF run] by blast
  then show ?thesis using drop_stmt_thin [OF d(1), of old] ok weekly_ok_same [of d "sys_db w"] by (simp add: thinned_faults)
qed

lemma drop_children_thin:
  assumes "drop_children p cutoff cs w = (e, w')" and "weekly_ok (sys_db w)"
  shows "weekly_ok (sys_db w') \<and> thinned (dropped_day p cutoff) (sys_db w) (sys_db w')"
  using assms
proof (induction cs arbitrary: w)
  case Nil
  then show ?case using thinned_refl [of _ "sys_db w" "db_faults (sys_db w)"] by simp
next
  case (Cons c cs)
  show ?case
  proof (cases "partition_old p cutoff c")
    case False
    then show ?thesis using Cons by simp
  next
    case True
    obtain r w1 where r: "db_run (detach_stmt p c) w = (r, w1)" by (metis surj_pair)
    obtain r2 w2 where r2: "db_run (drop_stmt c) w1 = (r2, w2)" by (metis surj_pair)
    note t1 = detach_run_thin [OF Cons.prems(2) True r]
    have t2: "weekly_ok (sys_db w2) \<and> thinned (dropped_day p cutoff) (sys_db w1) (sys_db w2)"
      using drop_run_thin [OF _ r2] t1 by blast
    have t12: "thinned (dropped_day p cutoff) (sys_db w) (sys_db w2)" using t1 t2 thinned_trans by blast
    consider "w' = w1" | "w' = w2" | "drop_children p cutoff cs w2 = (e, w')"
      using Cons.prems(1) True r r2 by (auto split: sum.splits)
    then show ?thesis
    proof cases
      case 3
      from Cons.IH [OF this] t2 have "weekly_ok (sys_db w')" "thinned (dropped_day p cutoff) (sys_db w2) (sys_db w')" by simp_all
      then show ?thesis using t12 thinned_trans by blast
    qed (use t1 t2 t12 in simp_all)
  qed
qed

lemma drop_children_up:
  assumes "db_faults (sys_db w) = []" and "distinct cs"
    and "\<And>c. c \<in> set cs \<Longrightarrow> partition_old p cutoff c \<Longrightarrow> map_of (db_partitions (sys_db w)) (p, c) \<noteq> None"
  shows "\<exists>w'. drop_children p cutoff cs w = (None, w') \<and> db_faults (sys_db w') = [] \<and>
    db_partitions (sys_db w') =
      filter (\<lambda>((q, n), _). \<not> (q = p \<and> n \<in> set cs \<and> partition_old p cutoff n)) (db_partitions (sys_db w))"
  using assms
proof (induction cs arbitrary: w)
  case Nil
  then show ?case by (simp add: case_prod_unfold)
next
  case (Cons c cs)
  show ?case
  proof (cases "partition_old p cutoff c")
    case False
    from Cons.IH [of w] Cons.prems obtain w' where w': "drop_children p cutoff cs w = (None, w')"
      "db_faults (sys_db w') = []" "db_partitions (sys_db w') =
        filter (\<lambda>((q, n), _). \<not> (q = p \<and> n \<in> set cs \<and> partition_old p cutoff n)) (db_partitions (sys_db w))" by auto
    then show ?thesis using False by (auto simp: case_prod_unfold intro!: filter_cong)
  next
    case True
    let ?d = "sys_db w"
    obtain lo hi where m: "map_of (db_partitions ?d) (p, c) = Some (lo, hi)"
      using Cons.prems(3) [of c] True by auto
    define d1 where "d1 = (remove_rows p lo hi ?d)\<lparr>db_partitions := al_del (p, c) (db_partitions ?d),
      db_loose_tables := c # db_loose_tables ?d\<rparr>"
    have f1: "db_faults d1 = []" using Cons.prems(1) by (simp add: d1_def remove_rows_def)
    obtain r w1 where r: "db_run (detach_stmt p c) w = (r, w1)" by (metis surj_pair)
    have w1: "r = Inr ()" "sys_db w1 = d1"
      using r m Cons.prems(1) f1 by (auto simp: db_run_def next_fault_def detach_stmt_def d1_def [symmetric])
    obtain r2 w2 where r2: "db_run (drop_stmt c) w1 = (r2, w2)" by (metis surj_pair)
    have "drop_stmt c d1 = Inr (d1\<lparr>db_loose_tables := filter (\<lambda>x. x \<noteq> c) (db_loose_tables d1)\<rparr>, ())"
      by (simp add: drop_stmt_def d1_def)
    then have w2: "r2 = Inr ()" "db_faults (sys_db w2) = []" "db_partitions (sys_db w2) = al_del (p, c) (db_partitions ?d)"
      using r2 w1 f1 by (auto simp: db_run_def next_fault_def d1_def)
    have "map_of (db_partitions (sys_db w2)) (p, x) \<noteq> None" if "x \<in> set cs" "partition_old p cutoff x" for x
      using that Cons.prems(2) Cons.prems(3) [of x] by (auto simp: w2(3))
    from Cons.IH [OF w2(2) _ this] Cons.prems(2) obtain w' where w': "drop_children p cutoff cs w2 = (None, w')"
      "db_faults (sys_db w') = []" "db_partitions (sys_db w') =
        filter (\<lambda>((q, n), _). \<not> (q = p \<and> n \<in> set cs \<and> partition_old p cutoff n)) (db_partitions (sys_db w2))" by auto
    have "drop_children p cutoff (c # cs) w = (None, w')" using True r w1 r2 w2 w' by simp
    moreover have "db_partitions (sys_db w') =
        filter (\<lambda>((q, n), _). \<not> (q = p \<and> n \<in> set (c # cs) \<and> partition_old p cutoff n)) (db_partitions ?d)"
      using True unfolding w'(3) w2(3) AList.delete_eq filter_filter by (auto intro!: filter_cong)
    ultimately show ?thesis using w'(2) by blast
  qed
qed

text \<open>The days that may be dropped, and the partitions that must be.\<close>

definition past_keep :: "(string \<times> int) list \<Rightarrow> instant \<Rightarrow> string \<Rightarrow> int \<Rightarrow> bool" where
  "past_keep keeps now p n \<longleftrightarrow> (\<exists>keep. (p, keep) \<in> set keeps \<and> 0 < keep \<and> midnight (n + 1) \<le> add_date_utc now (- 7 * keep))"

lemma drop_old_thin:
  assumes "drop_old_partitions keeps now w = (e, w')" and "weekly_ok (sys_db w)"
  shows "weekly_ok (sys_db w') \<and> thinned (past_keep keeps now) (sys_db w) (sys_db w')"
  using assms
proof (induction keeps now w rule: drop_old_partitions.induct)
  case (1 now w)
  then show ?case using thinned_refl [of _ "sys_db w" "db_faults (sys_db w)"] by simp
next
  case (2 p keep rest now w)
  have wider: "thinned (past_keep ((p, keep) # rest) now) d d'" if "thinned (past_keep rest now) d d'" for d d'
    using that by (rule thinned_mono) (auto simp: past_keep_def)
  show ?case
  proof (cases "keep \<le> 0")
    case True
    then show ?thesis using 2 wider by simp
  next
    case False
    let ?cut = "add_date_utc now (- 7 * keep)"
    obtain cr w1 where c: "child_partitions p w = (cr, w1)" by (metis surj_pair)
    have w1: "sys_db w1 = drop_fault (sys_db w)"
      using c by (auto simp: child_partitions_def db_query_def split: option.splits fault.splits)
    show ?thesis
    proof (cases cr)
      case (Inl x)
      then show ?thesis using "2.prems" False c w1 by simp
    next
      case (Inr cs)
      obtain e2 w2 where d: "drop_children p ?cut cs w1 = (e2, w2)" by (metis surj_pair)
      have ok1: "weekly_ok (sys_db w1)" using "2.prems"(2) w1 by simp
      note t = drop_children_thin [OF d ok1]
      have "thinned (past_keep ((p, keep) # rest) now) (sys_db w1) (sys_db w2)"
        using t False by (elim conjE thinned_mono) (auto simp: past_keep_def)
      then have t2: "thinned (past_keep ((p, keep) # rest) now) (sys_db w) (sys_db w2)"
        using w1 thinned_refl thinned_trans by metis
      show ?thesis
      proof (cases e2)
        case (Some x)
        then show ?thesis using "2.prems" False c Inr d t t2 by simp
      next
        case None
        then have "drop_old_partitions rest now w2 = (e, w')" using "2.prems" False c Inr d by simp
        from "2.IH"(2) [OF False c [symmetric] Inr d [symmetric] None this] t
        show ?thesis using wider t2 thinned_trans by blast
      qed
    qed
  qed
qed

lemma default_not_old: "\<not> partition_old p cutoff (p @ ''_default'')"
  by (simp add: partition_old_def parse_partition_name_def partition_groups_def has_prefix_iff)

lemma child_names_dropped:
  assumes "weekly_ok d"
  shows "distinct (child_names p d)"
    and "c \<in> set (child_names p d) \<Longrightarrow> partition_old p cutoff c \<Longrightarrow> map_of (db_partitions d) (p, c) \<noteq> None"
    and "p \<in> set partitioned_tables \<Longrightarrow> map_of (db_partitions d) (p, c) \<noteq> None \<Longrightarrow> c \<in> set (child_names p d)"
proof -
  have "p @ ''_default'' \<noteq> partition_name p t" for t
    by (auto simp: partition_name_def split: prod.splits)
  then have "((p, p @ ''_default''), lo, hi) \<notin> set (db_partitions d)" for lo hi
    using weekly_okD(4) [OF assms] by blast
  moreover have "distinct (map snd (filter (\<lambda>(q, _). q = p) (al_keys (db_partitions d))))"
  proof -
    have "distinct (al_keys (db_partitions d))" using assms by (simp add: weekly_ok_def al_wf_def)
    then show ?thesis by (auto simp: distinct_map intro!: inj_onI)
  qed
  ultimately show "distinct (child_names p d)" by (auto simp: child_names_def distinct_insort)
  show "c \<in> set (child_names p d) \<Longrightarrow> partition_old p cutoff c \<Longrightarrow> map_of (db_partitions d) (p, c) \<noteq> None"
    using default_not_old by (auto simp: child_names_def map_of_eq_None_iff image_iff set_insort_key split: if_splits)
  show "p \<in> set partitioned_tables \<Longrightarrow> map_of (db_partitions d) (p, c) \<noteq> None \<Longrightarrow> c \<in> set (child_names p d)"
    by (auto simp: child_names_def set_insort_key image_iff dest!: map_of_SomeD) force
qed

lemma drop_old_up:
  assumes "weekly_ok (sys_db w)" and "db_faults (sys_db w) = []"
  shows "\<exists>w'. drop_old_partitions keeps now w = (None, w') \<and>
    set (db_partitions (sys_db w')) \<subseteq> set (db_partitions (sys_db w)) \<and>
    (\<forall>p keep n x. (p, keep) \<in> set keeps \<longrightarrow> 0 < keep \<longrightarrow> ((p, n), x) \<in> set (db_partitions (sys_db w')) \<longrightarrow>
       \<not> partition_old p (add_date_utc now (- 7 * keep)) n)"
  using assms
proof (induction keeps now w rule: drop_old_partitions.induct)
  case (1 now w)
  then show ?case by simp
next
  case (2 p keep rest now w)
  show ?case
  proof (cases "keep \<le> 0")
    case True
    then show ?thesis using 2 by fastforce
  next
    case False
    let ?cut = "add_date_utc now (- 7 * keep)"
    obtain cr w1 where c: "child_partitions p w = (cr, w1)" by (metis surj_pair)
    have cs: "cr = Inr (child_names p (sys_db w))" "sys_db w1 = sys_db w"
      using c "2.prems"(2) by (auto simp: child_partitions_def db_query_def next_fault_def)
    note names = child_names_dropped [OF "2.prems"(1), where p = p]
    have up: "db_faults (sys_db w1) = []" "weekly_ok (sys_db w1)" using "2.prems" cs(2) by simp_all
    have "\<exists>w2. drop_children p ?cut (child_names p (sys_db w)) w1 = (None, w2) \<and> db_faults (sys_db w2) = [] \<and>
        db_partitions (sys_db w2) = filter (\<lambda>((q, n), _). \<not> (q = p \<and> n \<in> set (child_names p (sys_db w)) \<and>
           partition_old p ?cut n)) (db_partitions (sys_db w))"
      using drop_children_up [OF up(1) names(1), of p ?cut] names(2) unfolding cs(2) by blast
    then obtain w2 where
      d: "drop_children p ?cut (child_names p (sys_db w)) w1 = (None, w2)" "db_faults (sys_db w2) = []"
        "db_partitions (sys_db w2) = filter (\<lambda>((q, n), _). \<not> (q = p \<and> n \<in> set (child_names p (sys_db w)) \<and>
           partition_old p ?cut n)) (db_partitions (sys_db w))" by blast
    have ok2: "weekly_ok (sys_db w2)" using drop_children_thin [OF d(1) up(2)] by simp
    from "2.IH"(2) [OF False c [symmetric] cs(1) d(1) [symmetric] refl ok2 d(2)] obtain w' where
      w': "drop_old_partitions rest now w2 = (None, w')"
        "set (db_partitions (sys_db w')) \<subseteq> set (db_partitions (sys_db w2))"
        "\<forall>p keep n x. (p, keep) \<in> set rest \<longrightarrow> 0 < keep \<longrightarrow> ((p, n), x) \<in> set (db_partitions (sys_db w')) \<longrightarrow>
          \<not> partition_old p (add_date_utc now (- 7 * keep)) n" by blast
    have "drop_old_partitions ((p, keep) # rest) now w = (None, w')"
      using False c cs(1) d(1) w'(1) by simp
    moreover have sub: "set (db_partitions (sys_db w')) \<subseteq> set (db_partitions (sys_db w))"
      using w'(2) unfolding d(3) by auto
    moreover have "\<not> partition_old p ?cut n" if mem: "((p, n), x) \<in> set (db_partitions (sys_db w'))" for n x
    proof -
      obtain lo hi where m: "((p, n), lo, hi) \<in> set (db_partitions (sys_db w))" using mem sub by (cases x) blast
      then have "map_of (db_partitions (sys_db w)) (p, n) \<noteq> None"
        using "2.prems"(1) by (simp add: weekly_ok_def al_wf_mem)
      then have "n \<in> set (child_names p (sys_db w))" using names(3) weekly_okD(1) [OF "2.prems"(1) m] by blast
      then show ?thesis using mem w'(2) unfolding d(3) by auto
    qed
    ultimately show ?thesis using w'(3) by auto
  qed
qed


section \<open>A sample\<close>

text \<open>
  Two weeks with a row each and the default partition with another, in a year of 53 weeks.
\<close>

definition sample_week_row :: "int \<Rightarrow> row_key \<times> stop_event_row" where
  "sample_week_row day = ((day, ''t'', [], 1),
     \<lparr>re_stop_id = ''s'', re_route_id = ''r'', re_direction_id = 0, re_schedule_version_id = 1, re_vehicle_id = [],
      re_scheduled_arrival = None, re_predicted_arrival = None, re_actual_arrival = None, re_delay_secs = None,
      re_final = True, re_skipped = False, re_feed_timestamp = 0, re_first_seen = 0, re_last_updated = 0,
      re_update_count = 1\<rparr>)"

definition sample_weeks :: "store sys" where
  "sample_weeks = on_db (\<lambda>d. d\<lparr>
     db_stop_events := [sample_week_row 739980, sample_week_row 739984, sample_week_row 739995],
     db_partitions := map (\<lambda>n. ((''stop_events'', partition_name ''stop_events'' (midnight n)), n, n + 7)) [739977, 739984]\<rparr>)
     (opened_store [])"

lemma sample_weeks_ok: "weekly_ok (sys_db sample_weeks)"
proof -
  have "partition_name ''stop_events'' (midnight 739977) \<noteq> partition_name ''stop_events'' (midnight 739984)"
    using partition_name_week [of 739977 739984 "''stop_events''"] by (auto simp: monday_def)
  then show ?thesis
    by (simp add: sample_weeks_def weekly_ok_def al_wf_def partitioned_tables_def monday_def)
qed

lemma sample_weeks_up: "db_faults (sys_db sample_weeks) = []"
  by (simp add: sample_weeks_def opened_store_def empty_db_def)

theorem ensure_partitions_cover_witness:
  "covered ''stop_events'' 740000 (sys_db (snd (ensure_partitions (midnight 739978) (midnight 740004) sample_weeks)))"
proof -
  obtain e w' where run: "ensure_partitions (midnight 739978) (midnight 740004) sample_weeks = (e, w')" by (metis surj_pair)
  have "row_days ''stop_events'' (sys_db sample_weeks) = [739980, 739984, 739995]"
    "db_loose_tables (sys_db sample_weeks) = []"
    by (simp_all add: row_days_def sample_weeks_def sample_week_row_def opened_store_def empty_db_def)
  moreover have "local_day utc (midnight 739978) = 739978" "local_day utc (midnight 740004) = 740004"
    unfolding day_second midnight_day by simp_all
  ultimately show ?thesis
    using ensure_partitions_cover [OF sample_weeks_up sample_weeks_ok run, of "''stop_events''" 740000]
    unfolding run by (auto simp: partitioned_tables_def monday_def)
qed


theorem ensure_partitions_bounded_witness:
  "db_faults (sys_db (snd (ensure_partitions (midnight 739978) (midnight 740004) sample_weeks))) = []"
proof -
  obtain e w' where run: "ensure_partitions (midnight 739978) (midnight 740004) sample_weeks = (e, w')" by (metis surj_pair)
  show ?thesis using ensure_partitions_bounded [OF run] sample_weeks_up unfolding run by auto
qed

end
