(* ===== verification/Csv.thy ===== *)
theory Csv
  imports Go_Strings
begin

text \<open>
  \<open>encoding/csv\<close> as the static feed parser uses it: comma-separated, no comments, strict quotes,
  rows of any length. The stream is the bytes that are left and the error after them, none
  for the end of the file. The second half is the round trip: what is written with every
  field quoted is read back, whatever commas, quotes and line breaks the fields contain.
\<close>

section \<open>The reader\<close>

abbreviation newline :: char where
  "newline \<equiv> CHR 0x0A"

abbreviation return_char :: char where
  "return_char \<equiv> CHR 0x0D"

abbreviation quote :: char where
  "quote \<equiv> CHR 0x22"

abbreviation comma :: char where
  "comma \<equiv> CHR 0x2C"

abbreviation io_eof :: go_error where
  "io_eof \<equiv> Sentinel Eof"

definition err_quote :: go_error where
  "err_quote = Message ''extraneous or missing quote in quoted-field''"

definition err_bare_quote :: go_error where
  "err_bare_quote = Message ''bare quote in non-quoted-field''"

text \<open>A line with its line break, which \<open>\r\n\<close> is made into.\<close>

definition read_line :: "go_error option \<Rightarrow> string \<Rightarrow> (string \<times> go_error option) \<times> string" where
  "read_line fin s =
     (if newline \<in> set s
      then (let line = takeWhile (\<lambda>c. c \<noteq> newline) s
            in (((if line \<noteq> [] \<and> last line = return_char then butlast line else line) @ [newline], None),
                tl (dropWhile (\<lambda>c. c \<noteq> newline) s)))
      else case fin of
          Some e \<Rightarrow> ((s, Some e), [])
        | None \<Rightarrow>
            (if s = [] then (([], Some io_eof), [])
             else ((if last s = return_char then butlast s else s, None), [])))"

definition record_or :: "go_error option \<Rightarrow> string list \<Rightarrow> string list result" where
  "record_or err fields = (case err of None \<Rightarrow> Inr fields | Some e \<Rightarrow> Inl e)"

lemma length_tl_dropWhile: "x \<in> set s \<Longrightarrow> length (tl (dropWhile (\<lambda>c. c \<noteq> x) s)) < length s"
  by (induction s) auto

lemma read_line_length: "read_line fin s = ((line, e), rest) \<Longrightarrow> length line + length rest \<le> length s"
proof -
  have split: "length (takeWhile (\<lambda>c. c \<noteq> newline) s) + length (dropWhile (\<lambda>c. c \<noteq> newline) s) = length s"
    by (metis length_append takeWhile_dropWhile_id)
  assume r: "read_line fin s = ((line, e), rest)"
  show ?thesis
  proof (cases "newline \<in> set s")
    case True
    then have "dropWhile (\<lambda>c. c \<noteq> newline) s \<noteq> []" by simp
    then show ?thesis using r True split
      by (cases "dropWhile (\<lambda>c. c \<noteq> newline) s") (auto simp: read_line_def Let_def split: if_splits)
  next
    case False
    then show ?thesis using r by (auto simp: read_line_def split: option.splits if_splits)
  qed
qed

lemma read_line_shorter: "read_line fin s = ((line, None), rest) \<Longrightarrow> length rest < length s"
  using length_tl_dropWhile [of newline s]
  by (auto simp: read_line_def Let_def split: if_splits option.splits)

lemma length_after: "x \<in> set s \<Longrightarrow> length (dropWhile (\<lambda>c. c \<noteq> x) s) - Suc n < length s"
  using length_dropWhile_le [of "\<lambda>c. c \<noteq> x" s] length_pos_if_in_set [of x s] by linarith

text \<open>
  \<open>readRecord\<close>: the fields of a line, a quoted one may go on over further lines. \<open>err\<close> is the
  error met while reading the line.
\<close>

function (sequential) csv_fields ::
    "go_error option \<Rightarrow> string \<Rightarrow> string \<Rightarrow> go_error option \<Rightarrow> string list \<Rightarrow> string list result \<times> string"
and csv_quoted ::
    "go_error option \<Rightarrow> string \<Rightarrow> string \<Rightarrow> go_error option \<Rightarrow> string \<Rightarrow> string list \<Rightarrow> string list result \<times> string" where
  "csv_fields fin line rest err acc =
     (if line \<noteq> [] \<and> hd line = quote then csv_quoted fin (tl line) rest err [] acc
      else let field = (if comma \<in> set line then takeWhile (\<lambda>c. c \<noteq> comma) line
                        else if line \<noteq> [] \<and> last line = newline then butlast line else line)
        in if quote \<in> set field then (Inl err_bare_quote, rest)
           else if comma \<in> set line
           then csv_fields fin (tl (dropWhile (\<lambda>c. c \<noteq> comma) line)) rest err (acc @ [field])
           else (record_or err (acc @ [field]), rest))"
| "csv_quoted fin line rest err buf acc =
     (if quote \<in> set line then
        (let field = buf @ takeWhile (\<lambda>c. c \<noteq> quote) line; after = tl (dropWhile (\<lambda>c. c \<noteq> quote) line) in
         if after \<noteq> [] \<and> hd after = quote then csv_quoted fin (tl after) rest err (field @ [quote]) acc
         else if after \<noteq> [] \<and> hd after = comma then csv_fields fin (tl after) rest err (acc @ [field])
         else if after = [] \<or> after = [newline] then (record_or err (acc @ [field]), rest)
         else (Inl err_quote, rest))
      else if line \<noteq> [] then
        (if err \<noteq> None then (record_or err acc, rest)
         else let line' = fst (fst (read_line fin rest)); err' = snd (fst (read_line fin rest))
              in csv_quoted fin line' (snd (read_line fin rest)) (if err' = Some io_eof then None else err') (buf @ line) acc)
      else if err = None then (Inl err_quote, rest)
      else (record_or err acc, rest))"
  by pat_completeness auto

termination
proof (relation "measure (\<lambda>p. case p of Inl (fin, line, rest, err, acc) \<Rightarrow> length line + length rest
    | Inr (fin, line, rest, err, buf, acc) \<Rightarrow> length line + length rest)", goal_cases)
  case (6 fin line rest err buf acc)
  have "length (fst (fst (read_line fin rest))) + length (snd (read_line fin rest)) \<le> length rest"
    by (rule read_line_length [of fin rest _ "snd (fst (read_line fin rest))"]) simp
  then show ?case using 6 by (cases line) auto
qed (auto simp: neq_Nil_conv length_after dest: length_tl_dropWhile)

text \<open>\<open>Read\<close>: the next line that is not empty.\<close>

function csv_read :: "go_error option \<Rightarrow> string \<Rightarrow> string list result \<times> string" where
  "csv_read fin s =
     (case read_line fin s of ((line, err), rest) \<Rightarrow>
       if err = None \<and> (line = [] \<or> line = [newline]) then csv_read fin rest
       else if err = Some io_eof then (Inl io_eof, rest)
       else csv_fields fin line rest err [])"
  by pat_completeness auto
termination
  by (relation "measure (\<lambda>(fin, s). length s)") (auto dest: read_line_shorter [OF sym])

declare csv_fields.simps [simp del] csv_quoted.simps [simp del] csv_read.simps [simp del]

text \<open>A record that was read has used up bytes.\<close>

lemma csv_rest_length:
  "length (snd (csv_fields fin line rest err acc)) \<le> length rest"
  "length (snd (csv_quoted fin line rest err buf acc)) \<le> length rest"
proof (induction fin line rest err acc and fin line rest err buf acc rule: csv_fields_csv_quoted.induct)
  case (1 fin line rest err acc)
  then show ?case by (subst csv_fields.simps) (simp add: Let_def)
next
  case (2 fin line rest err buf acc)
  have "length (snd (read_line fin rest)) \<le> length rest"
    using read_line_length [of fin rest "fst (fst (read_line fin rest))" "snd (fst (read_line fin rest))" "snd (read_line fin rest)"]
    by simp
  then have "length (snd (csv_quoted fin (fst (fst (read_line fin rest))) (snd (read_line fin rest))
      (if snd (fst (read_line fin rest)) = Some io_eof then None else snd (fst (read_line fin rest))) (buf @ line) acc))
      \<le> length rest" if "quote \<notin> set line" "line \<noteq> []" "err = None"
    using 2(3) that by (force intro: order_trans)
  then show ?case using 2(1,2) by (subst csv_quoted.simps) (auto simp: Let_def)
qed

text \<open>A record cut short by an error is not returned.\<close>

lemma csv_no_partial:
  "fst (csv_fields fin line rest err acc) = Inr fields \<Longrightarrow> err = None"
  "fst (csv_quoted fin line rest err buf acc) = Inr fields \<Longrightarrow> err = None"
proof (induction fin line rest err acc and fin line rest err buf acc rule: csv_fields_csv_quoted.induct)
  case (1 fin line rest err acc)
  then show ?case
    by (subst (asm) csv_fields.simps) (auto simp: Let_def record_or_def split: option.splits if_splits)
next
  case (2 fin line rest err buf acc)
  then show ?case
    by (subst (asm) csv_quoted.simps) (auto simp: Let_def record_or_def split: option.splits if_splits)
qed

lemma csv_read_shorter: "csv_read fin s = (Inr fields, rest) \<Longrightarrow> length rest < length s"
proof (induction fin s rule: csv_read.induct)
  case (1 fin s)
  obtain line err rest1 where r: "read_line fin s = ((line, err), rest1)" by (metis surj_pair)
  show ?case
  proof (cases err)
    case None
    note short = read_line_shorter [OF r [unfolded None]]
    show ?thesis
    proof (cases "line = [] \<or> line = [newline]")
      case True
      then have "csv_read fin rest1 = (Inr fields, rest)" using "1.prems" r None by (subst (asm) csv_read.simps) simp
      then show ?thesis using "1.IH" [OF r [symmetric] refl] None True short by simp
    next
      case False
      then have "csv_fields fin line rest1 None [] = (Inr fields, rest)"
        using "1.prems" r None by (subst (asm) csv_read.simps) simp
      then show ?thesis using csv_rest_length(1) [of fin line rest1 None "[]"] short by simp
    qed
  next
    case (Some e)
    then show ?thesis using "1.prems" r csv_no_partial(1) [of fin line rest1 "Some e" "[]" fields]
      by (subst (asm) csv_read.simps) (auto split: if_splits)
  qed
qed

section \<open>The round trip\<close>

fun csv_escape :: "string \<Rightarrow> string" where
  "csv_escape [] = []"
| "csv_escape (c # s) = (if c = quote then [quote, quote] else [c]) @ csv_escape s"

fun csv_line :: "string list \<Rightarrow> string" where
  "csv_line [] = [newline]"
| "csv_line [f] = [quote] @ csv_escape f @ [quote, newline]"
| "csv_line (f # g # fs) = [quote] @ csv_escape f @ [quote, comma] @ csv_line (g # fs)"

text \<open>The first line of a text without carriage returns, and what follows it.\<close>

definition line_of :: "string \<Rightarrow> string" where
  "line_of s = takeWhile (\<lambda>c. c \<noteq> newline) s @ (if newline \<in> set s then [newline] else [])"

definition rest_of :: "string \<Rightarrow> string" where
  "rest_of s = tl (dropWhile (\<lambda>c. c \<noteq> newline) s)"

lemma read_line_plain:
  assumes "return_char \<notin> set s" and "s \<noteq> []"
  shows "read_line None s = ((line_of s, None), rest_of s)"
proof -
  have last: "last t \<noteq> return_char" if "t \<noteq> []" "set t \<subseteq> set s" for t
    using that assms(1) by (metis last_in_set subsetD)
  have "set (takeWhile (\<lambda>c. c \<noteq> newline) s) \<subseteq> set s" by (auto dest: set_takeWhileD)
  note l = last [OF _ this] last [OF assms(2)]
  have tw: "takeWhile (\<lambda>c. c \<noteq> newline) s = s" "dropWhile (\<lambda>c. c \<noteq> newline) s = []" if "newline \<notin> set s"
    using that by (auto simp: takeWhile_eq_all_conv dropWhile_eq_Nil_conv)
  show ?thesis
  proof (cases "newline \<in> set s")
    case True
    then show ?thesis using l(1) by (auto simp: read_line_def line_of_def rest_of_def Let_def)
  next
    case False
    then show ?thesis using l(2) assms(2) unfolding read_line_def line_of_def rest_of_def tw [OF False] by simp
  qed
qed

lemma line_of_simps [simp]:
  "line_of [] = []" "line_of (c # s) = (if c = newline then [newline] else c # line_of s)"
  "rest_of [] = []" "rest_of (c # s) = (if c = newline then s else rest_of s)"
  by (auto simp: line_of_def rest_of_def)

lemma line_of_nonempty: "s \<noteq> [] \<Longrightarrow> line_of s \<noteq> []"
  by (cases s) auto

text \<open>Inside quotes one character after the other is taken over.\<close>

lemma quoted_char:
  assumes "c \<noteq> quote" and "line \<noteq> []"
  shows "csv_quoted None (c # line) rest None buf acc = csv_quoted None line rest None (buf @ [c]) acc"
proof (cases "quote \<in> set line")
  case True
  then show ?thesis using assms by (simp add: csv_quoted.simps [of None "c # line"] csv_quoted.simps [of None line])
next
  case False
  then show ?thesis using assms
    by (simp add: csv_quoted.simps [of None "c # line"] csv_quoted.simps [of None line] Let_def)
qed

lemma quoted_text:
  assumes "return_char \<notin> set f" and "return_char \<notin> set u"
  shows "csv_quoted None (line_of (csv_escape f @ quote # u)) (rest_of (csv_escape f @ quote # u)) None buf acc =
    csv_quoted None (line_of (quote # u)) (rest_of (quote # u)) None (buf @ f) acc"
  using assms
proof (induction f arbitrary: buf)
  case Nil
  then show ?case by simp
next
  case (Cons c f)
  let ?t = "csv_escape f @ quote # u"
  have t: "?t \<noteq> []" by simp
  have cr: "return_char \<notin> set (csv_escape f)" using Cons.prems(1) by (induction f) (auto split: if_splits)
  then have cr: "return_char \<notin> set ?t" using Cons.prems(2) by simp
  note IH = Cons.IH [of "buf @ [c]"]
  consider "c = quote" | "c = newline" | "c \<noteq> quote" "c \<noteq> newline" by blast
  then show ?case
  proof cases
    case 1
    then show ?thesis using IH Cons.prems by (simp add: csv_quoted.simps [of None "quote # quote # _"])
  next
    case 2
    have "csv_quoted None [newline] ?t None buf acc = csv_quoted None (line_of ?t) (rest_of ?t) None (buf @ [newline]) acc"
      using read_line_plain [OF cr t] by (simp add: csv_quoted.simps [of None "[newline]"])
    then show ?thesis using IH Cons.prems 2 by simp
  next
    case 3
    then show ?thesis using IH Cons.prems quoted_char [OF 3(1) line_of_nonempty [OF t]] by simp
  qed
qed

lemma fields_line:
  assumes "fs \<noteq> []" and "\<forall>f \<in> set fs. return_char \<notin> set f" and "return_char \<notin> set u"
  shows "csv_fields None (line_of (csv_line fs @ u)) (rest_of (csv_line fs @ u)) None acc = (Inr (acc @ fs), u)"
  using assms
proof (induction fs arbitrary: acc rule: csv_line.induct)
  case 1
  then show ?case by simp
next
  case (2 f)
  have "csv_fields None (line_of (csv_line [f] @ u)) (rest_of (csv_line [f] @ u)) None acc =
      csv_quoted None (line_of (csv_escape f @ quote # newline # u)) (rest_of (csv_escape f @ quote # newline # u)) None [] acc"
    by (simp add: csv_fields.simps)
  also have "\<dots> = csv_quoted None [quote, newline] u None f acc"
    using quoted_text [of f "newline # u" "[]" acc] 2 by simp
  also have "\<dots> = (Inr (acc @ [f]), u)"
    by (simp add: csv_quoted.simps record_or_def)
  finally show ?case .
next
  case (3 f g fs)
  let ?v = "csv_line (g # fs) @ u"
  have cr: "return_char \<notin> set (csv_escape h)" if "return_char \<notin> set h" for h
    using that by (induction h) (auto split: if_splits)
  have "return_char \<notin> set (csv_line gs)" if "\<forall>f \<in> set gs. return_char \<notin> set f" for gs
    using that by (induction gs rule: csv_line.induct) (auto simp: cr)
  then have v: "return_char \<notin> set ?v" using 3 by simp
  have "csv_fields None (line_of (csv_line (f # g # fs) @ u)) (rest_of (csv_line (f # g # fs) @ u)) None acc =
      csv_quoted None (line_of (csv_escape f @ quote # comma # ?v)) (rest_of (csv_escape f @ quote # comma # ?v)) None [] acc"
    by (simp add: csv_fields.simps)
  also have "\<dots> = csv_quoted None (quote # comma # line_of ?v) (rest_of ?v) None f acc"
    using quoted_text [of f "comma # ?v" "[]" acc] 3(3) v by simp
  also have "\<dots> = csv_fields None (line_of ?v) (rest_of ?v) None (acc @ [f])"
    by (simp add: csv_quoted.simps)
  also have "\<dots> = (Inr (acc @ f # g # fs), u)"
    using 3 by simp
  finally show ?case .
qed

text \<open>
  What is written with quoted fields is read back: the record has the fields, whatever
  commas, quotes and line breaks are in them, and the stream goes on after its line.
\<close>

theorem csv_round_trip:
  assumes "fs \<noteq> []" and "\<forall>f \<in> set fs. return_char \<notin> set f" and "return_char \<notin> set u"
  shows "csv_read None (csv_line fs @ u) = (Inr fs, u)"
proof -
  have esc: "return_char \<notin> set (csv_escape h)" if "return_char \<notin> set h" for h
    using that by (induction h) (auto split: if_splits)
  have "return_char \<notin> set (csv_line gs)" if "\<forall>f \<in> set gs. return_char \<notin> set f" for gs
    using that by (induction gs rule: csv_line.induct) (auto simp: esc)
  then have cr: "return_char \<notin> set (csv_line fs @ u)" using assms(2,3) by simp
  obtain t where t: "csv_line fs = quote # t" using assms(1) by (cases fs rule: csv_line.cases) auto
  then have "read_line None (csv_line fs @ u) = ((line_of (csv_line fs @ u), None), rest_of (csv_line fs @ u))"
    using read_line_plain [OF cr] by simp
  moreover have "line_of (csv_line fs @ u) \<noteq> []" "line_of (csv_line fs @ u) \<noteq> [newline]" by (simp_all add: t)
  ultimately show ?thesis
    using fields_line [OF assms, of "[]"] by (subst csv_read.simps) simp
qed

theorem csv_round_trip_witness:
  "csv_read None (csv_line [''a,b'', [quote, newline], []] @ ''x'') = (Inr [''a,b'', [quote, newline], []], ''x'')"
  by (rule csv_round_trip) simp_all

text \<open>Lines of plain fields, without quotes.\<close>

definition plain_field :: "string \<Rightarrow> bool" where
  "plain_field f \<longleftrightarrow> quote \<notin> set f \<and> comma \<notin> set f \<and> newline \<notin> set f \<and> return_char \<notin> set f"

fun plain_line :: "string list \<Rightarrow> string" where
  "plain_line [] = [newline]"
| "plain_line [f] = f @ [newline]"
| "plain_line (f # g # fs) = f @ [comma] @ plain_line (g # fs)"

lemma line_of_append: "newline \<notin> set s \<Longrightarrow> line_of (s @ t) = s @ line_of t" "newline \<notin> set s \<Longrightarrow> rest_of (s @ t) = rest_of t"
  by (induction s) auto

lemma takeWhile_stop:
  assumes "x \<notin> set s"
  shows "takeWhile (\<lambda>c. c \<noteq> x) (s @ x # t) = s" "dropWhile (\<lambda>c. c \<noteq> x) (s @ x # t) = x # t"
  using assms by (induction s) auto

lemma plain_fields:
  assumes "fs \<noteq> []" and "\<forall>f \<in> set fs. plain_field f"
  shows "csv_fields None (line_of (plain_line fs @ u)) (rest_of (plain_line fs @ u)) None acc = (Inr (acc @ fs), u)"
  using assms
proof (induction fs arbitrary: acc rule: plain_line.induct)
  case 1
  then show ?case by simp
next
  case (2 f)
  then have f: "plain_field f" by simp
  have "f = [] \<or> hd f \<noteq> quote" using f by (cases f) (auto simp: plain_field_def)
  then have "hd (f @ [newline]) \<noteq> quote" by (cases f) auto
  moreover have "line_of (plain_line [f] @ u) = f @ [newline]" "rest_of (plain_line [f] @ u) = u"
    using f by (simp_all add: line_of_append plain_field_def)
  ultimately show ?case
    using f by (subst csv_fields.simps) (simp add: plain_field_def record_or_def Let_def)
next
  case (3 f g fs)
  let ?v = "plain_line (g # fs) @ u"
  have f: "plain_field f" using 3(3) by simp
  have lines: "line_of (plain_line (f # g # fs) @ u) = f @ comma # line_of ?v"
    "rest_of (plain_line (f # g # fs) @ u) = rest_of ?v"
    using f by (simp_all add: line_of_append plain_field_def)
  have "f = [] \<or> hd f \<noteq> quote" using f by (cases f) (auto simp: plain_field_def)
  then have "hd (f @ comma # line_of ?v) \<noteq> quote" by (cases f) auto
  then have "csv_fields None (f @ comma # line_of ?v) (rest_of ?v) None acc =
      csv_fields None (line_of ?v) (rest_of ?v) None (acc @ [f])"
    using f takeWhile_stop [of comma f] by (subst csv_fields.simps) (simp add: plain_field_def Let_def)
  then show ?case unfolding lines using 3 by simp
qed

lemma csv_read_plain:
  assumes "fs \<noteq> []" and "fs \<noteq> [[]]" and "\<forall>f \<in> set fs. plain_field f" and "return_char \<notin> set u"
  shows "csv_read None (plain_line fs @ u) = (Inr fs, u)"
proof -
  have cr: "return_char \<notin> set (plain_line fs @ u)"
    using assms(3,4) by (induction fs rule: plain_line.induct) (auto simp: plain_field_def)
  have ne: "plain_line fs \<noteq> []" by (cases fs rule: plain_line.cases) auto
  then have "read_line None (plain_line fs @ u) = ((line_of (plain_line fs @ u), None), rest_of (plain_line fs @ u))"
    using read_line_plain [OF cr] by simp
  moreover have "line_of (plain_line fs @ u) \<noteq> []" using line_of_nonempty ne by simp
  moreover have "line_of (plain_line fs @ u) \<noteq> [newline]"
  proof
    assume l: "line_of (plain_line fs @ u) = [newline]"
    obtain c t where t: "plain_line fs = c # t" "c \<noteq> newline"
    proof (cases fs rule: plain_line.cases)
      case (2 f)
      then show ?thesis using assms(2,3) that by (cases f) (auto simp: plain_field_def)
    next
      case (3 f g gs)
      then show ?thesis using assms(3) that by (cases f) (auto simp: plain_field_def)
    qed (use assms(1) in simp)
    then show False using l by simp
  qed
  ultimately show ?thesis
    using plain_fields [OF assms(1,3), of u "[]"] by (subst csv_read.simps) simp
qed

end
