(* ===== verification/Static_Parse.thy ===== *)
theory Static_Parse
  imports Csv Gtfs_Time Domain_Types
begin

text \<open>
  \<open>internal/gtfsstatic/parse.go\<close>: a static feed read from its zip and streamed into a schedule
  writer. \<open>archive/zip\<close> is its outcome: the archive cannot be opened, or is a list of entries,
  each of which cannot be opened or has contents that end with the file or with an error (a
  bad checksum). \<open>strconv.ParseFloat\<close> is the argument \<open>pf\<close>.
\<close>

section \<open>The archive\<close>

record zip_entry =
  ze_name :: string
  ze_is_dir :: bool
  ze_open :: "(string \<times> go_error option) result"

type_synonym zip_file = "zip_entry list result"

definition required_files :: "string list" where
  "required_files = [''agency.txt'', ''stops.txt'', ''routes.txt'', ''trips.txt'', ''stop_times.txt'']"

text \<open>\<open>path.Base\<close>.\<close>

definition path_base :: "string \<Rightarrow> string" where
  "path_base p =
     (let q = rev (dropWhile (\<lambda>c. c = CHR ''/'') (rev p)) in
      if p = [] then ''.'' else if q = [] then ''/'' else last_part (CHR ''/'') q)"

fun zip_members :: "zip_entry list \<Rightarrow> (string \<times> zip_entry) list \<Rightarrow> (string \<times> zip_entry) list" where
  "zip_members [] files = files"
| "zip_members (f # fs) files =
     (if ze_is_dir f then zip_members fs files
      else let base = path_base (ze_name f)
        in if (case map_of files base of None \<Rightarrow> True
               | Some prev \<Rightarrow> ze_name prev \<noteq> base \<and> ze_name f = base)
           then zip_members fs (al_put base f files) else zip_members fs files)"

section \<open>Tables\<close>

record table =
  tb_name :: string
  tb_rest :: string
  tb_end :: "go_error option"
  tb_cols :: "(string \<times> nat) list"
  tb_row :: int

definition bom :: string where
  "bom = [CHR 0xEF, CHR 0xBB, CHR 0xBF]"

definition trim_prefix :: "string \<Rightarrow> string \<Rightarrow> string" where
  "trim_prefix s p = (if has_prefix s p then drop (length p) s else s)"

text \<open>The positions of the columns: of two with one name the last counts.\<close>

definition header_cols :: "string list \<Rightarrow> (string \<times> nat) list" where
  "header_cols header =
     (let h = (case header of [] \<Rightarrow> [] | x # xs \<Rightarrow> trim_prefix x bom # xs)
      in rev (zip (map trim_space h) [0..<length h]))"

definition open_table :: "zip_entry \<Rightarrow> table result" where
  "open_table f =
     (case ze_open f of
        Inl e \<Rightarrow> Inl (Wrapped (''gtfsstatic: open '' @ ze_name f) e)
      | Inr (content, fin) \<Rightarrow>
          (case csv_read fin content of
             (Inl e, _) \<Rightarrow> Inl (Wrapped (''gtfsstatic: '' @ path_base (ze_name f) @ '': read header'') e)
           | (Inr header, rest) \<Rightarrow>
               Inr \<lparr>tb_name = path_base (ze_name f), tb_rest = rest, tb_end = fin, tb_cols = header_cols header,
                    tb_row = 0\<rparr>))"

definition next_row :: "table \<Rightarrow> string list result \<times> table" where
  "next_row t =
     (case csv_read (tb_end t) (tb_rest t) of
        (Inl e, rest) \<Rightarrow>
          (if errors_is e Eof then Inl io_eof else Inl (Wrapped (''gtfsstatic: '' @ tb_name t) e), t\<lparr>tb_rest := rest\<rparr>)
      | (Inr rec, rest) \<Rightarrow> (Inr rec, t\<lparr>tb_rest := rest, tb_row := tb_row t + 1\<rparr>))"

fun require :: "table \<Rightarrow> string list \<Rightarrow> go_error option" where
  "require t [] = None"
| "require t (c # cs) =
     (case map_of (tb_cols t) c of
        None \<Rightarrow> Some (Message (''gtfsstatic: '' @ tb_name t @ '': missing required column '' @ c))
      | Some _ \<Rightarrow> require t cs)"

text \<open>A cell is \<open>""\<close> when the column or the cell is absent.\<close>

definition str :: "table \<Rightarrow> string list \<Rightarrow> string \<Rightarrow> string" where
  "str t rec col =
     (case map_of (tb_cols t) col of
        None \<Rightarrow> []
      | Some i \<Rightarrow> if i \<ge> length rec then [] else trim_space (rec ! i))"

definition bad_cell :: "table \<Rightarrow> string \<Rightarrow> string \<Rightarrow> go_error \<Rightarrow> go_error" where
  "bad_cell t col s e =
     Wrapped (''gtfsstatic: '' @ tb_name t @ '' row '' @ fmt_d (tb_row t) @ '': bad '' @ col @ '' '' @ s) e"

definition atoi_error :: go_error where
  "atoi_error = Message ''strconv.Atoi: invalid syntax or value out of range''"

definition int_or :: "table \<Rightarrow> string list \<Rightarrow> string \<Rightarrow> int \<Rightarrow> int result" where
  "int_or t rec col def =
     (let s = str t rec col in
      if s = [] then Inr def
      else case atoi s of None \<Rightarrow> Inl (bad_cell t col s atoi_error) | Some n \<Rightarrow> Inr n)"

type_synonym float_parser = "string \<Rightarrow> 64 word result"

definition float_or :: "float_parser \<Rightarrow> table \<Rightarrow> string list \<Rightarrow> string \<Rightarrow> 64 word \<Rightarrow> 64 word result" where
  "float_or pf t rec col def =
     (let s = str t rec col in
      if s = [] then Inr def else case pf s of Inl e \<Rightarrow> Inl (bad_cell t col s e) | Inr v \<Rightarrow> Inr v)"

definition gtfs_time :: "table \<Rightarrow> string list \<Rightarrow> string \<Rightarrow> int result" where
  "gtfs_time t rec col =
     (case parse_gtfs_time (str t rec col) of
        Inl e \<Rightarrow> Inl (Wrapped (''gtfsstatic: '' @ tb_name t @ '' row '' @ fmt_d (tb_row t) @ '': '' @ col) e)
      | Inr secs \<Rightarrow> Inr secs)"

section \<open>The single values\<close>

definition read_agency_tz :: "zip_entry \<Rightarrow> string result" where
  "read_agency_tz f =
     (case open_table f of
        Inl e \<Rightarrow> Inl e
      | Inr t \<Rightarrow>
          (case require t [''agency_timezone''] of
             Some e \<Rightarrow> Inl e
           | None \<Rightarrow>
               (case next_row t of
                  (Inl e, _) \<Rightarrow>
                    if errors_is e Eof then Inl (Message ''gtfsstatic: agency.txt: no agency rows'') else Inl e
                | (Inr rec, t') \<Rightarrow>
                    (let tz = str t' rec ''agency_timezone'' in
                     if tz = [] then Inl (Message ''gtfsstatic: agency.txt: agency_timezone is empty'') else Inr tz))))"

definition read_feed_version :: "zip_entry option \<Rightarrow> string result" where
  "read_feed_version file =
     (case file of
        None \<Rightarrow> Inr []
      | Some f \<Rightarrow>
          (case open_table f of
             Inl e \<Rightarrow> Inl e
           | Inr t \<Rightarrow>
               (case next_row t of
                  (Inl e, _) \<Rightarrow> if errors_is e Eof then Inr [] else Inl e
                | (Inr rec, t') \<Rightarrow> Inr (str t' rec ''feed_version''))))"

section \<open>The rows\<close>

text \<open>What the loop of each file makes of a row: a call of the writer, or an error.\<close>

definition route_call :: "table \<Rightarrow> string list \<Rightarrow> load_call result" where
  "route_call t rec =
     (case int_or t rec ''route_type'' 0 of Inl e \<Rightarrow> Inl e | Inr route_type \<Rightarrow>
      case int_or t rec ''route_sort_order'' 0 of Inl e \<Rightarrow> Inl e | Inr sort_order \<Rightarrow>
        Inr (Call_route
          \<lparr>rou_route_id = str t rec ''route_id'', rou_short_name = str t rec ''route_short_name'',
           rou_long_name = str t rec ''route_long_name'', rou_route_type = route_type,
           rou_color = str t rec ''route_color'', rou_text_color = str t rec ''route_text_color'',
           rou_sort_order = sort_order\<rparr>))"

definition stop_call :: "float_parser \<Rightarrow> table \<Rightarrow> string list \<Rightarrow> load_call result" where
  "stop_call pf t rec =
     (case float_or pf t rec ''stop_lat'' 0 of Inl e \<Rightarrow> Inl e | Inr lat \<Rightarrow>
      case float_or pf t rec ''stop_lon'' 0 of Inl e \<Rightarrow> Inl e | Inr lon \<Rightarrow>
      case int_or t rec ''location_type'' 0 of Inl e \<Rightarrow> Inl e | Inr loc_type \<Rightarrow>
        Inr (Call_stop
          \<lparr>sto_stop_id = str t rec ''stop_id'', sto_name = str t rec ''stop_name'', sto_lat = lat, sto_lon = lon,
           sto_parent_station = str t rec ''parent_station'', sto_location_type = loc_type,
           sto_platform_code = str t rec ''platform_code''\<rparr>))"

definition trip_call :: "table \<Rightarrow> string list \<Rightarrow> load_call result" where
  "trip_call t rec =
     (case int_or t rec ''direction_id'' (- 1) of Inl e \<Rightarrow> Inl e | Inr dir \<Rightarrow>
        Inr (Call_trip
          \<lparr>tri_trip_id = str t rec ''trip_id'', tri_route_id = str t rec ''route_id'',
           tri_service_id = str t rec ''service_id'', tri_headsign = str t rec ''trip_headsign'',
           tri_direction_id = wrap16 dir, tri_shape_id = str t rec ''shape_id''\<rparr>))"

definition weekday_cols :: "string list" where
  "weekday_cols = [''monday'', ''tuesday'', ''wednesday'', ''thursday'', ''friday'', ''saturday'', ''sunday'']"

definition calendar_call :: "table \<Rightarrow> string list \<Rightarrow> load_call result" where
  "calendar_call t rec =
     Inr (Call_calendar
       \<lparr>cal_service_id = str t rec ''service_id'', cal_weekdays = map (\<lambda>c. str t rec c = ''1'') weekday_cols,
        cal_start_date = str t rec ''start_date'', cal_end_date = str t rec ''end_date''\<rparr>)"

definition calendar_date_call :: "table \<Rightarrow> string list \<Rightarrow> load_call result" where
  "calendar_date_call t rec =
     (case int_or t rec ''exception_type'' 0 of Inl e \<Rightarrow> Inl e | Inr exc \<Rightarrow>
        Inr (Call_calendar_date
          \<lparr>cad_service_id = str t rec ''service_id'', cad_date = str t rec ''date'', cad_exception_type = exc\<rparr>))"

definition stop_time_call :: "table \<Rightarrow> string list \<Rightarrow> load_call result" where
  "stop_time_call t rec =
     (let seq_str = str t rec ''stop_sequence''; at = ''gtfsstatic: stop_times.txt row '' @ fmt_d (tb_row t) in
      if seq_str = [] then Inl (Message (at @ '': empty stop_sequence''))
      else case atoi seq_str of
          None \<Rightarrow> Inl (Wrapped (at @ '': bad stop_sequence '' @ seq_str) atoi_error)
        | Some seq \<Rightarrow>
            (case gtfs_time t rec ''arrival_time'' of Inl e \<Rightarrow> Inl e | Inr arr \<Rightarrow>
             case gtfs_time t rec ''departure_time'' of Inl e \<Rightarrow> Inl e | Inr dep \<Rightarrow>
               Inr (Call_stop_time
                 \<lparr>stt_trip_id = str t rec ''trip_id'', stt_stop_sequence = seq, stt_stop_id = str t rec ''stop_id'',
                  stt_arrival_secs = arr, stt_departure_secs = dep\<rparr>)))"

text \<open>The loop over the rows.\<close>

lemma next_row_shorter: "next_row t = (Inr rec, t') \<Longrightarrow> length (tb_rest t') < length (tb_rest t)"
  by (auto simp: next_row_def dest: csv_read_shorter split: prod.splits sum.splits if_splits)

function parse_rows ::
    "(table \<Rightarrow> string list \<Rightarrow> load_call result) \<Rightarrow> string \<Rightarrow> 'l schedule_writer \<Rightarrow> table \<Rightarrow> 'l \<Rightarrow> go_error option \<times> 'l" where
  "parse_rows row file w t l =
     (case next_row t of
        (Inl e, t') \<Rightarrow> if errors_is e Eof then (None, l) else (Some e, l)
      | (Inr rec, t') \<Rightarrow>
          (case row t' rec of
             Inl e \<Rightarrow> (Some e, l)
           | Inr call \<Rightarrow>
               (case writer_call w call l of
                  (Some e, l') \<Rightarrow> (Some (Wrapped (''gtfsstatic: '' @ file @ '' row '' @ fmt_d (tb_row t')) e), l')
                | (None, l') \<Rightarrow> parse_rows row file w t' l')))"
  by pat_completeness auto
termination
  by (relation "measure (\<lambda>(row, file, w, t, l). length (tb_rest t))") (auto dest: next_row_shorter [OF sym])

declare parse_rows.simps [simp del]

definition parse_table ::
    "string list \<Rightarrow> (table \<Rightarrow> string list \<Rightarrow> load_call result) \<Rightarrow> string \<Rightarrow> zip_entry \<Rightarrow> 'l schedule_writer \<Rightarrow> 'l \<Rightarrow>
     go_error option \<times> 'l" where
  "parse_table cols row file f w l =
     (case open_table f of
        Inl e \<Rightarrow> (Some e, l)
      | Inr t \<Rightarrow> (case require t cols of Some e \<Rightarrow> (Some e, l) | None \<Rightarrow> parse_rows row file w t l))"

definition parse_routes :: "zip_entry \<Rightarrow> 'l schedule_writer \<Rightarrow> 'l \<Rightarrow> go_error option \<times> 'l" where
  "parse_routes = parse_table [''route_id''] route_call ''routes.txt''"

definition parse_stops :: "float_parser \<Rightarrow> zip_entry \<Rightarrow> 'l schedule_writer \<Rightarrow> 'l \<Rightarrow> go_error option \<times> 'l" where
  "parse_stops pf = parse_table [''stop_id''] (stop_call pf) ''stops.txt''"

definition parse_trips :: "zip_entry \<Rightarrow> 'l schedule_writer \<Rightarrow> 'l \<Rightarrow> go_error option \<times> 'l" where
  "parse_trips = parse_table [''trip_id'', ''route_id'', ''service_id''] trip_call ''trips.txt''"

definition parse_calendar :: "zip_entry \<Rightarrow> 'l schedule_writer \<Rightarrow> 'l \<Rightarrow> go_error option \<times> 'l" where
  "parse_calendar = parse_table [''service_id''] calendar_call ''calendar.txt''"

definition parse_calendar_dates :: "zip_entry \<Rightarrow> 'l schedule_writer \<Rightarrow> 'l \<Rightarrow> go_error option \<times> 'l" where
  "parse_calendar_dates = parse_table [''service_id'', ''date''] calendar_date_call ''calendar_dates.txt''"

definition parse_stop_times :: "zip_entry \<Rightarrow> 'l schedule_writer \<Rightarrow> 'l \<Rightarrow> go_error option \<times> 'l" where
  "parse_stop_times = parse_table [''trip_id'', ''stop_id'', ''stop_sequence''] stop_time_call ''stop_times.txt''"

section \<open>The feed\<close>

fun missing_file :: "(string \<times> zip_entry) list \<Rightarrow> string list \<Rightarrow> string option" where
  "missing_file files [] = None"
| "missing_file files (name # names) = (if map_of files name = None then Some name else missing_file files names)"

text \<open>The optional files are skipped when they are absent; the first error ends the parse.\<close>

definition or_skip ::
    "(zip_entry \<Rightarrow> 'l schedule_writer \<Rightarrow> 'l \<Rightarrow> go_error option \<times> 'l) \<Rightarrow> zip_entry option \<Rightarrow> 'l schedule_writer \<Rightarrow> 'l \<Rightarrow>
     go_error option \<times> 'l" where
  "or_skip parse file w l = (case file of None \<Rightarrow> (None, l) | Some f \<Rightarrow> parse f w l)"

fun in_order :: "('l \<Rightarrow> go_error option \<times> 'l) list \<Rightarrow> 'l \<Rightarrow> go_error option \<times> 'l" where
  "in_order [] l = (None, l)"
| "in_order (p # ps) l = (case p l of (Some e, l') \<Rightarrow> (Some e, l') | (None, l') \<Rightarrow> in_order ps l')"

definition parse_zip :: "float_parser \<Rightarrow> string \<Rightarrow> zip_file \<Rightarrow> 'l schedule_writer \<Rightarrow> 'l \<Rightarrow> go_error option \<times> 'l" where
  "parse_zip pf zip_path archive w l =
     (case archive of
        Inl e \<Rightarrow> (Some (Wrapped (''gtfsstatic: open '' @ zip_path) e), l)
      | Inr entries \<Rightarrow>
          (let files = zip_members entries []; file = map_of files; need = (\<lambda>n. the (file n)) in
           case missing_file files required_files of
             Some name \<Rightarrow> (Some (Message (''gtfsstatic: required file '' @ name @ '' missing from '' @ zip_path)), l)
           | None \<Rightarrow>
               (case read_agency_tz (need ''agency.txt'') of
                  Inl e \<Rightarrow> (Some e, l)
                | Inr tz \<Rightarrow>
                    (case read_feed_version (file ''feed_info.txt'') of
                       Inl e \<Rightarrow> (Some e, l)
                     | Inr version \<Rightarrow>
                         (case sw_meta w version tz l of
                            (Some e, l') \<Rightarrow> (Some (Wrapped ''gtfsstatic: meta'' e), l')
                          | (None, l') \<Rightarrow>
                              in_order
                                [parse_routes (need ''routes.txt'') w, parse_stops pf (need ''stops.txt'') w,
                                 parse_trips (need ''trips.txt'') w, or_skip parse_calendar (file ''calendar.txt'') w,
                                 or_skip parse_calendar_dates (file ''calendar_dates.txt'') w,
                                 parse_stop_times (need ''stop_times.txt'') w] l')))))"

section \<open>What a feed says\<close>

text \<open>All records of a stream, and the error it ends with.\<close>

function all_records :: "go_error option \<Rightarrow> string \<Rightarrow> string list list \<times> go_error" where
  "all_records fin s =
     (case csv_read fin s of
        (Inl e, _) \<Rightarrow> ([], e)
      | (Inr rec, rest) \<Rightarrow> (case all_records fin rest of (recs, e) \<Rightarrow> (rec # recs, e)))"
  by pat_completeness auto
termination
  by (relation "measure (\<lambda>(fin, s). length s)") (auto dest: csv_read_shorter [OF sym])

declare all_records.simps [simp del]

text \<open>
  The calls of a file with the messages that a refused call is reported with, up to the first
  row that is not in order, and the error that ends the file.
\<close>

type_synonym plan = "(string \<times> load_call) list \<times> go_error option"

fun plan_rows :: "(table \<Rightarrow> string list \<Rightarrow> load_call result) \<Rightarrow> string \<Rightarrow> table \<Rightarrow> int \<Rightarrow> string list list \<Rightarrow> go_error \<Rightarrow> plan" where
  "plan_rows row file t n [] e =
     ([], if errors_is e Eof then None else Some (Wrapped (''gtfsstatic: '' @ tb_name t) e))"
| "plan_rows row file t n (rec # recs) e =
     (case row (t\<lparr>tb_row := n\<rparr>) rec of
        Inl x \<Rightarrow> ([], Some x)
      | Inr c \<Rightarrow>
          (case plan_rows row file t (n + 1) recs e of
             (cs, x) \<Rightarrow> ((''gtfsstatic: '' @ file @ '' row '' @ fmt_d n, c) # cs, x)))"

definition plan_table :: "string list \<Rightarrow> (table \<Rightarrow> string list \<Rightarrow> load_call result) \<Rightarrow> string \<Rightarrow> zip_entry \<Rightarrow> plan" where
  "plan_table cols row file f =
     (case open_table f of
        Inl e \<Rightarrow> ([], Some e)
      | Inr t \<Rightarrow>
          (case require t cols of
             Some e \<Rightarrow> ([], Some e)
           | None \<Rightarrow> (case all_records (tb_end t) (tb_rest t) of (recs, e) \<Rightarrow> plan_rows row file t 1 recs e)))"

fun plan_seq :: "plan list \<Rightarrow> plan" where
  "plan_seq [] = ([], None)"
| "plan_seq ((cs, Some e) # ps) = (cs, Some e)"
| "plan_seq ((cs, None) # ps) = (case plan_seq ps of (ds, e) \<Rightarrow> (cs @ ds, e))"

definition plan_optional :: "(zip_entry \<Rightarrow> plan) \<Rightarrow> zip_entry option \<Rightarrow> plan" where
  "plan_optional plan file = (case file of None \<Rightarrow> ([], None) | Some f \<Rightarrow> plan f)"

definition feed_plan :: "float_parser \<Rightarrow> string \<Rightarrow> zip_file \<Rightarrow> plan" where
  "feed_plan pf zip_path archive =
     (case archive of
        Inl e \<Rightarrow> ([], Some (Wrapped (''gtfsstatic: open '' @ zip_path) e))
      | Inr entries \<Rightarrow>
          (let file = map_of (zip_members entries []); need = (\<lambda>n. the (file n)) in
           case missing_file (zip_members entries []) required_files of
             Some name \<Rightarrow> ([], Some (Message (''gtfsstatic: required file '' @ name @ '' missing from '' @ zip_path)))
           | None \<Rightarrow>
               (case (read_agency_tz (need ''agency.txt''), read_feed_version (file ''feed_info.txt'')) of
                  (Inl e, _) \<Rightarrow> ([], Some e)
                | (Inr tz, Inl e) \<Rightarrow> ([], Some e)
                | (Inr tz, Inr version) \<Rightarrow>
                    plan_seq
                      [([(''gtfsstatic: meta'', Call_meta version tz)], None),
                       plan_table [''route_id''] route_call ''routes.txt'' (need ''routes.txt''),
                       plan_table [''stop_id''] (stop_call pf) ''stops.txt'' (need ''stops.txt''),
                       plan_table [''trip_id'', ''route_id'', ''service_id''] trip_call ''trips.txt'' (need ''trips.txt''),
                       plan_optional (plan_table [''service_id''] calendar_call ''calendar.txt'') (file ''calendar.txt''),
                       plan_optional (plan_table [''service_id'', ''date''] calendar_date_call ''calendar_dates.txt'')
                         (file ''calendar_dates.txt''),
                       plan_table [''trip_id'', ''stop_id'', ''stop_sequence''] stop_time_call ''stop_times.txt''
                         (need ''stop_times.txt'')])))"

text \<open>A plan carried out: the calls in order, until one is refused.\<close>

fun run_plan :: "'l schedule_writer \<Rightarrow> plan \<Rightarrow> 'l \<Rightarrow> go_error option \<times> 'l" where
  "run_plan w ([], e) l = (e, l)"
| "run_plan w ((msg, c) # cs, e) l =
     (case writer_call w c l of
        (Some x, l') \<Rightarrow> (Some (Wrapped msg x), l')
      | (None, l') \<Rightarrow> run_plan w (cs, e) l')"

section \<open>The streaming parser carries out the plan\<close>

lemma run_plan_append:
  "run_plan w (cs @ ds, e) l = (case run_plan w (cs, None) l of (Some x, l') \<Rightarrow> (Some x, l') | (None, l') \<Rightarrow> run_plan w (ds, e) l')"
  by (induction w "(cs, e)" l arbitrary: cs rule: run_plan.induct) (auto split: prod.splits option.splits)

lemma run_plan_seq: "run_plan w (plan_seq ps) l = in_order (map (run_plan w) ps) l"
proof (induction ps arbitrary: l rule: plan_seq.induct)
  case 1
  then show ?case by simp
next
  case (2 cs e ps)
  have "fst (run_plan w (cs, Some e) l) \<noteq> None"
    by (induction cs arbitrary: l) (auto split: prod.splits option.splits)
  then show ?case by (auto split: prod.splits option.splits)
next
  case (3 cs ps)
  then show ?case by (auto simp: run_plan_append split: prod.splits option.splits)
qed

text \<open>The row functions read the columns and the number of the row only.\<close>

definition row_only :: "(table \<Rightarrow> string list \<Rightarrow> load_call result) \<Rightarrow> bool" where
  "row_only row \<longleftrightarrow> (\<forall>t s rec. row (t\<lparr>tb_rest := s\<rparr>) rec = row t rec)"

lemma str_rest [simp]: "str (t\<lparr>tb_rest := s\<rparr>) rec col = str t rec col"
  by (simp add: str_def)

lemma cell_rest [simp]:
  "int_or (t\<lparr>tb_rest := s\<rparr>) rec col n = int_or t rec col n"
  "float_or pf (t\<lparr>tb_rest := s\<rparr>) rec col x = float_or pf t rec col x"
  "gtfs_time (t\<lparr>tb_rest := s\<rparr>) rec col = gtfs_time t rec col"
  by (simp_all add: int_or_def float_or_def gtfs_time_def bad_cell_def Let_def cong: sum.case_cong option.case_cong if_cong)

lemma rows_only [simp]:
  "row_only route_call" "row_only (stop_call pf)" "row_only trip_call" "row_only calendar_call"
  "row_only calendar_date_call" "row_only stop_time_call"
  by (simp_all add: row_only_def route_call_def stop_call_def trip_call_def calendar_call_def
      calendar_date_call_def stop_time_call_def Let_def cong: sum.case_cong option.case_cong if_cong map_cong)

lemma row_onlyD: "row_only row \<Longrightarrow> row (t\<lparr>tb_rest := s, tb_row := n\<rparr>) rec = row (t\<lparr>tb_row := n\<rparr>) rec"
proof -
  assume "row_only row"
  then have "row ((t\<lparr>tb_row := n\<rparr>)\<lparr>tb_rest := s\<rparr>) rec = row (t\<lparr>tb_row := n\<rparr>) rec"
    unfolding row_only_def by metis
  moreover have "t\<lparr>tb_rest := s, tb_row := n\<rparr> = (t\<lparr>tb_row := n\<rparr>)\<lparr>tb_rest := s\<rparr>" by simp
  ultimately show ?thesis by (simp only:)
qed

lemma plan_rows_rest:
  assumes "row_only row"
  shows "plan_rows row file (t\<lparr>tb_rest := s, tb_row := m\<rparr>) n recs e = plan_rows row file t n recs e"
proof -
  note row_onlyD [OF assms]
  then show ?thesis by (induction recs arbitrary: n) (simp_all cong: sum.case_cong)
qed

lemma parse_rows_plan:
  assumes "row_only row"
  shows "parse_rows row file w t l =
    (case all_records (tb_end t) (tb_rest t) of (recs, e) \<Rightarrow> run_plan w (plan_rows row file t (tb_row t + 1) recs e) l)"
  using assms
proof (induction "row" "file" w t l rule: parse_rows.induct)
  case (1 row fname w t l)
  obtain r rest where read: "csv_read (tb_end t) (tb_rest t) = (r, rest)" by (metis surj_pair)
  show ?case
  proof (cases r)
    case (Inl e)
    then show ?thesis using read
      by (simp add: parse_rows.simps [of row] all_records.simps [of "tb_end t"] next_row_def)
  next
    case (Inr rec)
    let ?t = "t\<lparr>tb_rest := rest, tb_row := tb_row t + 1\<rparr>"
    have nx: "next_row t = (Inr rec, ?t)" using read Inr by (simp add: next_row_def)
    obtain recs e where recs: "all_records (tb_end t) rest = (recs, e)" by (metis surj_pair)
    have all: "all_records (tb_end t) (tb_rest t) = (rec # recs, e)"
      using read Inr recs by (simp add: all_records.simps [of "tb_end t" "tb_rest t"])
    have eq: "row (t\<lparr>tb_row := tb_row t + 1\<rparr>) rec = row ?t rec" using row_onlyD [OF "1.prems"] by (simp only:)
    show ?thesis
    proof (cases "row ?t rec")
      case (Inl x)
      then show ?thesis using nx all eq by (simp add: parse_rows.simps [of row])
    next
      case c: (Inr call)
      obtain we l' where wc: "writer_call w call l = (we, l')" by (metis surj_pair)
      obtain cs x where plan: "plan_rows row fname t (tb_row t + 2) recs e = (cs, x)" by (metis surj_pair)
      have plan': "plan_rows row fname ?t (tb_row t + 2) recs e = (cs, x)"
        using plan_rows_rest [OF "1.prems"] plan by simp
      show ?thesis
      proof (cases we)
        case None
        from "1.IH" [OF nx [symmetric] refl c wc [symmetric] None "1.prems"]
        show ?thesis using nx all eq c wc None recs plan plan'
          by (simp add: parse_rows.simps [of row fname w t] add.assoc)
      next
        case (Some y)
        then show ?thesis using nx all eq c wc plan by (simp add: parse_rows.simps [of row] add.assoc)
      qed
    qed
  qed
qed

lemma parse_table_plan:
  "row_only row \<Longrightarrow> parse_table cols row file f w l = run_plan w (plan_table cols row file f) l"
  by (auto simp: parse_table_def plan_table_def open_table_def parse_rows_plan split: sum.splits option.splits prod.splits)

lemma parse_zip_steps:
  "parse_zip pf zip_path archive w l = run_plan w (feed_plan pf zip_path archive) l"
proof -
  have opt: "or_skip (parse_table cols row fn) f w l' = run_plan w (plan_optional (plan_table cols row fn) f) l'"
    if "row_only row" for cols row fn f l'
    using that by (simp add: or_skip_def plan_optional_def parse_table_plan split: option.split)
  have seq: "run_plan w (plan_seq (([(m, c)], None) # ps)) l =
      (case writer_call w c l of (Some e, l') \<Rightarrow> (Some (Wrapped m e), l') | (None, l') \<Rightarrow> in_order (map (run_plan w) ps) l')" for m c ps
    by (auto simp: run_plan_seq [symmetric] split: prod.split option.split)
  show ?thesis
  proof (cases archive)
    case (Inl e)
    then show ?thesis by (simp add: parse_zip_def feed_plan_def)
  next
    case (Inr entries)
    let ?files = "zip_members entries []"
    show ?thesis
    proof (cases "missing_file ?files required_files")
      case (Some name)
      then show ?thesis using Inr by (simp add: parse_zip_def feed_plan_def Let_def)
    next
      case None
      show ?thesis
      proof (cases "read_agency_tz (the (map_of ?files ''agency.txt''))")
        case (Inl e)
        then show ?thesis using Inr None \<open>archive = Inr entries\<close> by (simp add: parse_zip_def feed_plan_def Let_def)
      next
        case tz: (Inr tz)
        show ?thesis
        proof (cases "read_feed_version (map_of ?files ''feed_info.txt'')")
          case (Inl e)
          then show ?thesis using Inr None tz \<open>archive = Inr entries\<close> by (simp add: parse_zip_def feed_plan_def Let_def)
        next
          case v: (Inr version)
          show ?thesis
            using None tz v \<open>archive = Inr entries\<close>
            by (simp add: parse_zip_def feed_plan_def Let_def seq del: plan_seq.simps)
              (simp add: parse_routes_def parse_stops_def parse_trips_def parse_calendar_def parse_calendar_dates_def
                parse_stop_times_def opt parse_table_plan split: prod.split option.split)
        qed
      qed
    qed
  qed
qed

text \<open>
  C16: the streaming parser does what the whole feed says: over any archive, contents, errors
  and writer, it makes exactly the calls of the plan in their order, \<open>Meta\<close> first, then routes,
  stops, trips, calendar, calendar dates and stop times, every row once, and ends with the
  first refusal, or with the error of the first row, file or entry that is not in order.
\<close>

theorem parse_zip_plan:
  "parse_zip pf zip_path archive w l = run_plan w (feed_plan pf zip_path archive) l"
  by (rule parse_zip_steps)

section \<open>Files written and read\<close>

lemma all_records_csv:
  assumes "\<forall>r \<in> set rows. r \<noteq> [] \<and> (\<forall>f \<in> set r. return_char \<notin> set f)"
  shows "all_records None (concat (map csv_line rows)) = (rows, io_eof)"
  using assms
proof (induction rows)
  case Nil
  then show ?case by (simp add: all_records.simps csv_read.simps read_line_def)
next
  case (Cons r rows)
  have esc: "return_char \<notin> set (csv_escape h)" if "return_char \<notin> set h" for h
    using that by (induction h) (auto split: if_splits)
  have line: "return_char \<notin> set (csv_line gs)" if "\<forall>f \<in> set gs. return_char \<notin> set f" for gs
    using that by (induction gs rule: csv_line.induct) (auto simp: esc)
  have "return_char \<notin> set (concat (map csv_line rows))" using Cons.prems line by auto
  then have "csv_read None (csv_line r @ concat (map csv_line rows)) = (Inr r, concat (map csv_line rows))"
    using Cons.prems by (intro csv_round_trip) auto
  then show ?case using Cons by (simp add: all_records.simps [of None "csv_line r @ _"])
qed

lemma map_of_cols:
  assumes "distinct cs" and "i < length cs"
  shows "map_of (rev (zip cs [0..<length cs])) (cs ! i) = Some i"
proof -
  have "distinct (map fst (rev (zip cs [0..<length cs])))" using assms(1) by (simp add: rev_map [symmetric])
  moreover have "(cs ! i, i) \<in> set (rev (zip cs [0..<length cs]))"
    using assms(2) by (auto simp: set_zip)
  ultimately show ?thesis by (rule map_of_is_SomeI)
qed

lemma trim_bom [simp]: "trim_prefix (bom @ h) bom = h"
  by (simp add: trim_prefix_def)

lemma bom_plain: "plain_field h \<Longrightarrow> plain_field (bom @ h)"
  by (simp add: plain_field_def bom_def)

lemma plain_line_bom: "bom @ plain_line (h # hs) = plain_line ((bom @ h) # hs)"
  by (cases hs) simp_all

text \<open>Column names as a file may have them.\<close>

definition column_name :: "string \<Rightarrow> bool" where
  "column_name c \<longleftrightarrow> plain_field c \<and> trim_space c = c \<and> c \<noteq> [] \<and> \<not> has_prefix c bom"

text \<open>
  C36: a table is read as it was written, with a byte order mark or without: whatever the
  order of its columns, and whatever commas, quotes and line breaks its cells contain, every
  record is read once, every cell is found under the name of its column and trimmed, and a
  column or a cell that is not there reads as empty.
\<close>

theorem table_round_trip:
  assumes cols: "cols \<noteq> []" "distinct cols" "\<forall>c \<in> set cols. column_name c"
    and rows: "\<forall>r \<in> set rows. r \<noteq> [] \<and> (\<forall>f \<in> set r. return_char \<notin> set f)"
    and f: "ze_open f = Inr ((if b then bom else []) @ plain_line cols @ concat (map csv_line rows), None)"
  shows "\<exists>t. open_table f = Inr t \<and> all_records (tb_end t) (tb_rest t) = (rows, io_eof) \<and> require t cols = None \<and>
    (\<forall>i < length cols. \<forall>r. str t r (cols ! i) = (if i < length r then trim_space (r ! i) else [])) \<and>
    (\<forall>c. c \<notin> set cols \<longrightarrow> (\<forall>r. str t r c = []))"
proof -
  obtain c0 cs where cc: "cols = c0 # cs" using cols(1) by (cases cols) auto
  define h where "h = (if b then bom @ c0 else c0)"
  let ?u = "concat (map csv_line rows)"
  have "return_char \<notin> set (csv_escape h)" if "return_char \<notin> set h" for h
    using that by (induction h) (auto split: if_splits)
  then have line: "return_char \<notin> set (csv_line gs)" if "\<forall>f \<in> set gs. return_char \<notin> set f" for gs
    using that by (induction gs rule: csv_line.induct) auto
  have u: "return_char \<notin> set ?u" using rows line by auto
  have plain: "\<forall>f \<in> set (h # cs). plain_field f" "h \<noteq> []"
    using cols(3) bom_plain by (auto simp: cc h_def column_name_def)
  have "(if b then bom else []) @ plain_line cols @ ?u = plain_line (h # cs) @ ?u"
    using plain_line_bom [of c0 cs] by (simp add: cc h_def)
  then have "csv_read None ((if b then bom else []) @ plain_line cols @ ?u) = (Inr (h # cs), ?u)"
    using csv_read_plain [of "h # cs" ?u] plain u by (simp only:) auto
  then have t: "open_table f = Inr \<lparr>tb_name = path_base (ze_name f), tb_rest = ?u, tb_end = None,
      tb_cols = header_cols (h # cs), tb_row = 0\<rparr>" (is "_ = Inr ?t")
    using f by (simp add: open_table_def)
  have "trim_prefix h bom = c0" using cols(3) by (auto simp: h_def cc trim_prefix_def column_name_def)
  moreover have "map trim_space cols = cols" using cols(3) by (intro map_idI) (simp add: column_name_def)
  ultimately have header: "header_cols (h # cs) = rev (zip cols [0..<length cols])"
    by (simp add: header_cols_def cc Let_def)
  have found: "map_of (tb_cols ?t) (cols ! i) = Some i" if "i < length cols" for i
    using map_of_cols [OF cols(2) that] by (simp add: header)
  have absent: "map_of (tb_cols ?t) c = None" if "c \<notin> set cols" for c
    using that by (auto simp: header map_of_eq_None_iff set_zip)
  have "require t ds = None" if "\<forall>d \<in> set ds. map_of (tb_cols t) d \<noteq> None" for t ds
    using that by (induction ds) auto
  then have "require ?t cols = None" using found by (metis in_set_conv_nth option.distinct(1))
  moreover have "str ?t r (cols ! i) = (if i < length r then trim_space (r ! i) else [])" if "i < length cols" for i r
    using found [OF that] by (simp add: str_def)
  moreover have "str ?t r c = []" if "c \<notin> set cols" for c r
    using absent [OF that] by (simp add: str_def)
  moreover have "all_records (tb_end ?t) (tb_rest ?t) = (rows, io_eof)"
    using all_records_csv [OF rows] by simp
  ultimately show ?thesis using t by blast
qed

theorem table_round_trip_witness:
  "\<exists>t. open_table \<lparr>ze_name = ''gtfs/stops.txt'', ze_is_dir = False,
      ze_open = Inr (bom @ plain_line [''stop_name'', ''stop_id''] @ concat (map csv_line [['' Main, 5th '', ''70'']]), None)\<rparr> = Inr t \<and>
    str t ['' Main, 5th '', ''70''] ''stop_name'' = ''Main, 5th'' \<and> str t ['' Main, 5th '', ''70''] ''stop_lat'' = []"
proof -
  have "column_name ''stop_name''" "column_name ''stop_id''" by code_simp+
  moreover have "trim_space '' Main, 5th '' = ''Main, 5th''" by code_simp
  ultimately show ?thesis
    using table_round_trip [of "[''stop_name'', ''stop_id'']" "[['' Main, 5th '', ''70'']]"
        "\<lparr>ze_name = ''gtfs/stops.txt'', ze_is_dir = False,
          ze_open = Inr (bom @ plain_line [''stop_name'', ''stop_id''] @ concat (map csv_line [['' Main, 5th '', ''70'']]), None)\<rparr>" True]
    by (auto simp: less_Suc_eq all_conj_distrib)
qed

text \<open>
  A byte order mark before a quoted header is an error: the mark is taken off only after the
  record has been read, and a quote inside an unquoted field is refused.
\<close>

theorem bom_quoted_header_fails:
  assumes "ze_open f = Inr (bom @ quote # s, None)"
  shows "\<exists>e. open_table f = Inl (Wrapped e err_bare_quote)"
proof -
  let ?s = "bom @ quote # s"
  have b: "bom = CHR 0xEF # [CHR 0xBB, CHR 0xBF]" by (simp add: bom_def)
  have start: "\<exists>l. fst (fst (read_line None ?s)) = bom @ quote # l" "snd (fst (read_line None ?s)) = None"
    by (auto simp: read_line_def Let_def b)
  then obtain l rest where line: "read_line None ?s = ((bom @ quote # l, None), rest)" by (metis prod.collapse)
  have "fst (csv_fields None (bom @ quote # l) rest None []) = Inl err_bare_quote"
    by (subst csv_fields.simps) (auto simp: Let_def b)
  then have "fst (csv_read None ?s) = Inl err_bare_quote"
    using line by (subst csv_read.simps) (simp add: b)
  then show ?thesis using assms by (cases "csv_read None ?s") (auto simp: open_table_def)
qed

end
