(* ===== verification/Static_Load.thy ===== *)
theory Static_Load
  imports Static_Parse Schedule_Load Poller
begin

text \<open>
  \<open>internal/gtfsstatic/download.go\<close> and \<open>loadStatic\<close> of \<open>cmd/ridewatch/main.go\<close>: the static
  zips are downloaded next to the archive, parsed into one load, and committed. \<open>archive/zip\<close>
  is the argument \<open>unzip\<close>, from the bytes on disk.
\<close>

section \<open>The download\<close>

text \<open>
  The temporary file is removed whatever fails, as far as that succeeds: \<open>Write_fault\<close> may
  leave it behind. \<open>Io_fault\<close> is that of the rename.
\<close>

definition static_zip :: "string \<Rightarrow> string \<Rightarrow> string" where
  "static_zip dest_dir digest = dest_dir @ ''/gtfs-'' @ take 8 digest @ ''.zip''"

definition download_auth :: "codec \<Rightarrow> string \<Rightarrow> string \<Rightarrow> http_reply \<Rightarrow> disk \<Rightarrow> (string \<times> string) result \<times> disk" where
  "download_auth c url dest_dir reply d =
     (case reply of
        No_request e \<Rightarrow> (Inl (Wrapped (''gtfsstatic: build request for '' @ url) e), d)
      | No_reply e \<Rightarrow> (Inl (Wrapped (''gtfsstatic: fetch '' @ url) e), d)
      | Reply code status body \<Rightarrow>
          if code \<noteq> 200
          then (Inl (Message (''gtfsstatic: fetch '' @ url @ '': unexpected status '' @ status)), d)
          else
            (let d' = drop_disk_fault d; tmp = dest_dir @ ''/gtfs-'' in
             case next_disk_fault d of
               Some (Mkdir_fault e) \<Rightarrow> (Inl (Wrapped ''gtfsstatic: create dest dir'' e), d')
             | Some (Temp_fault e) \<Rightarrow> (Inl (Wrapped ''gtfsstatic: create temp file'' e), make_dirs tmp d')
             | fault \<Rightarrow>
                 (case body of
                    Inl e \<Rightarrow> (Inl (Wrapped (''gtfsstatic: download '' @ url) e), make_dirs tmp d')
                  | Inr raw \<Rightarrow>
                      (let made = make_dirs tmp d'; digest = cd_sha c raw; final = static_zip dest_dir digest in
                       case fault of
                         None \<Rightarrow> (Inr (final, digest), made\<lparr>dk_files := al_put final raw (dk_files made)\<rparr>)
                       | Some (Write_fault e left) \<Rightarrow>
                           (Inl (Wrapped (''gtfsstatic: download '' @ url) e),
                            (case left of None \<Rightarrow> made
                             | Some (n, part) \<Rightarrow> made\<lparr>dk_files := al_put (tmp @ nat_dec n @ ''.tmp'') part (dk_files made)\<rparr>))
                       | Some (Io_fault e) \<Rightarrow> (Inl (Wrapped ''gtfsstatic: rename into place'' e), made)
                       | Some e \<Rightarrow> (Inl (Message ''gtfsstatic''), made)))))"

section \<open>The load\<close>

definition split_list :: "string \<Rightarrow> string list" where
  "split_list s = filter (\<lambda>p. p \<noteq> []) (map trim_space (split_on (CHR '','') s))"

text \<open>\<open>replies k\<close>: what the client answers to request number \<open>k\<close>.\<close>

fun download_all ::
    "codec \<Rightarrow> string \<Rightarrow> (nat \<Rightarrow> http_reply) \<Rightarrow> nat \<Rightarrow> string list \<Rightarrow> disk \<Rightarrow> (string \<times> string) list result \<times> disk" where
  "download_all c dest_dir replies k [] d = (Inr [], d)"
| "download_all c dest_dir replies k (u # us) d =
     (case download_auth c u dest_dir (replies k) d of
        (Inl e, d') \<Rightarrow> (Inl (Wrapped ''download static GTFS'' e), d')
      | (Inr x, d') \<Rightarrow>
          (case download_all c dest_dir replies (Suc k) us d' of
             (Inl e, d'') \<Rightarrow> (Inl e, d'')
           | (Inr xs, d'') \<Rightarrow> (Inr (x # xs), d'')))"

fun join_comma :: "string list \<Rightarrow> string" where
  "join_comma [] = []"
| "join_comma [s] = s"
| "join_comma (s # t # ss) = s @ '','' @ join_comma (t # ss)"

definition version_sha :: "codec \<Rightarrow> string list \<Rightarrow> string" where
  "version_sha c shas = (if length shas > 1 then cd_sha c (join_comma shas) else hd shas)"

definition zip_at :: "(string \<Rightarrow> zip_file) \<Rightarrow> disk \<Rightarrow> string \<Rightarrow> zip_file" where
  "zip_at unzip d path =
     (case map_of (dk_files d) path of None \<Rightarrow> Inl (Message ''no such file'') | Some bytes \<Rightarrow> unzip bytes)"

fun parse_zips ::
    "float_parser \<Rightarrow> (string \<Rightarrow> zip_file) \<Rightarrow> disk \<Rightarrow> string list \<Rightarrow> load_world \<Rightarrow> go_error option \<times> load_world" where
  "parse_zips pf unzip d [] lw = (None, lw)"
| "parse_zips pf unzip d (path # paths) lw =
     (case parse_zip pf path (zip_at unzip d path) load_writer lw of
        (Some e, lw') \<Rightarrow> (Some (Wrapped (''parse static GTFS '' @ path_base path) e), lw')
      | (None, lw') \<Rightarrow> parse_zips pf unzip d paths lw')"

abbreviation count_load :: "string \<Rightarrow> 's sys \<Rightarrow> 's sys" where
  "count_load label \<equiv> on_metrics (\<lambda>m. m\<lparr>mt_schedule_loads := label # mt_schedule_loads m\<rparr>)"

text \<open>From the downloads on.\<close>

definition load_zips ::
    "codec \<Rightarrow> float_parser \<Rightarrow> (string \<Rightarrow> zip_file) \<Rightarrow> (string \<times> string) list \<Rightarrow> instant \<Rightarrow> disk \<Rightarrow> store sys \<Rightarrow>
     go_error option \<times> store sys" where
  "load_zips c pf unzip zips now d w =
     (case new_schedule_load (version_sha c (map snd zips)) now w of
        (Inl e, w1) \<Rightarrow>
          if errors_is e Version_exists then (None, count_load ''unchanged'' w1) else (Some e, count_load ''error'' w1)
      | (Inr l, w1) \<Rightarrow>
          (case parse_zips pf unzip d (map fst zips) (l, w1) of
             (Some e, lw2) \<Rightarrow> (Some e, count_load ''error'' (snd (snd (load_abort lw2))))
           | (None, lw2) \<Rightarrow>
               (case load_commit lw2 of
                  (Inl e, lw3) \<Rightarrow>
                    (Some (Wrapped ''commit static GTFS load'' e), count_load ''error'' (snd (snd (load_abort lw3))))
                | (Inr v, lw3) \<Rightarrow> (None, count_load ''loaded'' (snd lw3)))))"

definition load_static ::
    "codec \<Rightarrow> float_parser \<Rightarrow> (string \<Rightarrow> zip_file) \<Rightarrow> string \<Rightarrow> string \<Rightarrow> (nat \<Rightarrow> http_reply) \<Rightarrow> instant \<Rightarrow> disk \<times> store sys \<Rightarrow>
     go_error option \<times> disk \<times> store sys" where
  "load_static c pf unzip archive_dir urls replies now s =
     (case s of (d, w) \<Rightarrow>
       if split_list urls = [] then (Some (Message ''STATIC_GTFS_URL is empty''), d, w)
       else case download_all c (archive_dir @ ''/static'') replies 0 (split_list urls) d of
           (Inl e, d') \<Rightarrow> (Some e, d', count_load ''error'' w)
         | (Inr zips, d') \<Rightarrow> (case load_zips c pf unzip zips now d' w of (e, w') \<Rightarrow> (e, d', w')))"

section \<open>The plan of a load\<close>

text \<open>What the zips on disk say, one after the other.\<close>

definition zips_plan :: "float_parser \<Rightarrow> (string \<Rightarrow> zip_file) \<Rightarrow> disk \<Rightarrow> string list \<Rightarrow> plan list" where
  "zips_plan pf unzip d paths = map (\<lambda>p. feed_plan pf p (zip_at unzip d p)) paths"

definition plan_calls :: "plan list \<Rightarrow> load_call list" where
  "plan_calls ps = concat (map (\<lambda>p. map snd (fst p)) ps)"

abbreviation accepted :: "load_call list \<Rightarrow> (load_call \<times> go_error option) list" where
  "accepted cs \<equiv> map (\<lambda>c. (c, None)) cs"

lemma run_plan_run:
  assumes "run_plan load_writer (cs, e) lw = (x, lw')" and "load_run lw0 tr lw" and "no_errors tr"
  shows "\<exists>tr'. load_run lw0 tr' lw' \<and> (x = None \<longrightarrow> e = None \<and> tr' = tr @ accepted (map snd cs) \<and> no_errors tr')"
  using assms
proof (induction load_writer "(cs, e)" lw arbitrary: cs tr rule: run_plan.induct)
  case (1 lw)
  then show ?case by auto
next
  case (2 msg c cs lw)
  obtain y lw1 where c: "writer_call load_writer c lw = (y, lw1)" by (metis surj_pair)
  note step = run_call [OF 2(3) c]
  show ?case
  proof (cases y)
    case None
    then have "run_plan load_writer (cs, e) lw1 = (x, lw')" using 2(2) c by simp
    from 2(1) [OF c [symmetric] None this step] 2(4) None show ?thesis by auto
  next
    case (Some z)
    then have "lw' = lw1" "x \<noteq> None" using 2(2) c by auto
    then show ?thesis using step by auto
  qed
qed

lemma parse_zips_run:
  assumes "parse_zips pf unzip d paths lw = (x, lw')" and "load_run lw0 tr lw" and "no_errors tr"
  shows "\<exists>tr'. load_run lw0 tr' lw' \<and>
    (x = None \<longrightarrow> tr' = tr @ accepted (plan_calls (zips_plan pf unzip d paths)) \<and> no_errors tr' \<and>
       list_all (\<lambda>p. snd p = None) (zips_plan pf unzip d paths))"
  using assms
proof (induction paths arbitrary: lw tr)
  case Nil
  then show ?case by (auto simp: zips_plan_def plan_calls_def)
next
  case (Cons path paths)
  let ?plan = "feed_plan pf path (zip_at unzip d path)"
  obtain y lw1 where y: "run_plan load_writer ?plan lw = (y, lw1)" by (metis surj_pair)
  obtain cs e where plan: "?plan = (cs, e)" by (metis surj_pair)
  from run_plan_run [OF y [unfolded plan] Cons.prems(2,3)] obtain tr1 where
    tr1: "load_run lw0 tr1 lw1" "y = None \<longrightarrow> e = None \<and> tr1 = tr @ accepted (map snd cs) \<and> no_errors tr1" by blast
  show ?case
  proof (cases y)
    case None
    then have "parse_zips pf unzip d paths lw1 = (x, lw')" using Cons.prems(1) y by (simp add: parse_zip_steps)
    from Cons.IH [OF this tr1(1)] tr1(2) None plan show ?thesis
      by (auto simp: zips_plan_def plan_calls_def)
  next
    case (Some z)
    then have "lw' = lw1" "x \<noteq> None" using Cons.prems(1) y by (auto simp: parse_zip_steps)
    then show ?thesis using tr1(1) by auto
  qed
qed

text \<open>Without faults nothing is lost on the way to the database.\<close>

lemma load_exec_up: "load_exec s lw = (e, lw') \<Longrightarrow> db_faults (sys_db (snd lw)) = [] \<Longrightarrow> db_faults (sys_db (snd lw')) = []"
  by (cases lw) (auto simp: load_exec_def tx_exec_def split: prod.splits tx_state.splits option.splits fault.splits sum.splits)

lemma load_flush_up: "load_flush tb lw = (e, lw') \<Longrightarrow> db_faults (sys_db (snd lw)) = [] \<Longrightarrow> db_faults (sys_db (snd lw')) = []"
  by (auto simp: load_flush_def dest: load_exec_up split: if_splits prod.splits option.splits)

lemma flush_all_up:
  "flush_all tbs lw = (e, lw') \<Longrightarrow> db_faults (sys_db (snd lw)) = [] \<Longrightarrow> db_faults (sys_db (snd lw')) = []"
  by (induction tbs arbitrary: lw) (auto dest: load_flush_up split: prod.splits option.splits)

lemma exec_all_up:
  "exec_all ss lw = (e, lw') \<Longrightarrow> db_faults (sys_db (snd lw)) = [] \<Longrightarrow> db_faults (sys_db (snd lw')) = []"
  by (induction ss lw rule: exec_all.induct) (auto dest: load_exec_up split: prod.splits option.splits)

lemma writer_call_up:
  "writer_call load_writer c lw = (e, lw') \<Longrightarrow> db_faults (sys_db (snd lw)) = [] \<Longrightarrow> db_faults (sys_db (snd lw')) = []"
  by (cases c; cases lw)
    (auto simp: load_writer_def load_meta_def load_route_def load_stop_def load_trip_def load_stop_time_def
      load_calendar_def load_calendar_date_def load_maybe_flush_def buffer_row_def
      dest!: load_exec_up load_flush_up split: prod.splits if_splits sum.splits)

lemma run_plan_up:
  "run_plan load_writer p lw = (e, lw') \<Longrightarrow> db_faults (sys_db (snd lw)) = [] \<Longrightarrow> db_faults (sys_db (snd lw')) = []"
  by (induction load_writer p lw rule: run_plan.induct) (auto dest: writer_call_up split: prod.splits option.splits)

lemma start_load_up:
  assumes "start_load sha t w = (r, w')" and "db_faults (sys_db w) = []"
  shows "db_faults (sys_db w') = []"
proof -
  obtain r1 w1 where run: "db_run (insert_version sha t) w = (r1, w1)" by (metis surj_pair)
  have "db_faults (sys_db w1) = []"
    using db_run_effect [OF run] assms(2) by (auto simp: insert_version_def split: if_splits)
  moreover obtain r2 w2 where q: "db_query (\<lambda>_. ()) w1 = (r2, w2)" by (metis surj_pair)
  ultimately have "db_faults (sys_db w2) = []" "db_faults (sys_db w1) = []" using db_query_state [OF q] by simp_all
  then show ?thesis using assms(1) run q by (auto simp: start_load_def split: sum.splits)
qed

lemma new_schedule_load_up:
  assumes "new_schedule_load sha t w = (r, w')" and "db_faults (sys_db w) = []"
  shows "db_faults (sys_db w') = []"
proof -
  let ?q = "\<lambda>d. find (\<lambda>(i, r). rv_sha256 r = sha) (db_versions d)"
  obtain r1 w1 where q: "db_query ?q w = (r1, w1)" by (metis surj_pair)
  have w1: "db_faults (sys_db w1) = []" using db_query_state [OF q] assms(2) by simp
  have del: "db_faults (sys_db w2) = []" if "db_exec (delete_version_stmt v) w1 = (y, w2)" for v y w2
    using db_exec_effect [OF that] w1 by (auto simp: delete_version_stmt_def delete_version_def)
  show ?thesis
  proof (cases "\<exists>v x. r1 = Inr (Some (v, x))")
    case False
    then show ?thesis using assms(1) q w1 start_load_up [of sha t w1]
      by (cases r1) (auto simp: new_schedule_load_def split: option.splits)
  next
    case True
    then obtain v x where r1: "r1 = Inr (Some (v, x))" by blast
    obtain y w2 where ex: "db_exec (delete_version_stmt v) w1 = (y, w2)" by (metis surj_pair)
    show ?thesis using assms(1) q w1 r1 ex del [OF ex] start_load_up [of sha t w2]
      by (auto simp: new_schedule_load_def split: sum.splits if_splits)
  qed
qed

lemma parse_zips_up:
  "parse_zips pf unzip d paths lw = (e, lw') \<Longrightarrow> db_faults (sys_db (snd lw)) = [] \<Longrightarrow> db_faults (sys_db (snd lw')) = []"
  by (induction paths arbitrary: lw) (auto simp: parse_zip_steps dest: run_plan_up split: prod.splits option.splits)

lemma abort_published:
  assumes ok: "schedule_ok (sys_db w0)" and new: "new_schedule_load sha t w0 = (Inr l, w1)"
    and frame: "load_frame (l, w1) (l2, w2)" and ab: "load_abort (l2, w2) = (e, (l3, w3))"
  shows "schedule_ok (sys_db w2) \<and> published (sys_db w2) = published (sys_db w0) \<and>
    published (sys_db w3) = published (sys_db w0)"
proof -
  note ne = new_schedule_load_effect [OF new ok]
  have fin: "\<not> sl_finished l2" using ne frame by (auto simp: load_frame_def fresh_load_def)
  have fr: "schedule_part (sys_db w2) = schedule_part (sys_db w1)" "sl_id l2 = sl_id l"
    "db_version_seq (sys_db w2) = db_version_seq (sys_db w1)"
    using frame by (simp_all add: load_frame_def)
  have ok2: "schedule_ok (sys_db w2)" and pub: "published (sys_db w2) = published (sys_db w0)"
    using ne schedule_ok_part [OF fr(1,3)] by simp_all
  have "map_of (db_versions (sys_db w2)) (sl_id l2) = Some (new_version_row sha t)"
    using ne fr by (simp add: schedule_part_eq)
  then have "published (delete_version (sl_id l2) (sys_db w2)) = published (sys_db w2)"
    by (intro delete_version_published [OF ok2]) (simp add: new_version_row_def)
  then show ?thesis
    using load_abort_effect [OF ab fin] ok2 pub schedule_ok_part(2) [of "sys_db w3" "sys_db w2"]
      schedule_ok_part(2) [of "sys_db w3" "delete_version (sl_id l2) (sys_db w2)"] by auto
qed

lemma load_commit_up:
  assumes "load_commit (l, w) = (Inl e, lw')" and "load_sane l" and up: "db_faults (sys_db w) = []"
  shows "load_frame (l, w) lw'"
proof (cases "sl_finished l")
  case True
  then show ?thesis using assms(1) by (auto simp: load_commit_def)
next
  case False
  obtain e1 lw1 where f: "flush_all copy_tables (l, w) = (e1, lw1)" by (metis surj_pair)
  have fe: "load_frame (l, w) lw1" using flush_all_effect [OF f, simplified fst_conv, OF assms(2)] by simp
  have up1: "db_faults (sys_db (snd lw1)) = []" using flush_all_up [OF f] up by simp
  show ?thesis
  proof (cases e1)
    case (Some x)
    then show ?thesis using assms(1) f fe False by (auto simp: load_commit_def)
  next
    case None
    obtain e2 l2 w2 where x: "exec_all (commit_stmts (sl_id (fst lw1)) (tx_began (sl_tx (fst lw1)))) lw1 = (e2, (l2, w2))"
      by (metis surj_pair)
    have xe: "load_frame lw1 (l2, w2)" using exec_all_effect [OF x] by simp
    have up2: "next_fault (sys_db w2) = None" using exec_all_up [OF x up1] by (simp add: next_fault_def)
    have fr: "load_frame (l, w) (l2, w2)" using fe xe load_frame_trans by blast
    show ?thesis
    proof (cases e2)
      case (Some y)
      then show ?thesis using assms(1) f None x fr False by (auto simp: load_commit_def)
    next
      case e2: None
      obtain y t w3 where c: "tx_commit (sl_tx l2) w2 = (y, t, w3)" by (metis prod_cases3)
      have "lw' = (l2\<lparr>sl_tx := t\<rparr>, w3)" "y \<noteq> None"
        using assms(1) f None x e2 c False by (auto simp: load_commit_def split: option.splits)
      moreover have "tx_began t = tx_began (sl_tx l2) \<and> tx_state t \<noteq> Tx_open \<and>
          (sys_db w3 = sys_db w2 \<or> sys_db w3 = drop_fault (sys_db w2))"
        using c up2 \<open>y \<noteq> None\<close> by (auto simp: tx_commit_def Let_def split: tx_state.splits option.splits)
      ultimately show ?thesis using fr by (auto simp: load_frame_def)
    qed
  qed
qed

section \<open>Properties\<close>

text \<open>The active version is that of the plans, and its tables hold exactly the rows they call for.\<close>

definition feed_loaded :: "string \<Rightarrow> plan list \<Rightarrow> db \<Rightarrow> bool" where
  "feed_loaded sha plans d \<longleftrightarrow> list_all (\<lambda>p. snd p = None) plans \<and>
     (\<exists>v r. db_active d = Some (version_of_row (v, r)) \<and> rv_sha256 r = sha \<and>
        (\<forall>tb. filter (\<lambda>x. row_version x = v) (table_rows tb d) =
           filter (\<lambda>x. row_table x = tb) (concat (map (call_rows v) (plan_calls plans)))))"

lemma trace_meta_sha: "rv_sha256 (trace_meta tr r) = rv_sha256 r"
proof (induction tr arbitrary: r)
  case (Cons x tr)
  have "rv_sha256 (call_meta c r) = rv_sha256 r" for c by (cases c) simp_all
  then show ?case using Cons by (cases x) simp
qed simp

lemma load_zips_exact:
  assumes ok: "schedule_ok (sys_db w)" and run: "load_zips c pf unzip zips now d w = (e, w')"
  shows "schedule_ok (sys_db w') \<and>
    (e = None \<longrightarrow> published (sys_db w') = published (sys_db w) \<or>
       feed_loaded (version_sha c (map snd zips)) (zips_plan pf unzip d (map fst zips)) (sys_db w')) \<and>
    (e \<noteq> None \<longrightarrow> db_faults (sys_db w) = [] \<longrightarrow> published (sys_db w') = published (sys_db w))"
proof -
  let ?sha = "version_sha c (map snd zips)" and ?plans = "zips_plan pf unzip d (map fst zips)"
  obtain r w1 where new: "new_schedule_load ?sha now w = (r, w1)" by (metis surj_pair)
  note ne = new_schedule_load_effect [OF new ok]
  have start: "loader_ok (None, w)" using ok by (simp add: loader_ok_def)
  show ?thesis
  proof (cases r)
    case (Inl x)
    then show ?thesis using run new ne by (auto simp: load_zips_def split: if_splits)
  next
    case (Inr l)
    note new = new [unfolded Inr]
    have s1: "loader_ok (Some l, w1)" using loader_ok_step [OF load_begins [OF new] start] .
    obtain x l2 w2 where pz: "parse_zips pf unzip d (map fst zips) (l, w1) = (x, (l2, w2))" by (metis surj_pair)
    have "no_errors []" by simp
    from parse_zips_run [OF pz run_start this] obtain tr where tr: "load_run (l, w1) tr (l2, w2)"
      "x = None \<longrightarrow> tr = accepted (plan_calls ?plans) \<and> no_errors tr \<and> list_all (\<lambda>p. snd p = None) ?plans" by auto
    note s2 = loader_ok_step [OF load_calls [OF tr(1)] s1]
    have sane: "load_sane l" using ne Inr by (auto simp: fresh_load_def load_sane_def)
    note re = load_run_effect [OF tr(1), simplified fst_conv, OF sane]
    have fr: "load_frame (l, w1) (l2, w2)" "load_sane l2" using re by simp_all
    obtain ae l3 w3 where ab: "load_abort (l2, w2) = (ae, (l3, w3))" by (metis surj_pair)
    show ?thesis
    proof (cases x)
      case (Some y)
      have "loader_ok (None, w3)" using loader_ok_step [OF load_aborts [OF ab] s2] .
      then show ?thesis
        using run new pz Some ab abort_published [OF ok new fr(1) ab] by (auto simp: load_zips_def loader_ok_def)
    next
      case None
      obtain cr l4 w4 where c: "load_commit (l2, w2) = (cr, (l4, w4))" by (metis surj_pair)
      show ?thesis
      proof (cases cr)
        case (Inr v)
        note c = c [unfolded Inr]
        have fine: "no_errors tr" and plans: "list_all (\<lambda>p. snd p = None) ?plans" and
          tr_eq: "tr = accepted (plan_calls ?plans)" using tr(2) None by blast+
        have "loader_ok (None, w4)" using loader_ok_step [OF load_commits [OF c] s2] .
        moreover have "feed_loaded ?sha ?plans (sys_db w4)"
          using load_rows_exact [OF ok new tr(1) fine c] plans trace_meta_sha [of tr "new_version_row ?sha now"]
          unfolding feed_loaded_def tr_eq
          by (auto simp: new_version_row_def comp_def intro!: exI [of _ v])
        moreover have "w' = count_load ''loaded'' w4" "e = None"
          using run new pz None c by (simp_all add: load_zips_def)
        ultimately show ?thesis by (simp add: loader_ok_def)
      next
        case (Inl y)
        note c = c [unfolded Inl]
        obtain ae l5 w5 where ab: "load_abort (l4, w4) = (ae, (l5, w5))" by (metis surj_pair)
        have "loader_ok (None, w5)"
          using loader_ok_step [OF load_aborts [OF ab] loader_ok_step [OF load_commit_fails [OF c] s2]] .
        moreover have "w' = count_load ''error'' w5" "e \<noteq> None"
          using run new pz None c ab by (auto simp: load_zips_def)
        moreover have "published (sys_db w5) = published (sys_db w)" if "db_faults (sys_db w) = []"
        proof -
          have "db_faults (sys_db w1) = []" using new_schedule_load_up [OF new that] .
          then have "db_faults (sys_db w2) = []" using parse_zips_up [OF pz] by simp
          from load_commit_up [OF c fr(2) this] have "load_frame (l, w1) (l4, w4)" using fr(1) load_frame_trans by blast
          then show ?thesis using abort_published [OF ok new _ ab] by simp
        qed
        ultimately show ?thesis by (auto simp: loader_ok_def)
      qed
    qed
  qed
qed


text \<open>A feed of one stop and one route.\<close>

definition sample_member :: "string \<Rightarrow> string list list \<Rightarrow> zip_entry" where
  "sample_member name recs = \<lparr>ze_name = name @ ''.txt'', ze_is_dir = False, ze_open = Inr (concat (map plain_line recs), None)\<rparr>"

definition sample_unzip :: "string \<Rightarrow> zip_file" where
  "sample_unzip bytes =
     (if bytes = ''zip'' then Inr
       [sample_member ''agency'' [[''agency_timezone''], [''UTC'']],
        sample_member ''stops'' [[''stop_id'', ''stop_name''], [''A'', ''Main'']],
        sample_member ''routes'' [[''route_id''], [''1'']],
        sample_member ''trips'' [[''trip_id'', ''route_id'', ''service_id'']],
        sample_member ''stop_times'' [[''trip_id'', ''stop_id'', ''stop_sequence'']]]
      else Inl (Message ''not a zip''))"

definition sample_fetch :: codec where
  "sample_fetch = \<lparr>cd_gzip = id, cd_gunzip = Inr, cd_sha = (\<lambda>s. ''0123456789''),
     cd_proto = \<lparr>pr_unmarshal = (\<lambda>_. Inl (Message [])), pr_trip_relationship = (\<lambda>_. []),
       pr_stop_relationship = (\<lambda>_. []), pr_vehicle_status = (\<lambda>_. [])\<rparr>\<rparr>"

definition sample_static :: "go_error option \<times> disk \<times> store sys" where
  "sample_static =
     load_static sample_fetch (\<lambda>s. Inr 0) sample_unzip ''a'' ''u'' (\<lambda>k. Reply 200 ''200 OK'' (Inr ''zip'')) 5
       (\<lparr>dk_files = [], dk_dirs = [], dk_faults = []\<rparr>, opened_store [])"


end
