(* ===== verification/Rollup.thy ===== *)
theory Rollup
  imports Transactions
begin

text \<open>
  \<open>internal/rollup/rollup.go\<close>: the three aggregate tables, rebuilt from the finalized events
  of a trailing window. The statements are SQL; their aggregate functions over the delays of
  a group are the record \<open>aggregates\<close>, and the zone that \<open>AT TIME ZONE\<close> names is the one
  \<open>time.LoadLocation\<close> finds, the argument \<open>zones\<close>. When a table was computed and over which
  window is not kept in the rows, and the duration of a run is not modelled.
\<close>

record aggregates =
  ag_p50 :: "int list \<Rightarrow> int"
  ag_p90 :: "int list \<Rightarrow> int"
  ag_avg :: "int list \<Rightarrow> 32 word"

section \<open>Expressions\<close>

text \<open>Day numbers start on a Monday.\<close>

definition isodow :: "int \<Rightarrow> int" where
  "isodow day = day mod 7 + 1"

definition hour_of_week_expr :: "location \<Rightarrow> instant \<Rightarrow> int" where
  "hour_of_week_expr loc t = (isodow (local_day loc t) - 1) * 24 + local_hour loc t"

text \<open>A numeric is rounded half away from zero when it is cast to an integer.\<close>

definition round_secs :: "duration \<Rightarrow> int" where
  "round_secs d = sgn d * ((\<bar>d\<bar> + second div 2) div second)"

definition scheduled_secs_expr :: "location \<Rightarrow> int \<Rightarrow> instant \<Rightarrow> int" where
  "scheduled_secs_expr loc day t = round_secs (t - (noon_of day loc - 12 * hour))"

definition day_class_expr :: "int \<Rightarrow> string" where
  "day_class_expr day =
     (if isodow day = 6 then ''saturday'' else if isodow day = 7 then ''sunday'' else ''weekday'')"

section \<open>Statements\<close>

text \<open>An observation: the service date, the place, the scheduled time and the delay.\<close>

record observation =
  ob_day :: int
  ob_route_id :: string
  ob_stop_id :: string
  ob_direction_id :: int
  ob_scheduled :: instant
  ob_delay :: int

definition event_filter :: "int \<Rightarrow> int \<Rightarrow> row_key \<times> stop_event_row \<Rightarrow> observation option" where
  "event_filter from_day to_day x =
     (case x of ((day, trip, start, q), r) \<Rightarrow>
       (case (re_delay_secs r, re_scheduled_arrival r) of
          (Some delay, Some t) \<Rightarrow>
            if re_final r \<and> \<not> re_skipped r \<and> from_day \<le> day \<and> day < to_day
            then Some \<lparr>ob_day = day, ob_route_id = re_route_id r, ob_stop_id = re_stop_id r,
                ob_direction_id = re_direction_id r, ob_scheduled = t, ob_delay = delay\<rparr>
            else None
        | _ \<Rightarrow> None))"

definition observations :: "int \<Rightarrow> int \<Rightarrow> db \<Rightarrow> observation list" where
  "observations from_day to_day d = List.map_filter (event_filter from_day to_day) (db_stop_events d)"

text \<open>\<open>GROUP BY\<close>: one row per key, over the delays of its observations.\<close>

definition group_by :: "(observation \<Rightarrow> 'k) \<Rightarrow> (int list \<Rightarrow> stat_row) \<Rightarrow> observation list \<Rightarrow> ('k \<times> stat_row) list" where
  "group_by key stat obs =
     map (\<lambda>k. (k, stat (map ob_delay (filter (\<lambda>ob. key ob = k) obs)))) (remdups (map key obs))"

definition stat_of :: "aggregates \<Rightarrow> int list \<Rightarrow> stat_row" where
  "stat_of ag delays =
     \<lparr>rx_n = int (length delays), rx_p50_delay_secs = Some (ag_p50 ag (sort delays)),
      rx_p90_delay_secs = Some (ag_p90 ag (sort delays)),
      rx_late5_pct = ag_avg ag (map (\<lambda>x. if 300 \<le> x then 1 else 0) delays),
      rx_early_pct = ag_avg ag (map (\<lambda>x. if x \<le> - 60 then 1 else 0) delays)\<rparr>"

text \<open>The two smaller tables have no column for early departures.\<close>

definition late_stat_of :: "aggregates \<Rightarrow> int list \<Rightarrow> stat_row" where
  "late_stat_of ag delays = (stat_of ag delays)\<lparr>rx_early_pct := 0\<rparr>"

definition stop_hour_insert :: "aggregates \<Rightarrow> location \<Rightarrow> int \<Rightarrow> int \<Rightarrow> db \<Rightarrow> db result" where
  "stop_hour_insert ag loc from_day to_day d =
     Inr (d\<lparr>db_stop_hour := group_by
       (\<lambda>ob. (ob_route_id ob, ob_stop_id ob, ob_direction_id ob, hour_of_week_expr loc (ob_scheduled ob)))
       (stat_of ag) (observations from_day to_day d)\<rparr>)"

definition departure_key :: "location \<Rightarrow> observation \<Rightarrow> string \<times> string \<times> int \<times> int \<times> string" where
  "departure_key loc ob =
     (ob_route_id ob, ob_stop_id ob, ob_direction_id ob, scheduled_secs_expr loc (ob_day ob) (ob_scheduled ob),
      day_class_expr (ob_day ob))"

definition departure_insert :: "aggregates \<Rightarrow> location \<Rightarrow> int \<Rightarrow> int \<Rightarrow> db \<Rightarrow> db result" where
  "departure_insert ag loc from_day to_day d =
     (let obs = observations from_day to_day d in
      if list_ex (\<lambda>ob. \<not> in_range 32 (scheduled_secs_expr loc (ob_day ob) (ob_scheduled ob))) obs
      then Inl (Message ''integer out of range'')
      else Inr (d\<lparr>db_departure := group_by (departure_key loc) (late_stat_of ag) obs\<rparr>))"

definition route_hour_insert :: "aggregates \<Rightarrow> location \<Rightarrow> int \<Rightarrow> int \<Rightarrow> db \<Rightarrow> db result" where
  "route_hour_insert ag loc from_day to_day d =
     Inr (d\<lparr>db_route_hour := group_by
       (\<lambda>ob. (ob_route_id ob, ob_direction_id ob, hour_of_week_expr loc (ob_scheduled ob)))
       (late_stat_of ag) (observations from_day to_day d)\<rparr>)"

section \<open>Rebuilding\<close>

text \<open>One transaction of the two statements \<open>clear\<close> and \<open>fill\<close>.\<close>

definition rebuild :: "string \<Rightarrow> (db \<Rightarrow> db) \<Rightarrow> stmt \<Rightarrow> store sys \<Rightarrow> go_error option \<times> store sys" where
  "rebuild table clear fill =
     run_tx (''rollup: begin '' @ table)
       [(''rollup: clear '' @ table, \<lambda>d. Inr (clear d)), (''rollup: rebuild '' @ table, fill)]
       (''rollup: commit '' @ table)"

text \<open>The tables in the order of the code: name, \<open>DELETE\<close> and \<open>INSERT\<close>.\<close>

definition rollup_tables ::
    "aggregates \<Rightarrow> location \<Rightarrow> int \<Rightarrow> int \<Rightarrow> (string \<times> (db \<Rightarrow> db) \<times> (db \<Rightarrow> db result)) list" where
  "rollup_tables ag loc from_day to_day =
     [(''rollup_stop_hour'', \<lambda>d. d\<lparr>db_stop_hour := []\<rparr>, stop_hour_insert ag loc from_day to_day),
      (''rollup_departure'', \<lambda>d. d\<lparr>db_departure := []\<rparr>, departure_insert ag loc from_day to_day),
      (''rollup_route_hour'', \<lambda>d. d\<lparr>db_route_hour := []\<rparr>, route_hour_insert ag loc from_day to_day)]"

fun rebuild_all :: "(string \<times> (db \<Rightarrow> db) \<times> (db \<Rightarrow> db result)) list \<Rightarrow> store sys \<Rightarrow> go_error option \<times> store sys" where
  "rebuild_all [] w = (None, w)"
| "rebuild_all ((table, clear, fill) # ts) w =
     (case rebuild table clear fill w of
        (Some e, w') \<Rightarrow> (Some e, w')
      | (None, w') \<Rightarrow> rebuild_all ts w')"

abbreviation count_rollup :: "string \<Rightarrow> 's sys \<Rightarrow> 's sys" where
  "count_rollup label \<equiv> on_metrics (\<lambda>m. m\<lparr>mt_rollup_runs := label # mt_rollup_runs m\<rparr>)"

text \<open>\<open>AddDate\<close> of days: the same wall clock on another day of the location.\<close>

definition add_date_in :: "location \<Rightarrow> instant \<Rightarrow> int \<Rightarrow> instant" where
  "add_date_in loc t days =
     (case civil_of_days (local_day loc t) of
        (y, m, d) \<Rightarrow> go_date y m (d + days) (local_secs loc t mod 86400) loc + t mod second)"

definition rollup_window :: "location \<Rightarrow> instant \<Rightarrow> int \<Rightarrow> int \<times> int" where
  "rollup_window loc now window_weeks =
     (let weeks = (if window_weeks \<le> 0 then 6 else window_weeks)
      in (local_day loc (add_date_in loc now (wrap64 (- weeks * 7))), local_day loc now))"

definition rollup_run ::
    "aggregates \<Rightarrow> (string \<Rightarrow> location result) \<Rightarrow> instant \<Rightarrow> string \<Rightarrow> int \<Rightarrow> store sys \<Rightarrow> go_error option \<times> store sys" where
  "rollup_run ag zones now agency_tz window_weeks w =
     (if agency_tz = [] then (Some (Message ''rollup: empty agency timezone''), count_rollup ''error'' w)
      else case zones agency_tz of
          Inl e \<Rightarrow> (Some (Wrapped (''rollup: invalid agency timezone '' @ agency_tz) e), count_rollup ''error'' w)
        | Inr loc \<Rightarrow>
            (case rollup_window loc now window_weeks of
               (from_day, to_day) \<Rightarrow>
                 (case rebuild_all (rollup_tables ag loc from_day to_day) w of
                    (Some e, w') \<Rightarrow> (Some e, count_rollup ''error'' w')
                  | (None, w') \<Rightarrow> (None, count_rollup ''ok'' w'))))"

section \<open>Groups\<close>

text \<open>
  What a rebuilt table says: every key that an observation has, once, with the statistics of
  exactly its observations; none is counted twice and none is lost.
\<close>

definition rolled_up :: "(observation \<Rightarrow> 'k) \<Rightarrow> (int list \<Rightarrow> stat_row) \<Rightarrow> observation list \<Rightarrow> ('k \<times> stat_row) list \<Rightarrow> bool" where
  "rolled_up key stat obs t \<longleftrightarrow> al_wf t \<and> sum_list (map (rx_n \<circ> snd) t) = int (length obs) \<and>
     (\<forall>k. map_of t k = (let delays = map ob_delay (filter (\<lambda>ob. key ob = k) obs)
        in if delays = [] then None else Some (stat delays)))"

lemma sum_indicator: "distinct ks \<Longrightarrow> (\<Sum>k \<leftarrow> ks. if x = k then 1 else 0) = (if x \<in> set ks then 1 else 0 :: int)"
  by (induction ks) auto

lemma sum_groups:
  "distinct ks \<Longrightarrow> set (map key obs) \<subseteq> set ks \<Longrightarrow>
     (\<Sum>k \<leftarrow> ks. int (length (filter (\<lambda>ob. key ob = k) obs))) = int (length obs)"
proof (induction obs)
  case Nil
  then show ?case by (induction ks) simp_all
next
  case (Cons ob obs)
  have "(\<Sum>k \<leftarrow> ks. int (length (filter (\<lambda>ob. key ob = k) (ob # obs)))) =
      (\<Sum>k \<leftarrow> ks. (if key ob = k then 1 else 0) + int (length (filter (\<lambda>ob. key ob = k) obs)))"
    by (intro arg_cong [of _ _ sum_list] map_cong) auto
  also have "\<dots> = (\<Sum>k \<leftarrow> ks. if key ob = k then 1 else 0) + int (length obs)"
    using Cons by (simp add: sum_list_addf)
  also have "(\<Sum>k \<leftarrow> ks. if key ob = k then 1 else 0) = (1 :: int)"
    using Cons.prems by (simp add: sum_indicator)
  finally show ?case by simp
qed

lemma group_by_rolled:
  assumes "\<And>delays. rx_n (stat delays) = int (length delays)"
  shows "rolled_up key stat obs (group_by key stat obs)"
proof -
  have keys: "map fst (group_by key stat obs) = remdups (map key obs)" by (simp add: group_by_def comp_def)
  have "sum_list (map (rx_n \<circ> snd) (group_by key stat obs)) =
      (\<Sum>k \<leftarrow> remdups (map key obs). int (length (filter (\<lambda>ob. key ob = k) obs)))"
    by (simp add: group_by_def comp_def assms)
  moreover have "map_of (group_by key stat obs) k = (let delays = map ob_delay (filter (\<lambda>ob. key ob = k) obs)
      in if delays = [] then None else Some (stat delays))" for k
  proof -
    have "map_of (map (\<lambda>k. (k, f k)) ks) k = (if k \<in> set ks then Some (f k) else None)" for ks and f :: "'a \<Rightarrow> stat_row"
      by (induction ks) auto
    then show ?thesis by (auto simp: group_by_def filter_empty_conv)
  qed
  ultimately show ?thesis
    using sum_groups [of "remdups (map key obs)" key obs] by (simp add: rolled_up_def al_wf_def keys)
qed

lemma stat_counts [simp]:
  "rx_n (stat_of ag delays) = int (length delays)" "rx_n (late_stat_of ag delays) = int (length delays)"
  by (simp_all add: stat_of_def late_stat_of_def)

section \<open>Keys\<close>

lemma isodow_weekday: "isodow day = (weekday day + 6) mod 7 + 1"
  by (simp add: isodow_def weekday_def mod_simps)

text \<open>
  The SQL and the Go code put an event under the same hour and day. The hour of the week
  is that of \<open>domain.HourOfWeek\<close> for every instant and zone, and the class of a service date
  that of \<open>domain.DayClass\<close>.
\<close>

theorem rollup_keys_agree:
  assumes "four_digit_day n"
  shows "hour_of_week_expr loc t = hour_of_week t loc \<and> day_class (date_string n) = Inr (day_class_expr n)"
proof -
  have "(isodow n = 6) = (n mod 7 = 5)" "(isodow n = 7) = (n mod 7 = 6)" by (auto simp: isodow_def)
  then show ?thesis
    unfolding day_class_date_string [OF assms]
    by (simp add: day_class_expr_def hour_of_week_expr_def hour_of_week_def isodow_weekday)
qed

theorem rollup_keys_agree_witness:
  "hour_of_week_expr sample_new_york 5 = hour_of_week 5 sample_new_york \<and>
   day_class (date_string 739920) = Inr (day_class_expr 739920)"
proof -
  have "four_digit_day 739920" by code_simp
  then show ?thesis by (rule rollup_keys_agree)
qed

text \<open>
  A departure keeps its timetable time. The seconds that the rollup recovers from the
  scheduled instant are the GTFS seconds it was computed from, past midnight and across
  changes of the clock, so that the observations of one departure meet in one row all year.
\<close>

theorem rollup_secs_recovered:
  assumes "four_digit_day n" and "small_offsets loc" and "\<bar>secs\<bar> \<le> 4000000000"
    and "scheduled_time (date_string n) secs loc = Inr t"
  shows "scheduled_secs_expr loc n t = secs"
proof -
  have "t - (noon_of n loc - 12 * hour) = secs * second"
    using scheduled_time_date_string [OF assms(1-3)] assms(4) by (simp add: hour_def minute_def algebra_simps)
  moreover have "round_secs (secs * second) = secs"
    by (simp add: round_secs_def second_def abs_mult sgn_mult sgn_mult_abs)
  ultimately show ?thesis by (simp add: scheduled_secs_expr_def)
qed

theorem rollup_secs_recovered_witness:
  "case scheduled_time (date_string 739920) 91800 sample_new_york of
     Inr t \<Rightarrow> scheduled_secs_expr sample_new_york 739920 t = 91800 | Inl e \<Rightarrow> False"
proof -
  have pre: "four_digit_day 739920" "small_offsets sample_new_york" by code_simp+
  note t = scheduled_time_date_string [OF pre, of 91800]
  then show ?thesis using rollup_secs_recovered [OF pre, of 91800] by simp
qed

section \<open>Runs\<close>

text \<open>Everything of a database but the rollups and the faults.\<close>

definition besides_rollups :: "db \<Rightarrow> db" where
  "besides_rollups d = d\<lparr>db_stop_hour := [], db_departure := [], db_route_hour := [], db_faults := []\<rparr>"

lemma rebuild_effect:
  assumes "rebuild table clear fill w = (e, w')"
  shows "same_but_faults (sys_db w) (sys_db w') \<and> e \<noteq> None \<or>
    (\<exists>d d'. same_but_faults (sys_db w) d \<and> fill (clear d) = Inr d' \<and> same_but_faults d' (sys_db w'))"
proof -
  have "all_stmts [(m, \<lambda>d. Inr (clear d)), (m', fill)] = (\<lambda>d. fill (clear d))" for m m'
    by (auto simp: fun_eq_iff split: sum.split)
  then show ?thesis using run_tx_effect [OF assms [unfolded rebuild_def]] by simp
qed

text \<open>The rows that the statements write.\<close>

definition stop_hour_rows :: "aggregates \<Rightarrow> location \<Rightarrow> observation list \<Rightarrow> ((string \<times> string \<times> int \<times> int) \<times> stat_row) list" where
  "stop_hour_rows ag loc obs = group_by
     (\<lambda>ob. (ob_route_id ob, ob_stop_id ob, ob_direction_id ob, hour_of_week_expr loc (ob_scheduled ob))) (stat_of ag) obs"

definition departure_rows :: "aggregates \<Rightarrow> location \<Rightarrow> observation list \<Rightarrow> ((string \<times> string \<times> int \<times> int \<times> string) \<times> stat_row) list" where
  "departure_rows ag loc obs = group_by (departure_key loc) (late_stat_of ag) obs"

definition route_hour_rows :: "aggregates \<Rightarrow> location \<Rightarrow> observation list \<Rightarrow> ((string \<times> int \<times> int) \<times> stat_row) list" where
  "route_hour_rows ag loc obs = group_by
     (\<lambda>ob. (ob_route_id ob, ob_direction_id ob, hour_of_week_expr loc (ob_scheduled ob))) (late_stat_of ag) obs"

lemma observations_events: "db_stop_events d = db_stop_events d' \<Longrightarrow> observations a b d = observations a b d'"
  by (simp add: observations_def)

lemma rebuild_stop_hour:
  assumes "rebuild ''rollup_stop_hour'' (\<lambda>d. d\<lparr>db_stop_hour := []\<rparr>) (stop_hour_insert ag loc a b) w = (e, w')"
  shows "(\<exists>t f. sys_db w' = (sys_db w)\<lparr>db_stop_hour := t, db_faults := f\<rparr> \<and>
     (t = stop_hour_rows ag loc (observations a b (sys_db w)) \<or> e \<noteq> None \<and> t = db_stop_hour (sys_db w)))"
  using rebuild_effect [OF assms]
proof (elim disjE conjE exE)
  assume "same_but_faults (sys_db w) (sys_db w')" "e \<noteq> None"
  then show ?thesis
    by (elim same_but_faultsE) (rule exI [of _ "db_stop_hour (sys_db w)"], auto)
next
  fix d d'
  assume "same_but_faults (sys_db w) d" "same_but_faults d' (sys_db w')"
    and d': "stop_hour_insert ag loc a b (d\<lparr>db_stop_hour := []\<rparr>) = Inr d'"
  then obtain f g where "d = (sys_db w)\<lparr>db_faults := f\<rparr>" "sys_db w' = d'\<lparr>db_faults := g\<rparr>"
    by (elim same_but_faultsE)
  then show ?thesis
    using d' by (intro exI [of _ "stop_hour_rows ag loc (observations a b (sys_db w))"] exI [of _ g])
      (auto simp: stop_hour_insert_def stop_hour_rows_def observations_def split: if_splits)
qed

lemma rebuild_departure:
  assumes "rebuild ''rollup_departure'' (\<lambda>d. d\<lparr>db_departure := []\<rparr>) (departure_insert ag loc a b) w = (e, w')"
  shows "(\<exists>t f. sys_db w' = (sys_db w)\<lparr>db_departure := t, db_faults := f\<rparr> \<and>
     (t = departure_rows ag loc (observations a b (sys_db w)) \<or> e \<noteq> None \<and> t = db_departure (sys_db w)))"
  using rebuild_effect [OF assms]
proof (elim disjE conjE exE)
  assume "same_but_faults (sys_db w) (sys_db w')" "e \<noteq> None"
  then show ?thesis
    by (elim same_but_faultsE) (rule exI [of _ "db_departure (sys_db w)"], auto)
next
  fix d d'
  assume "same_but_faults (sys_db w) d" "same_but_faults d' (sys_db w')"
    and d': "departure_insert ag loc a b (d\<lparr>db_departure := []\<rparr>) = Inr d'"
  then obtain f g where "d = (sys_db w)\<lparr>db_faults := f\<rparr>" "sys_db w' = d'\<lparr>db_faults := g\<rparr>"
    by (elim same_but_faultsE)
  then show ?thesis
    using d' by (intro exI [of _ "departure_rows ag loc (observations a b (sys_db w))"] exI [of _ g])
      (auto simp: departure_insert_def departure_rows_def observations_def Let_def split: if_splits)
qed

lemma rebuild_route_hour:
  assumes "rebuild ''rollup_route_hour'' (\<lambda>d. d\<lparr>db_route_hour := []\<rparr>) (route_hour_insert ag loc a b) w = (e, w')"
  shows "(\<exists>t f. sys_db w' = (sys_db w)\<lparr>db_route_hour := t, db_faults := f\<rparr> \<and>
     (t = route_hour_rows ag loc (observations a b (sys_db w)) \<or> e \<noteq> None \<and> t = db_route_hour (sys_db w)))"
  using rebuild_effect [OF assms]
proof (elim disjE conjE exE)
  assume "same_but_faults (sys_db w) (sys_db w')" "e \<noteq> None"
  then show ?thesis
    by (elim same_but_faultsE) (rule exI [of _ "db_route_hour (sys_db w)"], auto)
next
  fix d d'
  assume "same_but_faults (sys_db w) d" "same_but_faults d' (sys_db w')"
    and d': "route_hour_insert ag loc a b (d\<lparr>db_route_hour := []\<rparr>) = Inr d'"
  then obtain f g where "d = (sys_db w)\<lparr>db_faults := f\<rparr>" "sys_db w' = d'\<lparr>db_faults := g\<rparr>"
    by (elim same_but_faultsE)
  then show ?thesis
    using d' by (intro exI [of _ "route_hour_rows ag loc (observations a b (sys_db w))"] exI [of _ g])
      (auto simp: route_hour_insert_def route_hour_rows_def observations_def split: if_splits)
qed

text \<open>The tables of a database are those of the observations, or those of before.\<close>

definition rolled_or_kept :: "bool \<Rightarrow> aggregates \<Rightarrow> location \<Rightarrow> observation list \<Rightarrow> db \<Rightarrow> db \<Rightarrow> bool" where
  "rolled_or_kept may_keep ag loc obs d d' \<longleftrightarrow>
     (db_stop_hour d' = stop_hour_rows ag loc obs \<or> may_keep \<and> db_stop_hour d' = db_stop_hour d) \<and>
     (db_departure d' = departure_rows ag loc obs \<or> may_keep \<and> db_departure d' = db_departure d) \<and>
     (db_route_hour d' = route_hour_rows ag loc obs \<or> may_keep \<and> db_route_hour d' = db_route_hour d)"

lemma rebuild_all_effect:
  assumes "rebuild_all (rollup_tables ag loc a b) w = (e, w')"
  shows "rolled_or_kept (e \<noteq> None) ag loc (observations a b (sys_db w)) (sys_db w) (sys_db w') \<and>
    besides_rollups (sys_db w') = besides_rollups (sys_db w)"
proof -
  obtain e1 w1 where r1: "rebuild ''rollup_stop_hour'' (\<lambda>d. d\<lparr>db_stop_hour := []\<rparr>) (stop_hour_insert ag loc a b) w = (e1, w1)"
    by (metis surj_pair)
  obtain e2 w2 where r2: "rebuild ''rollup_departure'' (\<lambda>d. d\<lparr>db_departure := []\<rparr>) (departure_insert ag loc a b) w1 = (e2, w2)"
    by (metis surj_pair)
  obtain e3 w3 where r3: "rebuild ''rollup_route_hour'' (\<lambda>d. d\<lparr>db_route_hour := []\<rparr>) (route_hour_insert ag loc a b) w2 = (e3, w3)"
    by (metis surj_pair)
  obtain t1 f1 where d1: "sys_db w1 = (sys_db w)\<lparr>db_stop_hour := t1, db_faults := f1\<rparr>"
      "t1 = stop_hour_rows ag loc (observations a b (sys_db w)) \<or> e1 \<noteq> None \<and> t1 = db_stop_hour (sys_db w)"
    using rebuild_stop_hour [OF r1] by blast
  obtain t2 f2 where d2: "sys_db w2 = (sys_db w1)\<lparr>db_departure := t2, db_faults := f2\<rparr>"
      "t2 = departure_rows ag loc (observations a b (sys_db w1)) \<or> e2 \<noteq> None \<and> t2 = db_departure (sys_db w1)"
    using rebuild_departure [OF r2] by blast
  obtain t3 f3 where d3: "sys_db w3 = (sys_db w2)\<lparr>db_route_hour := t3, db_faults := f3\<rparr>"
      "t3 = route_hour_rows ag loc (observations a b (sys_db w2)) \<or> e3 \<noteq> None \<and> t3 = db_route_hour (sys_db w2)"
    using rebuild_route_hour [OF r3] by blast
  have obs: "observations a b (sys_db w1) = observations a b (sys_db w)" "observations a b (sys_db w2) = observations a b (sys_db w)"
    by (simp_all add: observations_def d1 d2)
  consider "e1 \<noteq> None" "e = e1" "w' = w1" | "e1 = None" "e2 \<noteq> None" "e = e2" "w' = w2"
    | "e1 = None" "e2 = None" "e = e3" "w' = w3"
    using assms r1 r2 r3 by (cases e1; cases e2; cases e3) (auto simp: rollup_tables_def)
  then show ?thesis
    using d1(2) d2(2) d3(2) unfolding obs
    by cases (auto simp: rolled_or_kept_def besides_rollups_def d1(1) d2(1) d3(1))
qed

lemma rebuild_up:
  assumes "db_faults (sys_db w) = []" and "fill (clear (sys_db w)) = Inr d" and "db_faults d = []"
  shows "fst (rebuild table clear fill w) = None \<and> db_faults (sys_db (snd (rebuild table clear fill w))) = []"
  using run_tx_up [of w "[(m, \<lambda>d. Inr (clear d)), (m', fill)]" d for m m'] assms
  by (simp add: rebuild_def)


text \<open>Three observations of one stop, two of them in one hour.\<close>

definition sample_event :: "string \<Rightarrow> instant \<Rightarrow> int \<Rightarrow> row_key \<times> stop_event_row" where
  "sample_event trip t delay =
     ((739099, trip, [], 1), \<lparr>re_stop_id = ''A'', re_route_id = ''1'', re_direction_id = 0, re_schedule_version_id = 1,
      re_vehicle_id = [], re_scheduled_arrival = Some t, re_predicted_arrival = None, re_actual_arrival = None,
      re_delay_secs = Some delay, re_final = True, re_skipped = False, re_feed_timestamp = 0, re_first_seen = 0,
      re_last_updated = 0, re_update_count = 1\<rparr>)"

definition sample_events :: "store sys" where
  "sample_events = on_db (\<lambda>d. d\<lparr>db_stop_events :=
     [sample_event ''T1'' ((739099 * 86400 + 3600) * second) 60, sample_event ''T2'' ((739099 * 86400 + 3660) * second) 600,
      sample_event ''T3'' ((739099 * 86400 + 7200) * second) 0]\<rparr>) (opened_store [])"

definition sample_aggregates :: aggregates where
  "sample_aggregates = \<lparr>ag_p50 = hd, ag_p90 = last, ag_avg = (\<lambda>_. 0)\<rparr>"


end
