(* ===== verification/Go_Floats.thy ===== *)
theory Go_Floats
  imports Complex_Main Prelude "HOL-Library.Word"
begin

text \<open>
  The floating point arithmetic that the sentences of the API use, on values instead of bits:
  a finite number is \<open>m * 2 ^ e\<close>, written \<open>(m, e)\<close>. Every operation rounds to the nearest
  value of its format, ties to even, as IEEE 754 says. Overflow is not modelled: shares are
  at most 1 and counts have 32 bits.
\<close>

type_synonym dyadic = "int \<times> int"

text \<open>The value of a finite \<open>float32\<close> from its bits.\<close>

definition f32_val :: "32 word \<Rightarrow> dyadic" where
  "f32_val w =
     (let frac = uint w mod 8388608; ex = uint w div 8388608 mod 256;
          m = (if ex = 0 then frac else 8388608 + frac); e = (if ex = 0 then - 149 else ex - 150)
      in (if 2147483648 \<le> uint w then - m else m, e))"

definition f32_finite :: "32 word \<Rightarrow> bool" where
  "f32_finite w \<longleftrightarrow> uint w div 8388608 mod 256 \<noteq> 255"

text \<open>The order of finite values on their bits: sign and magnitude, zeros equal.\<close>

definition f32_key :: "32 word \<Rightarrow> int" where
  "f32_key w = (if 2147483648 \<le> uint w then - (uint w mod 2147483648) else uint w)"

function bit_len :: "int \<Rightarrow> int" where
  "bit_len n = (if n \<le> 0 then 0 else 1 + bit_len (n div 2))"
  by pat_completeness auto
termination
  by (relation "measure nat") auto

declare bit_len.simps [simp del]

text \<open>To \<open>p\<close> bits, no finer than \<open>2 ^ low\<close>: \<open>(53, -1074)\<close> is a double, \<open>(24, -149)\<close> a float.\<close>

definition round_half_even :: "int \<Rightarrow> nat \<Rightarrow> int" where
  "round_half_even n k =
     (let q = n div 2 ^ k; r = n mod 2 ^ k
      in if 2 ^ k < 2 * r \<or> (2 ^ k = 2 * r \<and> odd q) then q + 1 else q)"

definition round_to :: "nat \<Rightarrow> int \<Rightarrow> dyadic \<Rightarrow> dyadic" where
  "round_to p low x =
     (case x of (m, e) \<Rightarrow>
       (let k = max (bit_len \<bar>m\<bar> - int p) (low - e)
        in if k \<le> 0 then x else (sgn m * round_half_even \<bar>m\<bar> (nat k), e + k)))"

abbreviation f64_round :: "dyadic \<Rightarrow> dyadic" where
  "f64_round \<equiv> round_to 53 (- 1074)"

abbreviation f32_round :: "dyadic \<Rightarrow> dyadic" where
  "f32_round \<equiv> round_to 24 (- 149)"

definition f64_mul :: "dyadic \<Rightarrow> dyadic \<Rightarrow> dyadic" where
  "f64_mul x y = f64_round (fst x * fst y, snd x + snd y)"

definition f64_add :: "dyadic \<Rightarrow> dyadic \<Rightarrow> dyadic" where
  "f64_add x y =
     (let e = min (snd x) (snd y)
      in f64_round (fst x * 2 ^ nat (snd x - e) + fst y * 2 ^ nat (snd y - e), e))"

text \<open>
  The quotient is taken to at least 64 bits; the bit behind it says whether something is
  left, which decides between a tie and the rest.
\<close>

definition f64_div :: "dyadic \<Rightarrow> int \<Rightarrow> dyadic" where
  "f64_div x n =
     (let k = nat (64 + bit_len \<bar>n\<bar>); a = \<bar>fst x\<bar> * 2 ^ k; q = a div \<bar>n\<bar>;
          sticky = (if q * \<bar>n\<bar> = a then 2 * q else 2 * q + 1)
      in f64_round (sgn (fst x) * sgn n * sticky, snd x - int k - 1))"

definition f64_of_int :: "int \<Rightarrow> dyadic" where
  "f64_of_int n = f64_round (n, 0)"

text \<open>\<open>math.Round\<close>: to the nearest integer, halves away from zero.\<close>

definition math_round :: "dyadic \<Rightarrow> int" where
  "math_round x =
     (case x of (m, e) \<Rightarrow>
       (if 0 \<le> e then m * 2 ^ nat e
        else sgn m * ((\<bar>m\<bar> * 2 + 2 ^ nat (- e)) div 2 ^ Suc (nat (- e)))))"

text \<open>The conversion to an integer truncates.\<close>

definition f64_to_int :: "dyadic \<Rightarrow> int" where
  "f64_to_int x =
     (case x of (m, e) \<Rightarrow> if 0 \<le> e then m * 2 ^ nat e else sgn m * (\<bar>m\<bar> div 2 ^ nat (- e)))"

section \<open>Bounds\<close>

definition dval :: "dyadic \<Rightarrow> real" where
  "dval x = of_int (fst x) * 2 powi snd x"

text \<open>\<open>0 \<le> x \<le> n\<close>.\<close>

definition bounded_by :: "int \<Rightarrow> dyadic \<Rightarrow> bool" where
  "bounded_by n x \<longleftrightarrow> 0 \<le> dval x \<and> dval x \<le> of_int n"

lemma bit_len_nonneg [simp]: "0 \<le> bit_len n"
proof (induction n rule: bit_len.induct)
  case (1 n)
  then show ?case by (cases "n \<le> 0") (simp_all add: bit_len.simps [of n])
qed

lemma bit_len_le: "n < 2 ^ p \<Longrightarrow> bit_len n \<le> int p"
proof (induction n arbitrary: p rule: bit_len.induct)
  case (1 n)
  show ?case
  proof (cases "n \<le> 0")
    case True
    then show ?thesis by (simp add: bit_len.simps)
  next
    case False
    then obtain q where p: "p = Suc q" using "1.prems" by (cases p) auto
    then have "n div 2 < 2 ^ q" using "1.prems" by simp
    then show ?thesis using "1.IH" False by (simp add: bit_len.simps [of n] p)
  qed
qed

text \<open>What fits is not changed.\<close>

lemma round_to_exact: "\<bar>m\<bar> < 2 ^ p \<Longrightarrow> low \<le> e \<Longrightarrow> round_to p low (m, e) = (m, e)"
  using bit_len_le [of "\<bar>m\<bar>" p] by (simp add: round_to_def)

lemma bit_len_pos: "0 < n \<Longrightarrow> 0 < bit_len n"
  using bit_len_nonneg [of "n div 2"] by (simp add: bit_len.simps [of n] del: bit_len_nonneg)

lemma bit_len_ge: "0 < n \<Longrightarrow> 2 ^ nat (bit_len n - 1) \<le> n"
proof (induction n rule: bit_len.induct)
  case (1 n)
  have b: "bit_len n = 1 + bit_len (n div 2)" using 1(2) by (simp add: bit_len.simps [of n])
  show ?case
  proof (cases "n div 2 = 0")
    case True
    then show ?thesis using 1(2) b by (simp add: bit_len.simps)
  next
    case False
    then have d: "0 < n div 2" using 1(2) by linarith
    then have "0 < bit_len (n div 2)" using bit_len_pos by simp
    then have "nat (bit_len n - 1) = Suc (nat (bit_len (n div 2) - 1))" by (simp add: b)
    then show ?thesis using 1(1) [OF _ d] 1(2) by simp
  qed
qed

lemma bit_len_less: "n < 2 ^ nat (bit_len n)"
proof (induction n rule: bit_len.induct)
  case (1 n)
  show ?case
  proof (cases "n \<le> 0")
    case True
    then show ?thesis by (simp add: bit_len.simps order.strict_trans1)
  next
    case False
    then have "n div 2 < 2 ^ nat (bit_len (n div 2))" using 1 by simp
    then have "n < 2 * 2 ^ nat (bit_len (n div 2))" by linarith
    then show ?thesis using False by (simp add: bit_len.simps [of n] nat_add_distrib)
  qed
qed

lemma powi_nat: "0 \<le> k \<Longrightarrow> (2 :: real) powi k = of_int (2 ^ nat k)"
  by (simp add: power_int_def)

lemma powi_split: "(2 :: real) powi (a + b) = 2 powi a * 2 powi b"
  by (simp add: power_int_add)

lemma dval_align: "e \<le> snd x \<Longrightarrow> of_int (fst x * 2 ^ nat (snd x - e)) * 2 powi e = dval x"
  using powi_split [of "snd x - e" e] by (simp add: dval_def powi_nat)

lemma div_less_bound: "0 < d \<Longrightarrow> n < y * d \<Longrightarrow> n div d < (y :: int)"
proof -
  assume d: "0 < d" and n: "n < y * d"
  have "n div d * d \<le> n" using d by (simp add: minus_mod_eq_div_mult [symmetric])
  then have "n div d * d < y * d" using n by simp
  then show ?thesis using d by simp
qed

lemma bounded_mantissa: "bounded_by n (m, e) \<Longrightarrow> 0 \<le> m"
proof -
  have "\<not> (2 :: real) powi e \<le> 0" by (simp add: not_le)
  then show "bounded_by n (m, e) \<Longrightarrow> 0 \<le> m" by (auto simp: bounded_by_def dval_def zero_le_mult_iff)
qed

lemma round_half_even_le: "n \<le> y * 2 ^ k \<Longrightarrow> round_half_even n k \<le> y"
proof -
  assume le: "n \<le> y * 2 ^ k"
  show ?thesis
  proof (cases "n = y * 2 ^ k")
    case True
    then show ?thesis by (simp add: round_half_even_def)
  next
    case False
    then have "n < y * 2 ^ k" using le by simp
    then have "n div 2 ^ k < y" by (simp add: div_less_bound)
    then show ?thesis by (simp add: round_half_even_def Let_def)
  qed
qed

lemma round_half_even_nonneg: "0 \<le> n \<Longrightarrow> 0 \<le> round_half_even n k"
  by (simp add: round_half_even_def Let_def pos_imp_zdiv_nonneg_iff)

text \<open>Rounding does not leave the bounds that its format can represent.\<close>

lemma bounded_round:
  assumes w: "bounded_by n x" and n: "n < 2 ^ p" and low: "low \<le> 0"
  shows "bounded_by n (round_to p low x)"
proof -
  obtain m e where x: "x = (m, e)" by force
  define k where "k = max (bit_len \<bar>m\<bar> - int p) (low - e)"
  have m: "0 \<le> m" using w by (simp add: x bounded_mantissa)
  show ?thesis
  proof (cases "k \<le> 0 \<or> m = 0")
    case True
    then have "fst (round_to p low x) = 0 \<and> m = 0 \<or> round_to p low x = x"
      by (auto simp: round_to_def x k_def Let_def)
    then show ?thesis using w by (auto simp: bounded_by_def dval_def x)
  next
    case False
    then have k: "0 < k" and m: "0 < m" using m by simp_all
    let ?q = "round_half_even m (nat k)"
    have "round_to p low x = (if k \<le> 0 then x else (sgn m * round_half_even \<bar>m\<bar> (nat k), e + k))"
      by (simp only: round_to_def x k_def Let_def prod.case)
    then have r: "round_to p low x = (?q, e + k)" using k m by simp
    have q0: "0 \<le> ?q" using m round_half_even_nonneg [of m] by simp
    have val: "of_int m * 2 powi e \<le> (of_int n :: real)" using w by (simp add: bounded_by_def dval_def x)
    have e: "e + k \<le> 0"
    proof (rule ccontr)
      assume pos: "\<not> e + k \<le> 0"
      then have "k = bit_len m - int p" using low m by (simp add: k_def)
      then have "nat (bit_len m - 1) \<ge> 0" and big: "bit_len m - 1 + e \<ge> int p" using pos by linarith+
      have "bit_len m - 1 \<ge> 0" using m bit_len_nonneg [of "m div 2"] by (simp add: bit_len.simps [of m])
      then have "(2 :: real) powi (bit_len m - 1) \<le> of_int m"
        using bit_len_ge [OF m] by (simp only: powi_nat of_int_le_iff)
      then have "(2 :: real) powi (bit_len m - 1) * 2 powi e \<le> of_int m * 2 powi e" by (intro mult_right_mono) simp_all
      then have "(2 :: real) powi (bit_len m - 1 + e) \<le> of_int n" using val by (simp only: powi_split)
      moreover have "(2 :: real) powi int p \<le> 2 powi (bit_len m - 1 + e)" using big by (intro power_int_increasing) simp_all
      ultimately have "(2 :: real) powi int p \<le> of_int n" by linarith
      then have "(2 :: int) ^ p \<le> n" by (simp only: powi_nat of_nat_0_le_iff nat_int of_int_le_iff)
      then show False using n by simp
    qed
    have "of_int m = of_int m * 2 powi e * (2 :: real) powi (- (e + k)) * 2 powi k"
      by (simp add: mult.assoc flip: powi_split)
    also have "\<dots> \<le> of_int n * 2 powi (- (e + k)) * 2 powi k"
      using val by (intro mult_right_mono) simp_all
    also have "\<dots> = of_int (n * 2 ^ nat (- (e + k)) * 2 ^ nat k)"
      using e k by (simp add: powi_nat)
    finally have "m \<le> n * 2 ^ nat (- (e + k)) * 2 ^ nat k" by (simp only: of_int_le_iff)
    from round_half_even_le [OF this] have "(of_int ?q :: real) \<le> of_int n * 2 powi (- (e + k))"
      using e by (simp only: powi_nat of_int_mult [symmetric] of_int_le_iff)
    then have "of_int ?q * 2 powi (e + k) \<le> (of_int n :: real) * 2 powi (- (e + k)) * 2 powi (e + k)"
      by (intro mult_right_mono) simp_all
    then have "of_int ?q * 2 powi (e + k) \<le> (of_int n :: real)" by (simp add: mult.assoc flip: powi_split)
    then show ?thesis using q0 by (simp add: bounded_by_def dval_def r)
  qed
qed

lemma bounded_mul:
  assumes "bounded_by a x" "bounded_by b y" "a * b < 2 ^ 53"
  shows "bounded_by (a * b) (f64_mul x y)"
proof -
  have v: "dval (fst x * fst y, snd x + snd y) = dval x * dval y" by (simp add: dval_def powi_split)
  have "bounded_by (a * b) (fst x * fst y, snd x + snd y)"
    using assms unfolding bounded_by_def v by (simp add: mult_mono)
  then show ?thesis unfolding f64_mul_def using assms(3) by (rule bounded_round) simp
qed

lemma bounded_add:
  assumes "bounded_by a x" "bounded_by b y" "a + b < 2 ^ 53"
  shows "bounded_by (a + b) (f64_add x y)"
proof -
  let ?e = "min (snd x) (snd y)"
  have "dval (fst x * 2 ^ nat (snd x - ?e) + fst y * 2 ^ nat (snd y - ?e), ?e) = dval x + dval y"
    using dval_align [of ?e x] dval_align [of ?e y] by (simp add: dval_def [of "(_, _)"] algebra_simps)
  then have "bounded_by (a + b) (fst x * 2 ^ nat (snd x - ?e) + fst y * 2 ^ nat (snd y - ?e), ?e)"
    using assms by (simp add: bounded_by_def)
  then show ?thesis unfolding f64_add_def Let_def using assms(3) by (rule bounded_round) simp
qed

lemma bounded_div:
  assumes w: "bounded_by n x" and n: "0 < n"
  shows "bounded_by 1 (f64_div x n)"
proof -
  define k where "k = nat (64 + bit_len \<bar>n\<bar>)"
  define a where "a = \<bar>fst x\<bar> * 2 ^ k"
  define s where "s = (if a div n * n = a then 2 * (a div n) else 2 * (a div n) + 1)"
  have x: "0 \<le> fst x" using w bounded_mantissa [of n "fst x" "snd x"] by simp
  have a: "0 \<le> a" by (simp add: a_def)
  have div: "f64_div x n = f64_round (sgn (fst x) * s, snd x - int k - 1)"
    using n by (simp add: f64_div_def Let_def k_def a_def s_def)
  show ?thesis
  proof (cases "fst x = 0")
    case True
    then show ?thesis unfolding div by (intro bounded_round) (simp_all add: bounded_by_def dval_def)
  next
    case False
    then have m: "0 < fst x" using x by simp
    have val: "of_int (fst x) * 2 powi snd x \<le> (of_int n :: real)" using w by (simp add: bounded_by_def dval_def)
    have e: "snd x \<le> int k"
    proof (rule ccontr)
      assume "\<not> snd x \<le> int k"
      then have "(2 :: real) powi bit_len n \<le> 2 powi snd x"
        using n by (intro power_int_increasing) (simp_all add: k_def)
      also have "\<dots> \<le> of_int (fst x) * 2 powi snd x" using m by simp
      also have "\<dots> \<le> of_int n" by (rule val)
      also have "(of_int n :: real) < of_int (2 ^ nat (bit_len n))" using bit_len_less [of n] by (simp only: of_int_less_iff)
      finally show False by (simp add: powi_nat)
    qed
    have "(of_int a :: real) = of_int (fst x) * 2 powi snd x * 2 powi (int k - snd x)"
    proof -
      have "(2 :: real) powi snd x * 2 powi (int k - snd x) = 2 ^ k" by (simp flip: powi_split)
      then show ?thesis using m by (simp add: a_def mult.assoc)
    qed
    also have "\<dots> \<le> of_int n * 2 powi (int k - snd x)" using val by (intro mult_right_mono) simp_all
    finally have "(of_int a :: real) \<le> of_int (n * 2 ^ nat (int k - snd x))" using e by (simp add: powi_nat)
    then have le: "a \<le> n * 2 ^ nat (int k - snd x)" by (simp only: of_int_le_iff)
    have "s \<le> 2 * 2 ^ nat (int k - snd x)"
    proof (cases "a div n * n = a")
      case True
      have "a div n \<le> 2 ^ nat (int k - snd x)" using le n using zdiv_mono1 [OF le n] by simp
      then show ?thesis using True by (simp add: s_def)
    next
      case False
      then have "a \<noteq> 2 ^ nat (int k - snd x) * n" using n by auto
      then have "a div n < 2 ^ nat (int k - snd x)" using le n by (simp add: div_less_bound mult.commute)
      then show ?thesis using False by (simp add: s_def)
    qed
    then have "(of_int s :: real) \<le> of_int (2 * 2 ^ nat (int k - snd x))" by (simp only: of_int_le_iff)
    moreover have "nat (1 + int k - snd x) = Suc (nat (int k - snd x))" using e by linarith
    then have "(2 :: real) powi (1 + int k - snd x) = of_int (2 * 2 ^ nat (int k - snd x))"
      using e by (simp only: powi_nat) simp
    ultimately have "(of_int s :: real) \<le> 2 powi (1 + int k - snd x)" by simp
    then have "of_int s * 2 powi (snd x - int k - 1) \<le> (2 :: real) powi (1 + int k - snd x) * 2 powi (snd x - int k - 1)"
      by (intro mult_right_mono) simp_all
    then have "of_int s * 2 powi (snd x - int k - 1) \<le> (1 :: real)" by (simp flip: powi_split)
    moreover have "0 \<le> s" using a n by (simp add: s_def pos_imp_zdiv_nonneg_iff)
    ultimately have "bounded_by 1 (sgn (fst x) * s, snd x - int k - 1)" using m by (simp add: bounded_by_def dval_def)
    then show ?thesis unfolding div by (rule bounded_round) simp_all
  qed
qed

lemma bounded_int: "0 \<le> n \<Longrightarrow> n < 2 ^ 53 \<Longrightarrow> bounded_by n (f64_of_int n)"
  unfolding f64_of_int_def by (rule bounded_round) (simp_all add: bounded_by_def dval_def)

lemma math_round_bounded:
  assumes "bounded_by n x"
  shows "0 \<le> math_round x \<and> math_round x \<le> n"
proof -
  obtain m e where x: "x = (m, e)" by force
  have m: "0 \<le> m" using assms bounded_mantissa by (simp add: x)
  have val: "of_int m * 2 powi e \<le> (of_int n :: real)" using assms by (simp add: bounded_by_def dval_def x)
  show ?thesis
  proof (cases "0 \<le> e")
    case True
    then have "(of_int (m * 2 ^ nat e) :: real) \<le> of_int n" using val by (simp add: powi_nat)
    then have "m * 2 ^ nat e \<le> n" by (simp only: of_int_le_iff)
    then show ?thesis using True m by (simp add: math_round_def x)
  next
    case False
    let ?k = "nat (- e)"
    have "of_int m = of_int m * (2 :: real) powi e * 2 powi (- e)" by (simp add: mult.assoc flip: powi_split)
    also have "\<dots> \<le> of_int n * 2 powi (- e)" using val by (intro mult_right_mono) simp_all
    also have "\<dots> = of_int (n * 2 ^ ?k)" using False by (simp add: powi_nat)
    finally have le: "m \<le> n * 2 ^ ?k" by (simp only: of_int_le_iff)
    have "0 < (2 :: int) ^ ?k" by simp
    then have "m * 2 + 2 ^ ?k < (n + 1) * 2 ^ Suc ?k"
    proof -
      have "m * 2 \<le> n * 2 ^ Suc ?k" using le by simp
      moreover have "(n + 1) * 2 ^ Suc ?k = n * 2 ^ Suc ?k + 2 ^ ?k + 2 ^ ?k" by (simp add: distrib_right)
      ultimately show ?thesis using \<open>0 < 2 ^ ?k\<close> by linarith
    qed
    then have "(m * 2 + 2 ^ ?k) div 2 ^ Suc ?k < n + 1" by (intro div_less_bound) simp_all
    moreover have "0 \<le> (m * 2 + 2 ^ ?k) div 2 ^ Suc ?k" using m by (simp add: pos_imp_zdiv_nonneg_iff)
    moreover have "math_round x = sgn m * ((m * 2 + 2 ^ ?k) div 2 ^ Suc ?k)" using False m by (simp add: math_round_def x)
    ultimately show ?thesis using m by (cases "m = 0") (auto simp: x)
  qed
qed

end
