(* ===== verification/Http.thy ===== *)
theory Http
  imports Go_Floats Config Queries
begin

text \<open>
  The wire side of \<open>internal/api\<close>: JSON values and the structs they are decoded into, the
  responses that handlers write, and the paths of static files. Responses are values of
  \<open>json\<close>; times are printed in RFC 3339, which the constructor \<open>J_time\<close> stands for.
\<close>

section \<open>JSON\<close>

datatype json =
    J_null
  | J_bool bool
  | J_int int
  | J_f64 "64 word"
  | J_f32 "32 word"
  | J_num string
  | J_str string
  | J_time instant
  | J_arr "json list"
  | J_obj "(string \<times> json) list"

text \<open>\<open>J_num\<close> is a number as its literal, in a request; the other numbers are those of responses.\<close>

definition f64_finite :: "64 word \<Rightarrow> bool" where
  "f64_finite w \<longleftrightarrow> f64_magnitude w < 9218868437227405312"

text \<open>\<open>encoding/json\<close> refuses NaN and the infinities.\<close>

fun json_ok :: "json \<Rightarrow> bool" where
  "json_ok (J_f64 w) = f64_finite w"
| "json_ok (J_f32 w) = f32_finite w"
| "json_ok (J_arr xs) = list_all json_ok xs"
| "json_ok (J_obj ms) = list_all (\<lambda>(k, v). json_ok v) ms"
| "json_ok _ = True"

definition opt_json :: "('a \<Rightarrow> json) \<Rightarrow> 'a option \<Rightarrow> json" where
  "opt_json f x = (case x of None \<Rightarrow> J_null | Some y \<Rightarrow> f y)"

section \<open>Decoding\<close>

text \<open>
  What \<open>encoding/json\<close>'s scanner finds at the start of the input: a complete value with what
  follows it, the end of the input before a value is complete, or a syntax error. A number is
  complete when something follows it.
\<close>

datatype scanned = Scanned json string | Scan_more | Scan_bad go_error

text \<open>
  Keys match a field exactly or else under simple case folding. The two characters outside
  ASCII that fold to a letter are the long s and the Kelvin sign.
\<close>

definition ascii_upper :: "char \<Rightarrow> char" where
  "ascii_upper c = (if 97 \<le> byte c \<and> byte c \<le> 122 then char_of (byte c - 32) else c)"

fun fold_name :: "string \<Rightarrow> string" where
  "fold_name [] = []"
| "fold_name [c] = [ascii_upper c]"
| "fold_name (c # d # s) =
     (if byte c = 0xC5 \<and> byte d = 0xBF then CHR ''S'' # fold_name s
      else if byte c = 0xE2 \<and> byte d = 0x84 \<and> s \<noteq> [] \<and> byte (hd s) = 0xAA then CHR ''K'' # fold_name (tl s)
      else ascii_upper c # fold_name (d # s))"

text \<open>A field decodes a value into the struct; an error leaves the field and is kept if it is the first.\<close>

type_synonym 'r field = "json \<Rightarrow> 'r \<Rightarrow> 'r \<times> go_error option"

definition type_error :: go_error where
  "type_error = Message ''json: cannot unmarshal value''"

definition string_field :: "(string \<Rightarrow> 'r \<Rightarrow> 'r) \<Rightarrow> 'r field" where
  "string_field put v r =
     (case v of J_str s \<Rightarrow> (put s r, None) | J_null \<Rightarrow> (r, None) | _ \<Rightarrow> (r, Some type_error))"

definition int_field :: "nat \<Rightarrow> (int option \<Rightarrow> 'r \<Rightarrow> 'r) \<Rightarrow> 'r field" where
  "int_field width put v r =
     (case v of
        J_null \<Rightarrow> (put None r, None)
      | J_num s \<Rightarrow>
          (case parse_int s of
             Some n \<Rightarrow> if in_range width n then (put (Some n) r, None) else (r, Some type_error)
           | None \<Rightarrow> (r, Some type_error))
      | _ \<Rightarrow> (r, Some type_error))"

definition struct_field :: "(string \<times> 'r field) list \<Rightarrow> string \<Rightarrow> 'r field option" where
  "struct_field fds key =
     (case map_of fds key of
        Some f \<Rightarrow> Some f
      | None \<Rightarrow> map_option snd (find (\<lambda>(name, f). fold_name name = fold_name key) fds))"

definition first_err :: "go_error option \<Rightarrow> go_error option \<Rightarrow> go_error option" where
  "first_err e e' = (case e of None \<Rightarrow> e' | Some x \<Rightarrow> Some x)"

text \<open>With \<open>DisallowUnknownFields\<close>.\<close>

fun decode_members :: "(string \<times> 'r field) list \<Rightarrow> (string \<times> json) list \<Rightarrow> 'r \<Rightarrow> go_error option \<Rightarrow> 'r \<times> go_error option" where
  "decode_members fds [] r e = (r, e)"
| "decode_members fds ((key, v) # ms) r e =
     (case struct_field fds key of
        None \<Rightarrow> decode_members fds ms r (first_err e (Some (Message (''json: unknown field '' @ key))))
      | Some f \<Rightarrow> (case f v r of (r', e') \<Rightarrow> decode_members fds ms r' (first_err e e')))"

definition decode_struct :: "(string \<times> 'r field) list \<Rightarrow> 'r field" where
  "decode_struct fds v r =
     (case v of J_null \<Rightarrow> (r, None) | J_obj ms \<Rightarrow> decode_members fds ms r None | _ \<Rightarrow> (r, Some type_error))"

section \<open>\<open>decodeStrict\<close>\<close>

definition max_subscription_body :: nat where
  "max_subscription_body = 16384"

datatype body_error = Too_large | Bad_body go_error

definition json_space :: "char \<Rightarrow> bool" where
  "json_space c \<longleftrightarrow> byte c = 32 \<or> byte c = 9 \<or> byte c = 10 \<or> byte c = 13"

text \<open>
  \<open>Decoder.More\<close>: whether a value may follow. It is for streams of array elements: the end of
  the input, an error of the reader and a closing bracket all say no.
\<close>

definition decoder_more :: "string \<Rightarrow> bool" where
  "decoder_more rest =
     (case dropWhile json_space rest of [] \<Rightarrow> False | c # _ \<Rightarrow> c \<noteq> CHR '']'' \<and> c \<noteq> CHR ''}'')"

text \<open>
  The reader delivers the first bytes of the body up to the limit, and an error after them if
  there are more.
\<close>

definition decode_strict :: "(string \<Rightarrow> scanned) \<Rightarrow> 'r field \<Rightarrow> 'r \<Rightarrow> string \<Rightarrow> body_error + 'r" where
  "decode_strict scan target zero body =
     (case scan (take max_subscription_body body) of
        Scan_bad e \<Rightarrow> Inl (Bad_body e)
      | Scan_more \<Rightarrow>
          Inl (if max_subscription_body < length body then Too_large else Bad_body (Message ''unexpected EOF''))
      | Scanned v rest \<Rightarrow>
          (case target v zero of
             (r, Some e) \<Rightarrow> Inl (Bad_body e)
           | (r, None) \<Rightarrow>
               if decoder_more rest then Inl (Bad_body (Message ''unexpected trailing data'')) else Inr r))"

section \<open>Responses\<close>

datatype body = No_body | Json json | Bytes string

record response =
  rp_status :: int
  rp_content_type :: string
  rp_no_store :: bool
  rp_body :: body

text \<open>A value that cannot be encoded leaves the body empty under the status already written.\<close>

definition write_json :: "int \<Rightarrow> json \<Rightarrow> response" where
  "write_json status v =
     \<lparr>rp_status = status, rp_content_type = ''application/json; charset=utf-8'', rp_no_store = False,
      rp_body = (if json_ok v then Json v else No_body)\<rparr>"

definition write_error :: "int \<Rightarrow> string \<Rightarrow> response" where
  "write_error status msg = write_json status (J_obj [(''error'', J_str msg)])"

definition no_store :: "response \<Rightarrow> response" where
  "no_store r = r\<lparr>rp_no_store := True\<rparr>"

definition server_error :: response where
  "server_error = write_error 500 ''internal server error''"

definition bad_request_or_too_large :: "body_error \<Rightarrow> response" where
  "bad_request_or_too_large e =
     (case e of
        Too_large \<Rightarrow> write_error 413 ''request body too large''
      | Bad_body x \<Rightarrow> write_error 400 (''invalid request body: '' @ error_text x))"

lemma write_json_simps [simp]:
  "rp_status (write_json s v) = s" "rp_status (write_error s m) = s" "rp_status server_error = 500"
  "rp_status (no_store r) = rp_status r"
  by (simp_all add: write_json_def write_error_def server_error_def no_store_def)

end
