(* ===== verification/Sentences.thy ===== *)
theory Sentences
  imports Go_Floats Domain_Types "HOL-Library.Product_Lexorder"
begin

text \<open>
  \<open>internal/api/sentences.go\<close>: the plain-language sentences on the reliability of a stop,
  made of its rollup rows. A missing entry of the map of names reads as the empty string.
\<close>

section \<open>Words\<close>

definition pct_of :: "dyadic \<Rightarrow> int" where
  "pct_of share = math_round (f64_mul share (100, 0))"

definition pct :: "32 word \<Rightarrow> int" where
  "pct share = pct_of (f32_val share)"

definition format_clock12 :: "int \<Rightarrow> string" where
  "format_clock12 secs =
     (let h = go_mod (go_div secs 3600) 24; m = go_div (go_mod secs 3600) 60;
          ampm = (if 12 \<le> h then ''PM'' else ''AM''); h12 = go_mod h 12
      in fmt_d (if h12 = 0 then 12 else h12) @ '':'' @ fmt_0d 2 m @ '' '' @ ampm)"

definition time_of_day_bucket :: "int \<Rightarrow> string" where
  "time_of_day_bucket secs =
     (if secs < 12 * 3600 then ''morning''
      else if secs < 17 * 3600 then ''afternoon''
      else if secs < 21 * 3600 then ''evening''
      else ''night'')"

definition day_phrase :: "string \<Rightarrow> string" where
  "day_phrase day_cls =
     (if day_cls = ''weekday'' then ''weekday''
      else if day_cls = ''saturday'' then ''Saturday''
      else if day_cls = ''sunday'' then ''Sunday''
      else day_cls)"

definition route_display_name :: "string \<Rightarrow> (string \<times> string) list \<Rightarrow> string" where
  "route_display_name route_id names =
     (case map_of names route_id of
        None \<Rightarrow> ''Route '' @ route_id
      | Some name \<Rightarrow> if name \<noteq> [] then name else ''Route '' @ route_id)"

section \<open>Sentences\<close>

definition eligible_departures :: "departure_stat list \<Rightarrow> departure_stat list" where
  "eligible_departures departures = filter (\<lambda>d. min_observations \<le> ds_n d) departures"

text \<open>The order of the stable sort: worst share first, then most observations, then earliest.\<close>

definition departure_rank :: "departure_stat \<Rightarrow> int \<times> int \<times> int" where
  "departure_rank d = (- f32_key (ds_late5_pct d), - ds_n d, ds_scheduled_secs d)"

definition worst_departures :: "departure_stat list \<Rightarrow> departure_stat list" where
  "worst_departures departures = take 5 (sort_key departure_rank (eligible_departures departures))"

definition departure_sentence :: "(string \<times> string) list \<Rightarrow> departure_stat \<Rightarrow> string" where
  "departure_sentence names d =
     ''The '' @ format_clock12 (ds_scheduled_secs d) @ '' '' @ route_display_name (ds_route_id d) names @
     '' departure is 5+ minutes late on '' @ fmt_d (pct (ds_late5_pct d)) @ ''% of '' @
     day_phrase (ds_day_class d) @ '' '' @ time_of_day_bucket (ds_scheduled_secs d) @ ''s.''"

text \<open>The loop over the hourly rows: the observations and their late ones.\<close>

fun weigh_hours :: "hourly_stat list \<Rightarrow> int \<times> dyadic \<Rightarrow> int \<times> dyadic" where
  "weigh_hours [] acc = acc"
| "weigh_hours (h # hs) (n, weighted) =
     (if hs_n h < min_observations then weigh_hours hs (n, weighted)
      else weigh_hours hs (wrap64 (n + hs_n h),
             f64_add weighted (f64_mul (f64_of_int (hs_n h)) (f32_val (hs_late5_pct h)))))"

definition overall_share :: "hourly_stat list \<Rightarrow> dyadic option" where
  "overall_share hourly =
     (case weigh_hours hourly (0, (0, 0)) of (n, weighted) \<Rightarrow>
       if 0 < n then Some (f32_round (f64_div weighted n)) else None)"

definition overall_sentence :: "dyadic \<Rightarrow> string" where
  "overall_sentence share = ''Overall, '' @ fmt_d (pct_of share) @ ''% of tracked arrivals here run 5+ minutes late.''"

definition reliability_sentences ::
    "hourly_stat list \<Rightarrow> departure_stat list \<Rightarrow> (string \<times> string) list \<Rightarrow> string list" where
  "reliability_sentences hourly departures names =
     map (departure_sentence names) (worst_departures departures) @
     (case overall_share hourly of None \<Rightarrow> [] | Some share \<Rightarrow> [overall_sentence share])"

section \<open>Bounds\<close>

lemma pct_of_bounded: "bounded_by 1 x \<Longrightarrow> 0 \<le> pct_of x \<and> pct_of x \<le> 100"
  using bounded_mul [of 1 x 100 "(100, 0)"] math_round_bounded [of 100 "f64_mul x (100, 0)"]
  by (simp add: pct_of_def bounded_by_def [of _ "(100, 0)"] dval_def)

lemma pct_bounded: "bounded_by 1 (f32_val w) \<Longrightarrow> 0 \<le> pct w \<and> pct w \<le> 100"
  unfolding pct_def by (rule pct_of_bounded)

lemma weigh_hours_bounded:
  assumes "weigh_hours hs (n, weighted) = (n', weighted')" and "bounded_by n weighted" and "0 \<le> n"
    and "list_all (\<lambda>h. bounded_by 1 (f32_val (hs_late5_pct h))) hs"
    and "n + sum_list (map hs_n (filter (\<lambda>h. min_observations \<le> hs_n h) hs)) < 2 ^ 53"
  shows "bounded_by n' weighted' \<and> 0 \<le> n'"
  using assms
proof (induction hs arbitrary: n weighted)
  case Nil
  then show ?case by simp
next
  case (Cons h hs)
  have pos: "0 \<le> sum_list (map hs_n (filter (\<lambda>h. min_observations \<le> hs_n h) hs))"
    by (rule sum_list_nonneg) (auto simp: min_observations_def)
  show ?case
  proof (cases "hs_n h < min_observations")
    case True
    then show ?thesis using Cons.prems Cons.IH by simp
  next
    case False
    then have h: "0 \<le> hs_n h" "n + hs_n h < 2 ^ 53" "hs_n h < 2 ^ 53"
      using Cons.prems(3,5) pos by (auto simp: min_observations_def)
    have "bounded_by (hs_n h * 1) (f64_mul (f64_of_int (hs_n h)) (f32_val (hs_late5_pct h)))"
      using h(1,3) Cons.prems(4) by (intro bounded_mul bounded_int) simp_all
    then have "bounded_by (n + hs_n h) (f64_add weighted (f64_mul (f64_of_int (hs_n h)) (f32_val (hs_late5_pct h))))"
      using Cons.prems(2) h(2) by (intro bounded_add) simp_all
    moreover have "wrap64 (n + hs_n h) = n + hs_n h" using h Cons.prems(3) by (intro wrap64_id) simp_all
    ultimately show ?thesis using Cons.IH [of "n + hs_n h"] Cons.prems False h(1) by simp
  qed
qed

lemma overall_share_bounded:
  assumes "overall_share hourly = Some share" and "list_all (\<lambda>h. bounded_by 1 (f32_val (hs_late5_pct h))) hourly"
    and "sum_list (map hs_n (filter (\<lambda>h. min_observations \<le> hs_n h) hourly)) < 2 ^ 53"
  shows "bounded_by 1 share"
proof -
  obtain n weighted where w: "weigh_hours hourly (0, (0, 0)) = (n, weighted)" by (metis surj_pair)
  then have s: "0 < n" "share = f32_round (f64_div weighted n)"
    using assms(1) by (auto simp: overall_share_def split: if_splits)
  have "bounded_by n weighted"
    using weigh_hours_bounded [OF w _ _ assms(2)] assms(3) by (simp add: bounded_by_def dval_def)
  from bounded_div [OF this s(1)] show ?thesis unfolding s(2) by (rule bounded_round) simp_all
qed

text \<open>
  A stop is described in at most six sentences, by the worst of its departures. Every
  departure that is named was observed often enough and none with enough observations that
  is left out ranks before it; and with shares between 0 and 1, whatever the roundings of
  the weighted mean, every percentage is between 0 and 100.
\<close>

theorem sentences_bounded:
  assumes deps: "list_all (\<lambda>d. bounded_by 1 (f32_val (ds_late5_pct d))) departures"
    and hours: "list_all (\<lambda>h. bounded_by 1 (f32_val (hs_late5_pct h))) hourly"
    and total: "sum_list (map hs_n (filter (\<lambda>h. min_observations \<le> hs_n h) hourly)) < 2 ^ 53"
  shows "length (reliability_sentences hourly departures names) \<le> 6 \<and>
    list_all (\<lambda>d. min_observations \<le> ds_n d \<and> 0 \<le> pct (ds_late5_pct d) \<and> pct (ds_late5_pct d) \<le> 100)
      (worst_departures departures) \<and>
    (\<forall>d \<in> set (eligible_departures departures) - set (worst_departures departures).
       list_all (\<lambda>w. departure_rank w \<le> departure_rank d) (worst_departures departures)) \<and>
    (\<forall>share. overall_share hourly = Some share \<longrightarrow> 0 \<le> pct_of share \<and> pct_of share \<le> 100)"
proof -
  let ?s = "sort_key departure_rank (eligible_departures departures)"
  have sub: "set (worst_departures departures) \<subseteq> set (eligible_departures departures)"
    using set_take_subset [of 5 ?s] by (simp add: worst_departures_def)
  have "list_all (\<lambda>d. min_observations \<le> ds_n d \<and> 0 \<le> pct (ds_late5_pct d) \<and> pct (ds_late5_pct d) \<le> 100)
      (worst_departures departures)"
    using sub deps by (auto simp: list_all_iff eligible_departures_def dest: pct_bounded)
  moreover have "departure_rank w \<le> departure_rank d"
    if d: "d \<in> set (eligible_departures departures) - set (worst_departures departures)"
      and w: "w \<in> set (worst_departures departures)" for d w
  proof -
    have "sorted (map departure_rank (take 5 ?s @ drop 5 ?s))" by simp
    moreover have "d \<in> set (drop 5 ?s)"
      using d by (metis DiffE UnE append_take_drop_id set_append set_sort worst_departures_def)
    ultimately show ?thesis using w unfolding worst_departures_def map_append sorted_append by fastforce
  qed
  moreover have "length (reliability_sentences hourly departures names) \<le> 6"
    by (auto simp: reliability_sentences_def worst_departures_def split: option.split)
  ultimately show ?thesis
    using overall_share_bounded [OF _ hours total] pct_of_bounded by (auto simp: list_all_iff)
qed

text \<open>A row of each kind, with the shares 0.38 and 0.21.\<close>

definition sample_departure :: departure_stat where
  "sample_departure =
     \<lparr>ds_route_id = ''1'', ds_stop_id = ''S1'', ds_direction_id = 0, ds_scheduled_secs = 29520,
      ds_day_class = ''weekday'', ds_n = 40, ds_p50_delay_secs = None, ds_p90_delay_secs = None,
      ds_late5_pct = 0x3EC28F5C\<rparr>"

definition sample_hour :: hourly_stat where
  "sample_hour =
     \<lparr>hs_route_id = ''1'', hs_stop_id = ''S1'', hs_direction_id = 0, hs_hour_of_week = 8, hs_n = 100,
      hs_p50_delay_secs = None, hs_p90_delay_secs = None, hs_late5_pct = 0x3E570A3D, hs_early_pct = 0\<rparr>"

theorem sentences_bounded_witness:
  "length (reliability_sentences [sample_hour] [sample_departure] []) \<le> 6 \<and>
   reliability_sentences [sample_hour] [sample_departure] [] =
     [''The 8:12 AM Route 1 departure is 5+ minutes late on 38% of weekday mornings.'',
      ''Overall, 21% of tracked arrivals here run 5+ minutes late.'']"
proof -
  have v: "f32_val 0x3EC28F5C = (12750684, - 25)" "f32_val 0x3E570A3D = (14092861, - 26)" by code_simp+
  have "bounded_by 1 (f32_val 0x3EC28F5C)" "bounded_by 1 (f32_val 0x3E570A3D)"
    unfolding v by (simp_all add: bounded_by_def dval_def power_int_def power_divide field_simps)
  moreover have "reliability_sentences [sample_hour] [sample_departure] [] =
     [''The 8:12 AM Route 1 departure is 5+ minutes late on 38% of weekday mornings.'',
      ''Overall, 21% of tracked arrivals here run 5+ minutes late.'']" by code_simp
  ultimately show ?thesis
    using sentences_bounded [of "[sample_departure]" "[sample_hour]" "[]"]
    by (simp add: sample_departure_def sample_hour_def)
qed

end
