(* ===== verification/Api.thy ===== *)
theory Api
  imports Http Sentences Poller Subscriptions
begin

text \<open>
  \<open>internal/api/api.go\<close> and \<open>handlers.go\<close>: the HTTP API over the read queries, the live state
  and the subscription store, and the static frontend. A handler takes a request and the state
  outside and returns its response with that state updated.
\<close>

section \<open>The server\<close>

text \<open>
  Parts of the standard library that are arguments: case folding, MIME types of the system,
  \<open>strconv.ParseFloat\<close>, \<open>url.Parse\<close> with the scheme and host it finds, the scanner of
  \<open>encoding/json\<close>; and the page of the Prometheus handler.
\<close>

record go_lib =
  gl_lower :: "string \<Rightarrow> string"
  gl_mime :: "string \<Rightarrow> string"
  gl_parse_float :: "string \<Rightarrow> 64 word option"
  gl_parse_url :: "string \<Rightarrow> (string \<times> string) option"
  gl_json :: "string \<Rightarrow> scanned"
  gl_metrics_page :: "metrics \<Rightarrow> response"

text \<open>The embedded files: contents by name, and the names of the directories.\<close>

record static_fs =
  sf_files :: "(string \<times> string) list"
  sf_dirs :: "string list"

record 's server =
  sv_cfg :: config
  sv_q :: "'s stop_queries"
  sv_live :: "'s live_source"
  sv_subs :: "'s subscription_store"
  sv_static :: static_fs
  sv_lib :: go_lib

text \<open>
  \<open>rq_segments\<close> are the decoded segments of the escaped path, \<open>rq_path\<close> the decoded path,
  \<open>rq_query\<close> the parsed query with the values of each key in order.
\<close>

record request =
  rq_method :: string
  rq_path :: string
  rq_segments :: "string list"
  rq_query :: "(string \<times> string list) list"
  rq_body :: string

type_synonym 's handler = "'s sys \<Rightarrow> response \<times> 's sys"

definition query_get :: "request \<Rightarrow> string \<Rightarrow> string" where
  "query_get rq key = (case map_of (rq_query rq) key of Some (v # _) \<Rightarrow> v | _ \<Rightarrow> [])"

definition query_has :: "request \<Rightarrow> string \<Rightarrow> bool" where
  "query_has rq key = (map_of (rq_query rq) key \<noteq> None)"

section \<open>Shapes\<close>

definition stop_json :: "stop \<Rightarrow> json" where
  "stop_json s = J_obj
     [(''stop_id'', J_str (sto_stop_id s)), (''name'', J_str (sto_name s)),
      (''lat'', J_f64 (sto_lat s)), (''lon'', J_f64 (sto_lon s)),
      (''parent_station'', J_str (sto_parent_station s)), (''location_type'', J_int (sto_location_type s)),
      (''platform_code'', J_str (sto_platform_code s))]"

definition route_json :: "route \<Rightarrow> json" where
  "route_json r = J_obj
     [(''route_id'', J_str (rou_route_id r)), (''short_name'', J_str (rou_short_name r)),
      (''long_name'', J_str (rou_long_name r)), (''route_type'', J_int (rou_route_type r)),
      (''color'', J_str (rou_color r)), (''text_color'', J_str (rou_text_color r)),
      (''sort_order'', J_int (rou_sort_order r))]"

text \<open>An empty \<open>stop_id\<close> is omitted.\<close>

definition hourly_json :: "hourly_stat \<Rightarrow> json" where
  "hourly_json h = J_obj
     ([(''route_id'', J_str (hs_route_id h))] @
      (if hs_stop_id h = [] then [] else [(''stop_id'', J_str (hs_stop_id h))]) @
      [(''direction_id'', J_int (hs_direction_id h)), (''hour_of_week'', J_int (hs_hour_of_week h)),
       (''n'', J_int (hs_n h)), (''p50_delay_secs'', opt_json J_int (hs_p50_delay_secs h)),
       (''p90_delay_secs'', opt_json J_int (hs_p90_delay_secs h)), (''late5_pct'', J_f32 (hs_late5_pct h)),
       (''early_pct'', J_f32 (hs_early_pct h))])"

definition departure_json :: "departure_stat \<Rightarrow> json" where
  "departure_json d = J_obj
     [(''route_id'', J_str (ds_route_id d)), (''stop_id'', J_str (ds_stop_id d)),
      (''direction_id'', J_int (ds_direction_id d)), (''scheduled_secs'', J_int (ds_scheduled_secs d)),
      (''day_class'', J_str (ds_day_class d)), (''n'', J_int (ds_n d)),
      (''p50_delay_secs'', opt_json J_int (ds_p50_delay_secs d)),
      (''p90_delay_secs'', opt_json J_int (ds_p90_delay_secs d)), (''late5_pct'', J_f32 (ds_late5_pct d))]"

definition vehicle_json :: "live_vehicle \<Rightarrow> json" where
  "vehicle_json v = (let p = lv_position v in J_obj
     [(''type'', J_str ''Feature''),
      (''geometry'', J_obj [(''type'', J_str ''Point''), (''coordinates'', J_arr [J_f64 (vp_lon p), J_f64 (vp_lat p)])]),
      (''properties'', J_obj
        [(''vehicle_id'', J_str (vp_vehicle_id p)), (''route_id'', J_str (vp_route_id p)),
         (''route_short_name'', J_str (lv_route_short_name v)), (''headsign'', J_str (lv_headsign v)),
         (''delay_secs'', opt_json J_int (lv_delay_secs v)), (''status'', J_str (vp_status p)),
         (''bearing'', J_f32 (vp_bearing p)), (''updated_at'', J_time (lv_updated_at v))])])"

definition rfc3339_or_nil :: "instant \<Rightarrow> json" where
  "rfc3339_or_nil t = (if is_zero t then J_null else J_time t)"

text \<open>A name that the map does not have reads as the empty string.\<close>

definition upcoming_json :: "(string \<times> string) list \<Rightarrow> stop_event \<Rightarrow> json" where
  "upcoming_json short_names ev = J_obj
     [(''trip_id'', J_str (se_trip_id ev)), (''route_id'', J_str (se_route_id ev)),
      (''route_short_name'', J_str (case map_of short_names (se_route_id ev) of None \<Rightarrow> [] | Some n \<Rightarrow> n)),
      (''headsign'', J_str (se_headsign ev)), (''direction_id'', J_int (se_direction_id ev)),
      (''stop_sequence'', J_int (se_stop_sequence ev)),
      (''scheduled'', rfc3339_or_nil (se_scheduled_arrival ev)),
      (''predicted'', rfc3339_or_nil (se_predicted_arrival ev)),
      (''delay_secs'', opt_json J_int (se_delay_secs ev)), (''vehicle_id'', J_str (se_vehicle_id ev)),
      (''skipped'', J_bool (se_skipped ev))]"

section \<open>Vehicles and stops\<close>

definition handle_vehicles :: "'s server \<Rightarrow> 's handler" where
  "handle_vehicles sv w =
     (no_store (write_json 200 (J_obj
        [(''type'', J_str ''FeatureCollection''),
         (''features'', J_arr (map vehicle_json (ls_live_vehicles (sv_live sv) w)))])), w)"

definition write_stops :: "stop list \<Rightarrow> response" where
  "write_stops stops = write_json 200 (J_obj [(''stops'', J_arr (map stop_json stops))])"

fun parse_numbers :: "(string \<Rightarrow> 64 word option) \<Rightarrow> string list \<Rightarrow> 64 word list result" where
  "parse_numbers pf [] = Inr []"
| "parse_numbers pf (p # ps) =
     (case pf (trim_space p) of
        None \<Rightarrow> Inl (Message (''bbox: bad number '' @ [CHR 0x22] @ p @ [CHR 0x22]))
      | Some v \<Rightarrow> (case parse_numbers pf ps of Inl e \<Rightarrow> Inl e | Inr vs \<Rightarrow> Inr (v # vs)))"

text \<open>180, -180, 90 and -90 as doubles.\<close>

definition f64_180 :: "64 word" where "f64_180 = 0x4066800000000000"
definition f64_m180 :: "64 word" where "f64_m180 = 0xC066800000000000"
definition f64_90 :: "64 word" where "f64_90 = 0x4056800000000000"
definition f64_m90 :: "64 word" where "f64_m90 = 0xC056800000000000"

definition parse_bbox :: "(string \<Rightarrow> 64 word option) \<Rightarrow> string \<Rightarrow> (64 word \<times> 64 word \<times> 64 word \<times> 64 word) result" where
  "parse_bbox pf raw =
     (let parts = split_on (CHR '','') raw in
      if length parts \<noteq> 4 then Inl (Message ''bbox must be minLon,minLat,maxLon,maxLat'')
      else case parse_numbers pf parts of
          Inl e \<Rightarrow> Inl e
        | Inr vals \<Rightarrow>
            (let min_lon = vals ! 0; min_lat = vals ! 1; max_lon = vals ! 2; max_lat = vals ! 3 in
             if f64_less min_lon f64_m180 \<or> f64_less f64_180 max_lon \<or> f64_less min_lat f64_m90 \<or>
                f64_less f64_90 max_lat \<or> f64_less max_lon min_lon \<or> f64_less max_lat min_lat
             then Inl (Message ''bbox out of range'')
             else Inr (min_lon, min_lat, max_lon, max_lat)))"

definition bbox_limit :: int where "bbox_limit = 500"
definition search_limit :: int where "search_limit = 25"

definition handle_stops :: "'s server \<Rightarrow> request \<Rightarrow> 's handler" where
  "handle_stops sv rq w =
     (if query_has rq ''bbox'' then
        (case parse_bbox (gl_parse_float (sv_lib sv)) (query_get rq ''bbox'') of
           Inl e \<Rightarrow> (write_error 400 (error_text e), w)
         | Inr (min_lon, min_lat, max_lon, max_lat) \<Rightarrow>
             (case sq_stops_in_bbox (sv_q sv) min_lat min_lon max_lat max_lon bbox_limit w of
                (Inl e, w') \<Rightarrow> (server_error, w')
              | (Inr stops, w') \<Rightarrow> (write_stops stops, w')))
      else if query_has rq ''q'' then
        (let q = trim_space (query_get rq ''q'') in
         if q = [] then (write_error 400 ''q must not be empty'', w)
         else case sq_search_stops (sv_q sv) q search_limit w of
             (Inl e, w') \<Rightarrow> (server_error, w')
           | (Inr stops, w') \<Rightarrow> (write_stops stops, w'))
      else (write_error 400 ''bbox or q parameter required'', w))"

text \<open>How the handlers of one object answer for it: not found, an error, or on with it.\<close>

definition look_up :: "string \<Rightarrow> 'a result \<times> 's sys \<Rightarrow> ('a \<Rightarrow> 's handler) \<Rightarrow> response \<times> 's sys" where
  "look_up what r k =
     (case r of
        (Inl e, w) \<Rightarrow> (if errors_is e Not_found then write_error 404 (what @ '' not found'') else server_error, w)
      | (Inr x, w) \<Rightarrow> k x w)"

text \<open>What must succeed.\<close>

definition or_fail :: "'a result \<times> 's sys \<Rightarrow> ('a \<Rightarrow> 's handler) \<Rightarrow> response \<times> 's sys" where
  "or_fail r k = (case r of (Inl e, w) \<Rightarrow> (server_error, w) | (Inr x, w) \<Rightarrow> k x w)"

definition handle_stop :: "'s server \<Rightarrow> string \<Rightarrow> 's handler" where
  "handle_stop sv sid w =
     look_up ''stop'' (sq_stop (sv_q sv) sid w) (\<lambda>stop w.
       or_fail (sq_routes_serving_stop (sv_q sv) sid w) (\<lambda>routes w.
         (write_json 200 (J_obj [(''routes'', J_arr (map route_json routes)), (''stop'', stop_json stop)]), w)))"

definition upcoming_horizon :: duration where
  "upcoming_horizon = 90 * minute"

text \<open>The names of the routes at a stop; none when they cannot be read.\<close>

definition names_by :: "(route \<Rightarrow> string) \<Rightarrow> route list result \<Rightarrow> (string \<times> string) list" where
  "names_by name r =
     (case r of Inl e \<Rightarrow> [] | Inr routes \<Rightarrow> fold (\<lambda>rt m. al_put (rou_route_id rt) (name rt) m) routes [])"

definition handle_upcoming :: "'s server \<Rightarrow> string \<Rightarrow> 's handler" where
  "handle_upcoming sv sid w =
     (case look_up ''stop'' (sq_stop (sv_q sv) sid w) (\<lambda>_ w.
        (case sq_routes_serving_stop (sv_q sv) sid w of
           (r, w') \<Rightarrow>
             (write_json 200 (J_obj [(''upcoming'',
                J_arr (map (upcoming_json (names_by rou_short_name r)) (ls_upcoming (sv_live sv) sid upcoming_horizon w')))]), w')))
      of (rp, w') \<Rightarrow> (no_store rp, w'))"

definition display_name_for_route :: "route \<Rightarrow> string" where
  "display_name_for_route r =
     (if rou_short_name r \<noteq> [] then ''Route '' @ rou_short_name r
      else if rou_long_name r \<noteq> [] then rou_long_name r
      else ''Route '' @ rou_route_id r)"

definition handle_stop_reliability :: "'s server \<Rightarrow> string \<Rightarrow> 's handler" where
  "handle_stop_reliability sv sid w =
     look_up ''stop'' (sq_stop (sv_q sv) sid w) (\<lambda>_ w.
       or_fail (sq_stop_hourly (sv_q sv) sid w) (\<lambda>hourly w.
         or_fail (sq_stop_departures (sv_q sv) sid w) (\<lambda>departures w.
           case sq_routes_serving_stop (sv_q sv) sid w of
             (r, w') \<Rightarrow>
               (write_json 200 (J_obj
                  [(''departures'', J_arr (map departure_json departures)),
                   (''hourly'', J_arr (map hourly_json hourly)),
                   (''sentences'', J_arr (map J_str
                      (reliability_sentences hourly departures (names_by display_name_for_route r))))]), w'))))"

section \<open>Routes, feeds and keys\<close>

definition handle_routes :: "'s server \<Rightarrow> 's handler" where
  "handle_routes sv w =
     or_fail (sq_routes (sv_q sv) w) (\<lambda>routes w.
       (write_json 200 (J_obj [(''routes'', J_arr (map route_json routes))]), w))"

definition handle_route_reliability :: "'s server \<Rightarrow> string \<Rightarrow> 's handler" where
  "handle_route_reliability sv sid w =
     look_up ''route'' (sq_route (sv_q sv) sid w) (\<lambda>route w.
       or_fail (sq_route_hourly (sv_q sv) sid w) (\<lambda>hourly w.
         (write_json 200 (J_obj [(''hourly'', J_arr (map hourly_json hourly)), (''route'', route_json route)]), w)))"

text \<open>\<open>int(age.Seconds())\<close>: the seconds are a double, its conversion truncates.\<close>

definition duration_seconds :: "duration \<Rightarrow> dyadic" where
  "duration_seconds d =
     f64_add (f64_of_int (go_div d second)) (f64_div (f64_of_int (go_mod d second)) 1000000000)"

definition feed_status :: "'s server \<Rightarrow> feed \<Rightarrow> 's sys \<Rightarrow> json" where
  "feed_status sv feed w =
     (case ls_feed_age (sv_live sv) feed w of
        None \<Rightarrow> J_obj [(''age_secs'', J_null), (''ok'', J_bool False)]
      | Some age \<Rightarrow> J_obj [(''age_secs'', J_int (f64_to_int (duration_seconds age))), (''ok'', J_bool True)])"

definition feed_statuses :: "'s server \<Rightarrow> 's sys \<Rightarrow> json" where
  "feed_statuses sv w = J_obj
     [(feed_trip_updates, feed_status sv feed_trip_updates w),
      (feed_vehicle_positions, feed_status sv feed_vehicle_positions w)]"

definition handle_feedinfo :: "'s server \<Rightarrow> 's handler" where
  "handle_feedinfo sv w =
     (no_store (write_json 200 (J_obj
        [(''feeds'', feed_statuses sv w),
         (''push_enabled'', J_bool (cf_vapid_public_key (sv_cfg sv) \<noteq> [] \<and> cf_vapid_private_key (sv_cfg sv) \<noteq> [])),
         (''tile_url'', J_str (cf_tile_url (sv_cfg sv)))])), w)"

definition handle_healthz :: "'s server \<Rightarrow> 's handler" where
  "handle_healthz sv w =
     (no_store (write_json 200 (J_obj [(''feeds'', feed_statuses sv w), (''status'', J_str ''ok'')])), w)"

definition handle_vapid_public_key :: "'s server \<Rightarrow> 's handler" where
  "handle_vapid_public_key sv w = (write_json 200 (J_obj [(''key'', J_str (cf_vapid_public_key (sv_cfg sv)))]), w)"

section \<open>Subscriptions\<close>

record subscribe_request =
  su_endpoint :: string
  su_p256dh :: string
  su_auth :: string
  su_stop_id :: string
  su_route_id :: string
  su_direction_id :: "int option"
  su_threshold_secs :: "int option"

definition zero_request :: subscribe_request where
  "zero_request =
     \<lparr>su_endpoint = [], su_p256dh = [], su_auth = [], su_stop_id = [], su_route_id = [],
      su_direction_id = None, su_threshold_secs = None\<rparr>"

definition subscribe_fields :: "(string \<times> subscribe_request field) list" where
  "subscribe_fields =
     [(''endpoint'', string_field (\<lambda>s r. r\<lparr>su_endpoint := s\<rparr>)),
      (''keys'', decode_struct
         [(''p256dh'', string_field (\<lambda>s r. r\<lparr>su_p256dh := s\<rparr>)), (''auth'', string_field (\<lambda>s r. r\<lparr>su_auth := s\<rparr>))]),
      (''stop_id'', string_field (\<lambda>s r. r\<lparr>su_stop_id := s\<rparr>)),
      (''route_id'', string_field (\<lambda>s r. r\<lparr>su_route_id := s\<rparr>)),
      (''direction_id'', int_field 16 (\<lambda>n r. r\<lparr>su_direction_id := n\<rparr>)),
      (''threshold_secs'', int_field 64 (\<lambda>n r. r\<lparr>su_threshold_secs := n\<rparr>))]"

text \<open>The checks on a request, up to the lookup of its stop.\<close>

definition https_url :: "(string \<Rightarrow> (string \<times> string) option) \<Rightarrow> string \<Rightarrow> bool" where
  "https_url parse_url s =
     (case parse_url s of None \<Rightarrow> False | Some (scheme, host) \<Rightarrow> scheme = ''https'' \<and> host \<noteq> [])"

definition request_subscription :: "subscribe_request \<Rightarrow> int \<Rightarrow> subscription" where
  "request_subscription req direction =
     \<lparr>sub_id = 0, sub_endpoint = su_endpoint req, sub_p256dh = su_p256dh req, sub_auth = su_auth req,
      sub_stop_id = su_stop_id req, sub_route_id = su_route_id req, sub_direction_id = direction,
      sub_threshold_secs = (case su_threshold_secs req of None \<Rightarrow> 300 | Some t \<Rightarrow> min (max t 60) 3600),
      sub_created_at = zero_time, sub_failure_count = 0\<rparr>"

definition check_request :: "go_lib \<Rightarrow> subscribe_request \<Rightarrow> string + subscription" where
  "check_request lib req =
     (if \<not> https_url (gl_parse_url lib) (su_endpoint req) then Inl ''endpoint must be an https URL''
      else if su_p256dh req = [] \<or> su_auth req = [] then Inl ''keys.p256dh and keys.auth are required''
      else if su_stop_id req = [] then Inl ''stop_id is required''
      else case su_direction_id req of
          Some d \<Rightarrow> if d \<noteq> - 1 \<and> d \<noteq> 0 \<and> d \<noteq> 1 then Inl ''direction_id must be 0, 1, or -1''
            else Inr (request_subscription req d)
        | None \<Rightarrow> Inr (request_subscription req (- 1)))"

definition handle_subscribe :: "'s server \<Rightarrow> request \<Rightarrow> 's handler" where
  "handle_subscribe sv rq w =
     (case decode_strict (gl_json (sv_lib sv)) (decode_struct subscribe_fields) zero_request (rq_body rq) of
        Inl e \<Rightarrow> (bad_request_or_too_large e, w)
      | Inr req \<Rightarrow>
          (case check_request (sv_lib sv) req of
             Inl msg \<Rightarrow> (write_error 400 msg, w)
           | Inr sub \<Rightarrow>
               look_up ''stop'' (sq_stop (sv_q sv) (sub_stop_id sub) w) (\<lambda>_ w.
                 or_fail (ss_save (sv_subs sv) sub w) (\<lambda>n w.
                   (write_json 201 (J_obj [(''id'', J_int n)]), w)))))"

definition handle_unsubscribe :: "'s server \<Rightarrow> request \<Rightarrow> 's handler" where
  "handle_unsubscribe sv rq w =
     (case decode_strict (gl_json (sv_lib sv)) (decode_struct [(''endpoint'', string_field (\<lambda>s r. s))]) [] (rq_body rq) of
        Inl e \<Rightarrow> (bad_request_or_too_large e, w)
      | Inr endpoint \<Rightarrow>
          if endpoint = [] then (write_error 400 ''endpoint is required'', w)
          else case ss_delete (sv_subs sv) endpoint w of
              (Some e, w') \<Rightarrow>
                (if errors_is e Not_found then write_error 404 ''subscription not found'' else server_error, w')
            | (None, w') \<Rightarrow>
                (\<lparr>rp_status = 204, rp_content_type = [], rp_no_store = False, rp_body = No_body\<rparr>, w'))"

section \<open>The static frontend\<close>

definition content_types :: "(string \<times> string) list" where
  "content_types =
     [(''.html'', ''text/html; charset=utf-8''), (''.js'', ''text/javascript; charset=utf-8''),
      (''.mjs'', ''text/javascript; charset=utf-8''), (''.css'', ''text/css; charset=utf-8''),
      (''.json'', ''application/json; charset=utf-8''), (''.map'', ''application/json; charset=utf-8''),
      (''.svg'', ''image/svg+xml''), (''.png'', ''image/png''), (''.ico'', ''image/x-icon''),
      (''.webmanifest'', ''application/manifest+json''), (''.woff2'', ''font/woff2'')]"

text \<open>\<open>path.Ext\<close>: from the last dot of the last element on.\<close>

definition path_ext :: "string \<Rightarrow> string" where
  "path_ext p =
     (let base = last_part (CHR ''/'') p
      in if CHR ''.'' \<in> set base then CHR ''.'' # last_part (CHR ''.'') base else [])"

definition content_type_for :: "go_lib \<Rightarrow> string \<Rightarrow> string" where
  "content_type_for lib name =
     (let ext = gl_lower lib (path_ext name) in
      case map_of content_types ext of
        Some ct \<Rightarrow> ct
      | None \<Rightarrow> if gl_mime lib ext \<noteq> [] then gl_mime lib ext else ''application/octet-stream'')"

definition serve_static_file :: "'s server \<Rightarrow> request \<Rightarrow> string \<Rightarrow> response" where
  "serve_static_file sv rq name =
     (case map_of (sf_files (sv_static sv)) name of
        None \<Rightarrow> write_error 404 ''not found''
      | Some content \<Rightarrow>
          \<lparr>rp_status = 200, rp_content_type = content_type_for (sv_lib sv) name, rp_no_store = False,
           rp_body = (if rq_method rq \<noteq> ''HEAD'' then Bytes content else No_body)\<rparr>)"

text \<open>\<open>path.Clean\<close> of a rooted path, as its elements: a stack, emptied by parents.\<close>

fun clean_parts :: "string list \<Rightarrow> string list \<Rightarrow> string list" where
  "clean_parts [] stack = rev stack"
| "clean_parts (p # ps) stack =
     (if p = [] \<or> p = ''.'' then clean_parts ps stack
      else if p = ''..'' then clean_parts ps (tl stack)
      else clean_parts ps (p # stack))"

definition static_name :: "string \<Rightarrow> string" where
  "static_name path =
     (let name = join_path (clean_parts (split_on (CHR ''/'') path) []) in if name = [] then ''index.html'' else name)"

text \<open>\<open>utf8.ValidString\<close>: the well-formed byte sequences.\<close>

definition utf8_len :: "string \<Rightarrow> nat" where
  "utf8_len s =
     (case s of
        [] \<Rightarrow> 0
      | a # t \<Rightarrow>
          (let n = byte a; m = (if t = [] then 0 else byte (hd t)) in
           if n < 128 then 1
           else if 194 \<le> n \<and> n \<le> 223 \<and> length (takeWhile continuation (take 1 t)) = 1 then 2
           else if 224 \<le> n \<and> n \<le> 239 \<and> length (takeWhile continuation (take 2 t)) = 2 \<and>
             (n = 224 \<longrightarrow> 160 \<le> m) \<and> (n = 237 \<longrightarrow> m \<le> 159) then 3
           else if 240 \<le> n \<and> n \<le> 244 \<and> length (takeWhile continuation (take 3 t)) = 3 \<and>
             (n = 240 \<longrightarrow> 144 \<le> m) \<and> (n = 244 \<longrightarrow> m \<le> 143) then 4
           else 0))"

function utf8_valid :: "string \<Rightarrow> bool" where
  "utf8_valid s =
     (if s = [] then True else if utf8_len s = 0 then False else utf8_valid (drop (utf8_len s) s))"
  by pat_completeness auto
termination
  by (relation "measure length") auto

declare utf8_valid.simps [simp del]

text \<open>\<open>fs.ValidPath\<close>: UTF-8, and no element empty, a dot or two dots.\<close>

definition valid_path :: "string \<Rightarrow> bool" where
  "valid_path name \<longleftrightarrow> utf8_valid name \<and>
     (name = ''.'' \<or> list_all (\<lambda>p. p \<noteq> [] \<and> p \<noteq> ''.'' \<and> p \<noteq> ''..'') (split_on (CHR ''/'') name))"

definition handle_static :: "'s server \<Rightarrow> request \<Rightarrow> response" where
  "handle_static sv rq =
     (if rq_method rq \<noteq> ''GET'' \<and> rq_method rq \<noteq> ''HEAD'' then write_error 405 ''method not allowed''
      else let name = static_name (rq_path rq) in
        if \<not> valid_path name then write_error 404 ''not found''
        else if map_of (sf_files (sv_static sv)) name = None \<or> name \<in> set (sf_dirs (sv_static sv))
        then if path_ext name = [] then serve_static_file sv rq ''index.html'' else write_error 404 ''not found''
        else serve_static_file sv rq name)"

definition handle_stop_page :: "'s server \<Rightarrow> request \<Rightarrow> response" where
  "handle_stop_page sv rq = serve_static_file sv rq ''stop.html''"

section \<open>Routing\<close>

text \<open>
  The patterns of the mux on the segments of a clean path; requests for other paths are
  redirected to the clean one by \<open>net/http\<close>. A \<open>GET\<close> pattern takes \<open>HEAD\<close> too. A request that
  no pattern with its method matches falls to \<open>/api/\<close> or to \<open>/\<close>, which take every method;
  \<open>/api\<close> itself is redirected. The bodies of responses to \<open>HEAD\<close> are dropped by the server.
\<close>

datatype endpoint =
    Ep_vehicles
  | Ep_stops
  | Ep_stop string
  | Ep_upcoming string
  | Ep_stop_reliability string
  | Ep_routes
  | Ep_route_reliability string
  | Ep_feedinfo
  | Ep_vapid_public_key
  | Ep_subscribe
  | Ep_unsubscribe
  | Ep_api_unknown
  | Ep_api_redirect
  | Ep_healthz
  | Ep_metrics
  | Ep_stop_page
  | Ep_static

definition get_endpoint :: "string list \<Rightarrow> endpoint option" where
  "get_endpoint segs =
     (case segs of
        [a] \<Rightarrow> if a = ''healthz'' then Some Ep_healthz else if a = ''metrics'' then Some Ep_metrics else None
      | [a, b] \<Rightarrow>
          if a = ''stop'' \<and> b \<noteq> [] then Some Ep_stop_page
          else if a \<noteq> ''api'' then None
          else if b = ''vehicles'' then Some Ep_vehicles
          else if b = ''stops'' then Some Ep_stops
          else if b = ''routes'' then Some Ep_routes
          else if b = ''feedinfo'' then Some Ep_feedinfo
          else if b = ''vapid-public-key'' then Some Ep_vapid_public_key
          else None
      | [a, b, c] \<Rightarrow> if a = ''api'' \<and> b = ''stops'' \<and> c \<noteq> [] then Some (Ep_stop c) else None
      | [a, b, c, d] \<Rightarrow>
          if a \<noteq> ''api'' \<or> c = [] then None
          else if b = ''stops'' \<and> d = ''upcoming'' then Some (Ep_upcoming c)
          else if b = ''stops'' \<and> d = ''reliability'' then Some (Ep_stop_reliability c)
          else if b = ''routes'' \<and> d = ''reliability'' then Some (Ep_route_reliability c)
          else None
      | _ \<Rightarrow> None)"

definition endpoint_of :: "request \<Rightarrow> endpoint" where
  "endpoint_of rq =
     (let segs = rq_segments rq;
          rest = (if segs = [''api''] then Ep_api_redirect
            else if segs \<noteq> [] \<and> hd segs = ''api'' then Ep_api_unknown else Ep_static)
      in if rq_method rq = ''GET'' \<or> rq_method rq = ''HEAD''
         then (case get_endpoint segs of Some ep \<Rightarrow> ep | None \<Rightarrow> rest)
         else if rq_method rq = ''POST'' \<and> segs = [''api'', ''subscriptions''] then Ep_subscribe
         else if rq_method rq = ''DELETE'' \<and> segs = [''api'', ''subscriptions''] then Ep_unsubscribe
         else rest)"

definition redirect_to :: "string \<Rightarrow> response" where
  "redirect_to location =
     \<lparr>rp_status = 307, rp_content_type = ''text/html; charset=utf-8'', rp_no_store = False, rp_body = Bytes location\<rparr>"

definition serve_request :: "'s server \<Rightarrow> request \<Rightarrow> 's handler" where
  "serve_request sv rq w =
     (case endpoint_of rq of
        Ep_vehicles \<Rightarrow> handle_vehicles sv w
      | Ep_stops \<Rightarrow> handle_stops sv rq w
      | Ep_stop sid \<Rightarrow> handle_stop sv sid w
      | Ep_upcoming sid \<Rightarrow> handle_upcoming sv sid w
      | Ep_stop_reliability sid \<Rightarrow> handle_stop_reliability sv sid w
      | Ep_routes \<Rightarrow> handle_routes sv w
      | Ep_route_reliability rid \<Rightarrow> handle_route_reliability sv rid w
      | Ep_feedinfo \<Rightarrow> handle_feedinfo sv w
      | Ep_vapid_public_key \<Rightarrow> handle_vapid_public_key sv w
      | Ep_subscribe \<Rightarrow> handle_subscribe sv rq w
      | Ep_unsubscribe \<Rightarrow> handle_unsubscribe sv rq w
      | Ep_api_unknown \<Rightarrow> (write_error 404 ''not found'', w)
      | Ep_api_redirect \<Rightarrow> (redirect_to ''/api/'', w)
      | Ep_healthz \<Rightarrow> handle_healthz sv w
      | Ep_metrics \<Rightarrow> (gl_metrics_page (sv_lib sv) (sys_metrics w), w)
      | Ep_stop_page \<Rightarrow> (handle_stop_page sv rq, w)
      | Ep_static \<Rightarrow> (handle_static sv rq, w))"

section \<open>Requests that read\<close>

text \<open>
  What the API relies on: every query answers from a state it leaves as it was, which
  \<open>same\<close> says.
\<close>

locale read_only =
  fixes q :: "'s stop_queries" and same :: "'s sys \<Rightarrow> 's sys \<Rightarrow> bool"
  assumes same_refl: "same w w"
    and same_trans: "same u v \<Longrightarrow> same v w \<Longrightarrow> same u w"
    and search_same: "sq_search_stops q s n w = (r1, w') \<Longrightarrow> same w w'"
    and bbox_same: "sq_stops_in_bbox q a b c d n w = (r2, w') \<Longrightarrow> same w w'"
    and stop_same: "sq_stop q i w = (r3, w') \<Longrightarrow> same w w'"
    and routes_same: "sq_routes q w = (r4, w') \<Longrightarrow> same w w'"
    and route_same: "sq_route q i w = (r5, w') \<Longrightarrow> same w w'"
    and serving_same: "sq_routes_serving_stop q i w = (r6, w') \<Longrightarrow> same w w'"
    and stop_hourly_same: "sq_stop_hourly q i w = (r7, w') \<Longrightarrow> same w w'"
    and departures_same: "sq_stop_departures q i w = (r8, w') \<Longrightarrow> same w w'"
    and route_hourly_same: "sq_route_hourly q i w = (r9, w') \<Longrightarrow> same w w'"
begin

lemma look_up_same:
  assumes "look_up what r k = (rp, w')" and "same w (snd r)" and "\<And>x u v rp. k x u = (rp, v) \<Longrightarrow> same u v"
  shows "same w w'"
proof -
  obtain x u where r: "r = (x, u)" by force
  then show ?thesis using assms same_trans by (cases x) (auto simp: look_up_def split: if_splits)
qed

lemma or_fail_same:
  assumes "or_fail r k = (rp, w')" and "same w (snd r)" and "\<And>x u v rp. k x u = (rp, v) \<Longrightarrow> same u v"
  shows "same w w'"
proof -
  obtain x u where r: "r = (x, u)" by force
  then show ?thesis using assms same_trans by (cases x) (auto simp: or_fail_def)
qed

lemma stop_snd: "same w (snd (sq_stop q i w))" using stop_same by (metis prod.collapse)
lemma route_snd: "same w (snd (sq_route q i w))" using route_same by (metis prod.collapse)
lemma routes_snd: "same w (snd (sq_routes q w))" using routes_same by (metis prod.collapse)
lemma serving_snd: "same w (snd (sq_routes_serving_stop q i w))" using serving_same by (metis prod.collapse)
lemma stop_hourly_snd: "same w (snd (sq_stop_hourly q i w))" using stop_hourly_same by (metis prod.collapse)
lemma departures_snd: "same w (snd (sq_stop_departures q i w))" using departures_same by (metis prod.collapse)
lemma route_hourly_snd: "same w (snd (sq_route_hourly q i w))" using route_hourly_same by (metis prod.collapse)

lemmas reads_snd = stop_snd route_snd routes_snd serving_snd stop_hourly_snd departures_snd route_hourly_snd

lemma handle_stops_same:
  assumes [simp]: "sv_q sv = q"
  shows "handle_stops sv rq w = (rp, w') \<Longrightarrow> same w w'"
  by (auto simp: handle_stops_def Let_def same_refl dest: search_same bbox_same
      split: if_splits sum.splits prod.splits)

lemma handle_stop_same:
  assumes [simp]: "sv_q sv = q"
  shows "handle_stop sv i w = (rp, w') \<Longrightarrow> same w w'"
  unfolding handle_stop_def
  by (erule look_up_same) (auto simp: reads_snd same_refl elim!: or_fail_same)

lemma handle_upcoming_same:
  assumes [simp]: "sv_q sv = q"
  shows "handle_upcoming sv i w = (rp, w') \<Longrightarrow> same w w'"
  unfolding handle_upcoming_def
  by (auto simp: reads_snd dest: serving_same elim!: look_up_same split: prod.splits)

lemma handle_stop_reliability_same:
  assumes [simp]: "sv_q sv = q"
  shows "handle_stop_reliability sv i w = (rp, w') \<Longrightarrow> same w w'"
  unfolding handle_stop_reliability_def
  by (erule look_up_same) (auto simp: reads_snd dest: serving_same elim!: or_fail_same split: prod.splits)

lemma handle_routes_same:
  assumes [simp]: "sv_q sv = q"
  shows "handle_routes sv w = (rp, w') \<Longrightarrow> same w w'"
  unfolding handle_routes_def by (erule or_fail_same) (auto simp: reads_snd same_refl)

lemma handle_route_reliability_same:
  assumes [simp]: "sv_q sv = q"
  shows "handle_route_reliability sv i w = (rp, w') \<Longrightarrow> same w w'"
  unfolding handle_route_reliability_def
  by (erule look_up_same) (auto simp: reads_snd same_refl elim!: or_fail_same)

lemmas handlers_same = handle_stops_same handle_stop_same handle_upcoming_same handle_stop_reliability_same
  handle_routes_same handle_route_reliability_same

lemma serve_request_same:
  assumes q: "sv_q sv = q" and "serve_request sv rq w = (rp, w')"
    and "endpoint_of rq \<noteq> Ep_subscribe" "endpoint_of rq \<noteq> Ep_unsubscribe"
  shows "same w w'"
  using assms(2-)
  by (cases "endpoint_of rq")
    (auto simp: serve_request_def same_refl handle_vehicles_def handle_feedinfo_def handle_healthz_def
      handle_vapid_public_key_def dest: handlers_same [OF q])

end

lemma list_query_only: "list_query op q w = (r, w') \<Longrightarrow> only_faults w w'"
  by (auto simp: list_query_def run_query_def dest!: db_query_only active_version_id_only
      intro: only_faults_trans split: prod.splits sum.splits if_splits)

lemma rollup_query_only: "rollup_query op q w = (r, w') \<Longrightarrow> only_faults w w'"
  by (auto simp: rollup_query_def rollup_version_id_def run_query_def dest!: db_query_only active_version_id_only
      intro: only_faults_trans split: prod.splits sum.splits if_splits)

lemma run_query_only: "run_query op q w = (r, w') \<Longrightarrow> only_faults w w'"
  by (auto simp: run_query_def dest: db_query_only split: prod.splits sum.splits)

interpretation pg_reads: read_only "store_queries collate go_lower pg_lower" only_faults
  for collate go_lower pg_lower
  by unfold_locales
    (auto simp: store_queries_def search_stops_def stops_in_bbox_def query_stop_def query_routes_def
      query_route_def routes_serving_stop_def stop_hourly_def stop_departures_def route_hourly_def
      dest: list_query_only rollup_query_only run_query_only row_query_only intro: only_faults_trans)

text \<open>
  C28: only the two operations on subscriptions write. Whatever the method, path, query and
  body of any other request and however the database fails, the tables, the caches and the
  metrics are afterwards what they were.
\<close>

theorem other_requests_read_only:
  assumes "sv_q sv = store_queries collate go_lower pg_lower" and "serve_request sv rq w = (rp, w')"
    and "endpoint_of rq \<noteq> Ep_subscribe" and "endpoint_of rq \<noteq> Ep_unsubscribe"
  shows "\<exists>f. w' = on_db (\<lambda>d. d\<lparr>db_faults := f\<rparr>) w"
  using pg_reads.serve_request_same [OF assms] by (simp add: only_faults_def)

section \<open>What a subscription is worth\<close>

text \<open>What the checks promise of a row: a push endpoint, keys, a stop, a direction and bounds.\<close>

definition valid_row :: "go_lib \<Rightarrow> subscription_row \<Rightarrow> bool" where
  "valid_row lib r \<longleftrightarrow> https_url (gl_parse_url lib) (rb_endpoint r) \<and> rb_p256dh r \<noteq> [] \<and> rb_auth r \<noteq> [] \<and>
     rb_stop_id r \<noteq> [] \<and> rb_direction_id r \<in> {- 1, 0, 1} \<and> 60 \<le> rb_threshold_secs r \<and> rb_threshold_secs r \<le> 3600"

abbreviation rows_valid :: "go_lib \<Rightarrow> db \<Rightarrow> bool" where
  "rows_valid lib d \<equiv> list_all (\<lambda>(i, r). valid_row lib r) (db_subscriptions d)"

definition stored_as :: "subscription \<Rightarrow> subscription_row \<Rightarrow> bool" where
  "stored_as s r \<longleftrightarrow> rb_endpoint r = sub_endpoint s \<and> rb_p256dh r = sub_p256dh s \<and> rb_auth r = sub_auth s \<and>
     rb_stop_id r = sub_stop_id s \<and> rb_route_id r = sub_route_id s \<and> rb_direction_id r = sub_direction_id s \<and>
     rb_threshold_secs r = sub_threshold_secs s \<and> rb_failure_count r = 0"

lemma check_request_valid:
  assumes "check_request lib req = Inr s"
  shows "(\<forall>r. stored_as s r \<longrightarrow> valid_row lib r) \<and> in_range 16 (sub_direction_id s) \<and> in_range 32 (sub_threshold_secs s)"
proof -
  obtain d where d: "d \<in> {- 1, 0, 1}" "s = request_subscription req d"
    and req: "https_url (gl_parse_url lib) (su_endpoint req)" "su_p256dh req \<noteq> []" "su_auth req \<noteq> []" "su_stop_id req \<noteq> []"
    using assms by (auto simp: check_request_def split: if_splits option.splits)
  have dir: "in_range 16 d" using d(1) by (auto simp: in_range_def)
  have bounds: "60 \<le> sub_threshold_secs s" "sub_threshold_secs s \<le> 3600"
    by (simp_all add: d(2) request_subscription_def split: option.split)
  then have "in_range 32 (sub_threshold_secs s)" by (simp add: in_range_def)
  moreover have "valid_row lib r" if "stored_as s r" for r
    using that bounds d req by (simp add: stored_as_def valid_row_def request_subscription_def)
  ultimately show ?thesis using dir by (simp add: d(2) request_subscription_def)
qed

abbreviation others :: "string \<Rightarrow> db \<Rightarrow> (int \<times> subscription_row) list" where
  "others endpoint d \<equiv> filter (\<lambda>(i, r). rb_endpoint r \<noteq> endpoint) (db_subscriptions d)"

lemma find_endpoint_put:
  assumes "find_endpoint e t = Some (i, r)" and "al_wf t" and "rb_endpoint r' = e"
  shows "find_endpoint e (al_put i r' t) = Some (i, r') \<and>
    filter (\<lambda>(i, r). rb_endpoint r \<noteq> e) (al_put i r' t) = filter (\<lambda>(i, r). rb_endpoint r \<noteq> e) t"
  using assms
proof (induction t)
  case (Cons x t)
  obtain j y where x: "x = (j, y)" by force
  show ?case
  proof (cases "rb_endpoint y = e")
    case True
    then show ?thesis using Cons.prems by (auto simp: x find_endpoint_def)
  next
    case False
    then have f: "find_endpoint e t = Some (i, r)" using Cons.prems(1) by (simp add: x find_endpoint_def)
    then have "i \<in> fst ` set t" using find_endpoint_Some by force
    then have "i \<noteq> j" using Cons.prems(2) by (auto simp: x al_wf_def)
    then show ?thesis using False Cons.IH [OF f] Cons.prems by (simp add: x find_endpoint_def al_wf_def)
  qed
qed (simp add: find_endpoint_def)

text \<open>Everything of a database but the subscriptions, their sequence and the faults.\<close>

definition besides_subscriptions :: "db \<Rightarrow> db" where
  "besides_subscriptions d = d\<lparr>db_subscriptions := [], db_subscription_seq := 0, db_faults := []\<rparr>"

lemma find_snoc: "find P xs = None \<Longrightarrow> find P (xs @ [x]) = (if P x then Some x else None)"
  by (induction xs) (auto split: if_splits)

lemma save_stmt_exact:
  assumes "save_stmt s d = Inr (d', i)" and "subs_ok d"
  shows "(\<exists>r. find_endpoint (sub_endpoint s) (db_subscriptions d') = Some (i, r) \<and> stored_as s r) \<and>
    others (sub_endpoint s) d' = others (sub_endpoint s) d \<and>
    besides_subscriptions d' = besides_subscriptions d"
proof (cases "find_endpoint (sub_endpoint s) (db_subscriptions d)")
  case None
  then show ?thesis using assms(1)
    by (auto simp: save_stmt_def find_endpoint_def stored_as_def besides_subscriptions_def find_snoc split: if_splits)
next
  case (Some x)
  obtain j r where x: "x = (j, r)" by force
  define r' where "r' = r\<lparr>rb_p256dh := sub_p256dh s, rb_auth := sub_auth s, rb_stop_id := sub_stop_id s,
      rb_route_id := sub_route_id s, rb_direction_id := sub_direction_id s,
      rb_threshold_secs := sub_threshold_secs s, rb_failure_count := 0\<rparr>"
  have e: "rb_endpoint r = sub_endpoint s" using find_endpoint_Some [OF Some [unfolded x]] by simp
  have d': "d' = d\<lparr>db_subscriptions := al_put j r' (db_subscriptions d),
      db_subscription_seq := db_subscription_seq d + 1\<rparr>" "i = j"
    using assms(1) Some x by (auto simp: save_stmt_def r'_def split: if_splits)
  have "al_wf (db_subscriptions d)" using assms(2) by (simp add: subs_ok_def)
  from find_endpoint_put [OF Some [unfolded x] this, of r'] show ?thesis
    by (simp add: d' r'_def e stored_as_def besides_subscriptions_def)
qed

lemma rows_valid_others:
  assumes "others e d' = others e d" and "rows_valid lib d" and "\<And>i r. (i, r) \<in> set (db_subscriptions d') \<Longrightarrow> rb_endpoint r = e \<Longrightarrow> valid_row lib r"
  shows "rows_valid lib d'"
proof -
  have "valid_row lib r" if "(i, r) \<in> set (db_subscriptions d')" for i r
  proof (cases "rb_endpoint r = e")
    case False
    then have "(i, r) \<in> set (others e d')" using that by simp
    then show ?thesis using assms(2) unfolding assms(1) by (auto simp: list_all_iff)
  qed (use assms(3) that in blast)
  then show ?thesis by (auto simp: list_all_iff)
qed

lemma find_endpoint_unique:
  assumes "find_endpoint e t = Some (i, r)" and "distinct (map (\<lambda>(i, r). rb_endpoint r) t)"
    and "(j, x) \<in> set t" and "rb_endpoint x = e"
  shows "j = i \<and> x = r"
proof -
  have "(i, r) \<in> set t" "rb_endpoint r = e" using find_endpoint_Some [OF assms(1)] by auto
  then have "(j, x) = (i, r)" using assms(2-4)
    by (intro inj_onD [of "\<lambda>(i, r). rb_endpoint r" "set t"]) (simp_all add: distinct_map)
  then show ?thesis by simp
qed

lemma save_stmt_valid:
  assumes "save_stmt s d = Inr (d', i)" and ok: "subs_ok d" and "rows_valid lib d"
    and "\<And>r. stored_as s r \<Longrightarrow> valid_row lib r"
  shows "rows_valid lib d' \<and> subs_ok d'"
proof -
  have ok': "subs_ok d'" using save_stmt_step [OF assms(1)] ok by (simp add: subs_step_def)
  obtain r where r: "find_endpoint (sub_endpoint s) (db_subscriptions d') = Some (i, r)" "stored_as s r"
    and o: "others (sub_endpoint s) d' = others (sub_endpoint s) d"
    using save_stmt_exact [OF assms(1) ok] by blast
  have "rows_valid lib d'"
  proof (rule rows_valid_others [OF o assms(3)])
    show "valid_row lib x" if "(j, x) \<in> set (db_subscriptions d')" "rb_endpoint x = sub_endpoint s" for j x
      using find_endpoint_unique [OF r(1) _ that] ok' r(2) assms(4) by (simp add: subs_ok_def)
  qed
  then show ?thesis using ok' by simp
qed

abbreviation over_store :: "(string \<Rightarrow> string) \<Rightarrow> (string \<Rightarrow> string) \<Rightarrow> (string \<Rightarrow> string) \<Rightarrow> store server \<Rightarrow> bool" where
  "over_store collate go_lower pg_lower sv \<equiv>
     sv_q sv = store_queries collate go_lower pg_lower \<and> sv_subs sv = store_subscriptions"

lemma only_faults_db: "only_faults w w' \<Longrightarrow> \<exists>f. sys_db w' = (sys_db w)\<lparr>db_faults := f\<rparr>"
  by (auto simp: only_faults_def)

lemma query_stop_only: "query_stop i w = (r, w') \<Longrightarrow> only_faults w w'"
  unfolding query_stop_def by (rule row_query_only)

definition good_rows :: "go_lib \<Rightarrow> store sys \<Rightarrow> bool" where
  "good_rows lib w \<longleftrightarrow> rows_valid lib (sys_db w) \<and> subs_ok (sys_db w)"

lemma subs_ok_faults [simp]: "subs_ok (d\<lparr>db_faults := f\<rparr>) = subs_ok d"
  by (simp add: subs_ok_def)

lemma good_rows_only: "only_faults w w' \<Longrightarrow> good_rows lib w' = good_rows lib w"
  by (auto simp: good_rows_def dest!: only_faults_db)

lemma save_subscription_good:
  assumes "save_subscription s w = (r, w')" and "good_rows lib w" and "\<And>r. stored_as s r \<Longrightarrow> valid_row lib r"
  shows "good_rows lib w'"
proof -
  obtain x w1 where run: "db_run (save_stmt s) w = (x, w1)" by (metis surj_pair)
  then have "w' = w1" using assms(1) by (auto simp: save_subscription_def split: sum.splits)
  moreover have "good_rows lib w1"
    using db_run_effect [OF run] assms(2) save_stmt_valid [OF _ _ _ assms(3)]
    by (auto simp: good_rows_def)
  ultimately show ?thesis by simp
qed

lemma delete_subscription_good:
  assumes "delete_subscription e w = (r, w')" and "good_rows lib w"
  shows "good_rows lib w'"
proof -
  let ?stmt = "delete_subscriptions (\<lambda>(i, r). rb_endpoint r = e)"
  obtain x w1 where ex: "db_exec ?stmt w = (x, w1)" by (metis surj_pair)
  then have "w' = w1" using assms(1) by (auto simp: delete_subscription_def split: sum.splits)
  moreover have "subs_ok (fst (?stmt (sys_db w))) \<and> rows_valid lib (fst (?stmt (sys_db w)))"
    using assms(2) delete_subscriptions_step [where p = "\<lambda>(i, r). rb_endpoint r = e" and d = "sys_db w"]
    by (auto simp: good_rows_def subs_step_def delete_subscriptions_def Let_def list_all_iff)
  ultimately show ?thesis
    using db_exec_effect [OF ex] assms(2) by (auto simp: good_rows_def)
qed

text \<open>What a request may do to the tables.\<close>

lemma request_writes:
  assumes sv: "over_store collate go_lower pg_lower sv" and run: "serve_request sv rq w = (rp, w')"
  obtains "only_faults w w'"
    | e x where "delete_subscription e w = (x, w')"
    | req sub w1 x where "check_request (sv_lib sv) req = Inr sub" "only_faults w w1" "save_subscription sub w1 = (x, w')"
proof -
  consider "endpoint_of rq = Ep_subscribe" | "endpoint_of rq = Ep_unsubscribe"
    | "endpoint_of rq \<noteq> Ep_subscribe" "endpoint_of rq \<noteq> Ep_unsubscribe" by blast
  then show ?thesis
  proof cases
    case 1
    then have h: "handle_subscribe sv rq w = (rp, w')" using run by (simp add: serve_request_def)
    have q: "sq_stop (sv_q sv) = query_stop" "ss_save (sv_subs sv) = save_subscription"
      using sv by (simp_all add: store_queries_def store_subscriptions_def)
    consider "w' = w" | r i where "query_stop i w = (r, w')"
      | s r w1 x where "check_request (sv_lib sv) s = Inr r" "query_stop (sub_stop_id r) w = (Inr x, w1)"
        "w' = snd (save_subscription r w1)"
      using h by (auto simp: handle_subscribe_def q look_up_def or_fail_def split: sum.splits prod.splits if_splits)
    then show ?thesis
      using that query_stop_only by cases (auto simp: prod_eq_iff, metis prod.collapse)
  next
    case 2
    then have h: "handle_unsubscribe sv rq w = (rp, w')" using run by (simp add: serve_request_def)
    have "w' = w \<or> (\<exists>e x. delete_subscription e w = (x, w'))"
      using h sv by (auto simp: handle_unsubscribe_def store_subscriptions_def
          split: sum.splits prod.splits if_splits option.splits)
    then show ?thesis using that by auto
  next
    case 3
    then show ?thesis using pg_reads.serve_request_same [OF _ run] sv that by blast
  qed
qed

text \<open>
  C19: the table of subscriptions never holds a row that the API would refuse. Whatever
  requests come, and however the database fails, every row has an \<open>https\<close> endpoint, both
  keys, a stop, a direction of -1, 0 or 1 and a threshold between one minute and one hour,
  and the ids and endpoints stay unique.
\<close>

theorem subscriptions_stay_valid:
  assumes sv: "over_store collate go_lower pg_lower sv" and good: "good_rows (sv_lib sv) w"
    and run: "serve_request sv rq w = (rp, w')"
  shows "good_rows (sv_lib sv) w'"
  using request_writes [OF sv run]
proof cases
  case 1
  then show ?thesis using good good_rows_only by blast
next
  case (2 e x)
  then show ?thesis using good delete_subscription_good by blast
next
  case (3 req sub w1 x)
  then have "good_rows (sv_lib sv) w1" using good good_rows_only by blast
  then show ?thesis using save_subscription_good [OF 3(3)] check_request_valid [OF 3(1)] by blast
qed

section \<open>Subscribing\<close>

definition stop_known :: "string \<Rightarrow> db \<Rightarrow> bool" where
  "stop_known i d \<longleftrightarrow> (case db_active d of None \<Rightarrow> False | Some ver \<Rightarrow> stop_row_of i (sv_id ver) d \<noteq> None)"

abbreviation subscribe_request_of :: "'s server \<Rightarrow> request \<Rightarrow> body_error + subscribe_request" where
  "subscribe_request_of sv rq \<equiv>
     decode_strict (gl_json (sv_lib sv)) (decode_struct subscribe_fields) zero_request (rq_body rq)"

abbreviation unsubscribe_request_of :: "'s server \<Rightarrow> request \<Rightarrow> body_error + string" where
  "unsubscribe_request_of sv rq \<equiv>
     decode_strict (gl_json (sv_lib sv)) (decode_struct [(''endpoint'', string_field (\<lambda>s r. s))]) [] (rq_body rq)"

lemma on_db_up: "db_faults (sys_db w) = [] \<Longrightarrow> on_db drop_fault w = w"
  by (simp add: on_db_def)

lemma query_stop_up:
  assumes "db_faults (sys_db w) = []"
  shows "query_stop i w =
    (if stop_known i (sys_db w) then (fst (query_stop i w), w) else (Inl (projl (fst (query_stop i w))), w)) \<and>
    (stop_known i (sys_db w) \<longrightarrow> (\<exists>s. fst (query_stop i w) = Inr s)) \<and>
    (\<not> stop_known i (sys_db w) \<longrightarrow> errors_is (projl (fst (query_stop i w))) Not_found)"
  using assms
  by (auto simp: query_stop_def row_query_def active_version_id_def db_query_def next_fault_def on_db_up
      stop_known_def db_active_def version_of_row_def stop_row_of_def split: option.splits)

lemma save_subscription_up:
  assumes "db_faults (sys_db w) = []" and "in_range 16 (sub_direction_id s)" "in_range 32 (sub_threshold_secs s)"
  shows "\<exists>d i. save_stmt s (sys_db w) = Inr (d, i) \<and> save_subscription s w = (Inr i, on_db (\<lambda>_. d) w)"
proof -
  obtain d i where st: "save_stmt s (sys_db w) = Inr (d, i)" and f: "db_faults d = []"
  proof (cases "find_endpoint (sub_endpoint s) (db_subscriptions (sys_db w))")
    case None
    then show thesis using that assms by (simp add: save_stmt_def)
  next
    case (Some x)
    then show thesis using that assms by (cases x) (simp add: save_stmt_def)
  qed
  then have "on_db (\<lambda>d. drop_fault (case save_stmt s d of Inl e \<Rightarrow> d | Inr (d', x) \<Rightarrow> d')) w = on_db (\<lambda>_. d) w"
    by (simp add: on_db_def)
  then show ?thesis using assms(1) st by (simp add: save_subscription_def db_run_def Let_def next_fault_def)
qed

lemma subscribe_steps:
  assumes sv: "over_store collate go_lower pg_lower sv" and up: "db_faults (sys_db w) = []"
    and req: "subscribe_request_of sv rq = Inr req" "check_request (sv_lib sv) req = Inr sub"
    and run: "handle_subscribe sv rq w = (rp, w')"
  shows "if stop_known (sub_stop_id sub) (sys_db w)
    then \<exists>d i. save_stmt sub (sys_db w) = Inr (d, i) \<and> w' = on_db (\<lambda>_. d) w \<and>
      rp = write_json 201 (J_obj [(''id'', J_int i)])
    else w' = w \<and> rp = write_error 404 ''stop not found''"
proof -
  have q: "sq_stop (sv_q sv) = query_stop" "ss_save (sv_subs sv) = save_subscription"
    using sv by (simp_all add: store_queries_def store_subscriptions_def)
  note stop = query_stop_up [OF up, of "sub_stop_id sub"]
  have ranges: "in_range 16 (sub_direction_id sub)" "in_range 32 (sub_threshold_secs sub)"
    using check_request_valid [OF req(2)] by blast+
  show ?thesis
  proof (cases "stop_known (sub_stop_id sub) (sys_db w)")
    case True
    then obtain s where "query_stop (sub_stop_id sub) w = (Inr s, w)" using stop by (metis prod.collapse fst_conv)
    then show ?thesis using run True save_subscription_up [OF up ranges]
      by (auto simp: handle_subscribe_def req q look_up_def or_fail_def)
  next
    case False
    then obtain e where "query_stop (sub_stop_id sub) w = (Inl e, w)" "errors_is e Not_found"
      using stop by (metis sum.sel(1) fst_conv)
    then show ?thesis using run False by (auto simp: handle_subscribe_def req q look_up_def)
  qed
qed

text \<open>
  C29: a request that passes the checks is stored as it was given. While the database is up
  the answer is 201 exactly if the active schedule has the stop; then the endpoint has one row
  with the values of the request, under the id of the answer, and all other rows and tables
  are as before. Otherwise the answer is 404 and nothing has changed.
\<close>

theorem subscribe_effect:
  assumes sv: "over_store collate go_lower pg_lower sv" and up: "db_faults (sys_db w) = []"
    and ok: "subs_ok (sys_db w)"
    and req: "subscribe_request_of sv rq = Inr req" "check_request (sv_lib sv) req = Inr sub"
    and run: "handle_subscribe sv rq w = (rp, w')"
  shows "if stop_known (sub_stop_id sub) (sys_db w)
    then rp_status rp = 201 \<and>
      (\<exists>i r. find_endpoint (sub_endpoint sub) (db_subscriptions (sys_db w')) = Some (i, r) \<and> stored_as sub r \<and>
         rp_body rp = Json (J_obj [(''id'', J_int i)])) \<and>
      others (sub_endpoint sub) (sys_db w') = others (sub_endpoint sub) (sys_db w) \<and>
      besides_subscriptions (sys_db w') = besides_subscriptions (sys_db w)
    else rp_status rp = 404 \<and> w' = w"
  using subscribe_steps [OF sv up req run] save_stmt_exact [OF _ ok]
  by (auto simp: write_json_def split: if_splits)

text \<open>
  Unsubscribing takes a new subscription back. After the endpoint was not known, was
  subscribed and is unsubscribed, the answer is 204 and the tables are as they were; only the
  sequence of ids has moved.
\<close>

theorem subscribe_unsubscribe:
  assumes sv: "over_store collate go_lower pg_lower sv" and up: "db_faults (sys_db w) = []"
    and ok: "subs_ok (sys_db w)" and new: "find_endpoint (sub_endpoint sub) (db_subscriptions (sys_db w)) = None"
    and req: "subscribe_request_of sv rq = Inr req" "check_request (sv_lib sv) req = Inr sub"
    and sub: "handle_subscribe sv rq w = (rp, w1)" "rp_status rp = 201"
    and unsub: "unsubscribe_request_of sv rq' = Inr (sub_endpoint sub)" "sub_endpoint sub \<noteq> []"
      "handle_unsubscribe sv rq' w1 = (rp', w2)"
  shows "rp_status rp' = 204 \<and> db_subscriptions (sys_db w2) = db_subscriptions (sys_db w) \<and>
    besides_subscriptions (sys_db w2) = besides_subscriptions (sys_db w)"
proof -
  let ?p = "\<lambda>(i, r). rb_endpoint r = sub_endpoint sub"
  obtain d i where st: "save_stmt sub (sys_db w) = Inr (d, i)" and w1: "w1 = on_db (\<lambda>_. d) w"
    using subscribe_steps [OF sv up req sub(1)] sub(2) by (auto split: if_splits)
  obtain r where d: "db_subscriptions d = db_subscriptions (sys_db w) @ [(db_subscription_seq (sys_db w), r)]"
      "rb_endpoint r = sub_endpoint sub" "db_faults d = []" "db_push_sent d = db_push_sent (sys_db w)"
    and rest: "besides_subscriptions d = besides_subscriptions (sys_db w)"
    using st new up by (auto simp: save_stmt_def besides_subscriptions_def split: if_splits)
  have old: "filter (\<lambda>x. \<not> ?p x) (db_subscriptions (sys_db w)) = db_subscriptions (sys_db w)"
    "filter ?p (db_subscriptions (sys_db w)) = []"
    using find_endpoint_None [OF new] by (force simp: filter_id_conv filter_empty_conv)+
  have sent: "filter (\<lambda>(j, k). j \<noteq> db_subscription_seq (sys_db w)) (db_push_sent (sys_db w)) = db_push_sent (sys_db w)"
    using ok by (force simp: subs_ok_def filter_id_conv)
  have del: "delete_subscriptions ?p d = (d\<lparr>db_subscriptions := db_subscriptions (sys_db w)\<rparr>, 1)"
    using d old sent by (simp add: delete_subscriptions_def)
  have "delete_subscription (sub_endpoint sub) w1 = (None, on_db (\<lambda>d. drop_fault (fst (delete_subscriptions ?p d))) w1)"
    using del d(3) by (simp add: delete_subscription_def db_exec_def next_fault_def w1)
  then have "rp_status rp' = 204" "sys_db w2 = drop_fault (fst (delete_subscriptions ?p d))"
    using unsub sv by (auto simp: handle_unsubscribe_def store_subscriptions_def w1)
  then show ?thesis using rest by (simp add: del besides_subscriptions_def)
qed

section \<open>Bodies\<close>

text \<open>
  Trailing data is not refused as \<open>decodeStrict\<close> means to. A body whose value is
  followed by a closing bracket, and by anything behind it, however long, is accepted like
  the value alone: \<open>More\<close> takes the bracket for the end of an array.
\<close>

theorem trailing_bracket_accepted:
  assumes "scan (take max_subscription_body body) = Scanned v (b # rest)" and "b \<in> {CHR '']'', CHR ''}''}"
    and "target v zero = (r, None)"
  shows "decode_strict scan target zero body = Inr r"
proof -
  have "\<not> json_space b" using assms(2) by (auto simp: json_space_def byte_def)
  then show ?thesis using assms by (auto simp: decode_strict_def decoder_more_def)
qed

section \<open>Boxes\<close>

lemma parse_numbers_length: "parse_numbers pf ps = Inr vs \<Longrightarrow> length vs = length ps"
  by (induction ps arbitrary: vs) (auto split: option.splits sum.splits)

text \<open>
  The box that reaches the database lies on the globe, with its corners in order, unless
  a coordinate is NaN: no comparison holds of NaN, so none refuses it.
\<close>

theorem parse_bbox_bounds:
  assumes "parse_bbox pf raw = Inr (min_lon, min_lat, max_lon, max_lat)"
  shows "(f64_nan min_lon \<or> f64_key f64_m180 \<le> f64_key min_lon) \<and> (f64_nan max_lon \<or> f64_key max_lon \<le> f64_key f64_180) \<and>
    (f64_nan min_lat \<or> f64_key f64_m90 \<le> f64_key min_lat) \<and> (f64_nan max_lat \<or> f64_key max_lat \<le> f64_key f64_90) \<and>
    (f64_nan min_lon \<or> f64_nan max_lon \<or> f64_key min_lon \<le> f64_key max_lon) \<and>
    (f64_nan min_lat \<or> f64_nan max_lat \<or> f64_key min_lat \<le> f64_key max_lat)"
proof -
  have numbers: "\<not> f64_nan f64_m180" "\<not> f64_nan f64_180" "\<not> f64_nan f64_m90" "\<not> f64_nan f64_90"
    by (simp_all add: f64_nan_def f64_magnitude_def f64_m180_def f64_180_def f64_m90_def f64_90_def)
  show ?thesis
    using assms numbers by (auto simp: parse_bbox_def Let_def f64_less_def split: if_splits sum.splits)
qed

section \<open>Files\<close>

lemma split_on_join_path:
  assumes "ps \<noteq> []" and "list_all (\<lambda>p. CHR ''/'' \<notin> set p) ps"
  shows "split_on (CHR ''/'') (join_path ps) = ps"
  using assms
proof (induction ps rule: join_path.induct)
  case (3 p q ps)
  then show ?case by (simp add: split_on_app split_on_single)
qed (simp_all add: split_on_single)

abbreviation plain_part :: "string \<Rightarrow> bool" where
  "plain_part p \<equiv> p \<noteq> [] \<and> p \<noteq> ''.'' \<and> p \<noteq> ''..''"

lemma clean_parts_plain:
  assumes "list_all (\<lambda>p. plain_part p \<and> c \<notin> set p) stack" and "list_all (\<lambda>p. c \<notin> set p) ps"
  shows "list_all (\<lambda>p. plain_part p \<and> c \<notin> set p) (clean_parts ps stack)"
  using assms
proof (induction ps stack rule: clean_parts.induct)
  case (2 p ps stack)
  have "list_all (\<lambda>p. plain_part p \<and> c \<notin> set p) (tl stack)" using 2(4) by (cases stack) auto
  then show ?case using 2 by auto
qed simp

text \<open>
  No path leads out of the embedded files. Whatever the request asks for, dots, empty
  elements and parents included, the name that is looked up is made of proper elements, so
  that \<open>fs.ValidPath\<close> refuses nothing but what is not UTF-8, and what is served is the
  content of one of the files.
\<close>

theorem static_files_only:
  "(\<forall>path. list_all plain_part (split_on (CHR ''/'') (static_name path)) \<and>
      (valid_path (static_name path) \<longleftrightarrow> utf8_valid (static_name path))) \<and>
   (\<forall>content. rp_body (handle_static sv rq) = Bytes content \<longrightarrow> content \<in> snd ` set (sf_files (sv_static sv)))"
proof -
  have parts: "list_all plain_part (split_on (CHR ''/'') (static_name path))" for path
  proof -
    let ?ps = "clean_parts (split_on (CHR ''/'') path) []"
    have "list_all (\<lambda>p. CHR ''/'' \<notin> set p) (split_on (CHR ''/'') path)"
      using split_on_parts by (auto simp: list_all_iff)
    then have ps: "list_all (\<lambda>p. plain_part p \<and> CHR ''/'' \<notin> set p) ?ps" by (intro clean_parts_plain) simp_all
    show ?thesis
    proof (cases "?ps = []")
      case True
      moreover have "split_on (CHR ''/'') ''index.html'' = [''index.html'']" by code_simp
      ultimately show ?thesis by (simp add: static_name_def)
    next
      case False
      then have "join_path ?ps \<noteq> []" using ps by (cases ?ps rule: join_path.cases) auto
      moreover have "split_on (CHR ''/'') (join_path ?ps) = ?ps"
        using False ps by (intro split_on_join_path) (auto simp: list_all_iff)
      ultimately show ?thesis using ps by (simp add: static_name_def list_all_iff)
    qed
  qed
  moreover have "content \<in> snd ` set (sf_files (sv_static sv))" if "rp_body (serve_static_file sv rq name) = Bytes content" for content name
    using that by (force simp: serve_static_file_def write_error_def write_json_def dest: map_of_SomeD split: option.splits if_splits)
  then have "content \<in> snd ` set (sf_files (sv_static sv))" if "rp_body (handle_static sv rq) = Bytes content" for content
    using that by (auto simp: handle_static_def Let_def write_error_def write_json_def split: if_splits)
  ultimately show ?thesis by (auto simp: valid_path_def)
qed

section \<open>A sample\<close>

text \<open>
  A server over a store with one stop; its scanner knows the two bodies below, its URL parser
  one scheme, its number parser zero and NaN.
\<close>

definition sample_subscribe :: string where
  "sample_subscribe = ''{\"endpoint\":\"https://p/1\",\"keys\":{\"p256dh\":\"k\",\"auth\":\"a\"},\"stop_id\":\"A\"}''"

definition sample_unsubscribe :: string where
  "sample_unsubscribe = ''{\"endpoint\":\"https://p/1\"}''"

definition sample_scan :: "string \<Rightarrow> scanned" where
  "sample_scan s =
     (if has_prefix s sample_subscribe
      then Scanned (J_obj [(''endpoint'', J_str ''https://p/1''),
          (''keys'', J_obj [(''p256dh'', J_str ''k''), (''auth'', J_str ''a'')]), (''stop_id'', J_str ''A'')])
        (drop (length sample_subscribe) s)
      else if has_prefix s sample_unsubscribe
      then Scanned (J_obj [(''endpoint'', J_str ''https://p/1'')]) (drop (length sample_unsubscribe) s)
      else Scan_bad (Message ''invalid character''))"

definition sample_lib :: go_lib where
  "sample_lib =
     \<lparr>gl_lower = (\<lambda>s. s), gl_mime = (\<lambda>_. []),
      gl_parse_float = (\<lambda>s. if s = ''0'' then Some 0 else if s = ''NaN'' then Some 0x7FF8000000000001 else None),
      gl_parse_url = (\<lambda>s. if has_prefix s ''https://'' then Some (''https'', drop 8 s) else None),
      gl_json = sample_scan, gl_metrics_page = (\<lambda>_. write_json 200 J_null)\<rparr>"

definition sample_server :: "store server" where
  "sample_server =
     \<lparr>sv_cfg = fst (load_config (\<lambda>s. Inl (Message s)) (\<lambda>_. [])), sv_q = store_queries (\<lambda>s. s) (\<lambda>s. s) (\<lambda>s. s),
      sv_live = \<lparr>ls_live_vehicles = (\<lambda>_. []), ls_upcoming = (\<lambda>_ _ _. []), ls_feed_age = (\<lambda>_ _. None)\<rparr>,
      sv_subs = store_subscriptions,
      sv_static = \<lparr>sf_files = [(''index.html'', ''<html>''), (''app.js'', ''js'')], sf_dirs = []\<rparr>,
      sv_lib = sample_lib\<rparr>"

definition sample_served :: "store sys" where
  "sample_served = on_db (\<lambda>d. d
     \<lparr>db_versions := [(1, \<lparr>rv_sha256 = ''s'', rv_feed_version = [], rv_agency_tz = ''UTC'', rv_fetched_at = 0,
          rv_loaded_at = Some 0, rv_active = True\<rparr>)],
      db_stops := [((1, ''A''), \<lparr>ro_name = ''Main'', ro_lat = None, ro_lon = None, ro_parent_station = [],
          ro_location_type = 0, ro_platform_code = []\<rparr>)]\<rparr>) (opened_store [])"

definition sample_request :: "string \<Rightarrow> string list \<Rightarrow> string \<Rightarrow> request" where
  "sample_request method segs content =
     \<lparr>rq_method = method, rq_path = CHR ''/'' # join_path segs, rq_segments = segs, rq_query = [], rq_body = content\<rparr>"

abbreviation sample_post :: request where
  "sample_post \<equiv> sample_request ''POST'' [''api'', ''subscriptions''] sample_subscribe"

abbreviation sample_delete :: request where
  "sample_delete \<equiv> sample_request ''DELETE'' [''api'', ''subscriptions''] sample_unsubscribe"

lemma sample_over_store: "over_store (\<lambda>s. s) (\<lambda>s. s) (\<lambda>s. s) sample_server"
  by (simp add: sample_server_def)

lemma sample_served_ok:
  "subs_ok (sys_db sample_served)" "db_faults (sys_db sample_served) = []" "db_subscriptions (sys_db sample_served) = []"
  "rows_valid lib (sys_db sample_served)"
  by (simp_all add: sample_served_def opened_store_def empty_db_def subs_ok_def)

text \<open>The samples are below the limit.\<close>

lemma take_body: "length s \<le> 16384 \<Longrightarrow> take max_subscription_body s = s"
  by (simp add: max_subscription_body_def)

lemma sample_bodies:
  "take max_subscription_body sample_subscribe = sample_subscribe"
  "take max_subscription_body sample_unsubscribe = sample_unsubscribe"
  "take max_subscription_body (sample_unsubscribe @ ''} and more'') = sample_unsubscribe @ ''} and more''"
  by (rule take_body, simp add: sample_subscribe_def sample_unsubscribe_def)+

lemma sample_scans:
  "sample_scan sample_subscribe =
     Scanned (J_obj [(''endpoint'', J_str ''https://p/1''),
       (''keys'', J_obj [(''p256dh'', J_str ''k''), (''auth'', J_str ''a'')]), (''stop_id'', J_str ''A'')]) []"
  "sample_scan sample_unsubscribe = Scanned (J_obj [(''endpoint'', J_str ''https://p/1'')]) []"
  "sample_scan (sample_unsubscribe @ ''} and more'') =
     Scanned (J_obj [(''endpoint'', J_str ''https://p/1'')]) ''} and more''"
  by code_simp+

definition sample_checked_request :: subscribe_request where
  "sample_checked_request =
     \<lparr>su_endpoint = ''https://p/1'', su_p256dh = ''k'', su_auth = ''a'', su_stop_id = ''A'', su_route_id = [],
      su_direction_id = None, su_threshold_secs = None\<rparr>"

lemma sample_decoded:
  "decode_struct subscribe_fields (J_obj [(''endpoint'', J_str ''https://p/1''),
       (''keys'', J_obj [(''p256dh'', J_str ''k''), (''auth'', J_str ''a'')]), (''stop_id'', J_str ''A'')]) zero_request =
     (sample_checked_request, None)"
  "decode_struct [(''endpoint'', string_field (\<lambda>s r. s))] (J_obj [(''endpoint'', J_str ''https://p/1'')]) [] =
     (''https://p/1'', None)"
  by code_simp+

lemma sample_server_sel:
  "gl_json sample_lib = sample_scan" "sv_lib sample_server = sample_lib"
  "rq_body (sample_request m segs content) = content"
  by (simp_all add: sample_server_def sample_lib_def sample_request_def)

lemma sample_checked:
  "subscribe_request_of sample_server sample_post = Inr sample_checked_request"
  "unsubscribe_request_of sample_server sample_delete = Inr ''https://p/1''"
  by (simp_all add: decode_strict_def sample_server_sel sample_bodies sample_scans sample_decoded decoder_more_def)

lemma sample_accepted: "check_request (sv_lib sample_server) sample_checked_request = Inr (request_subscription sample_checked_request (- 1))"
  unfolding sample_server_sel by code_simp

lemma sample_known: "stop_known ''A'' (sys_db sample_served)"
  by code_simp

lemma sample_subscribed:
  "fst (handle_subscribe sample_server sample_post sample_served) = write_json 201 (J_obj [(''id'', J_int 1)])"
  "map fst (db_subscriptions (sys_db (snd (handle_subscribe sample_server sample_post sample_served)))) = [1]"
proof -
  obtain rp w where run: "handle_subscribe sample_server sample_post sample_served = (rp, w)" by (metis surj_pair)
  have seq: "db_subscription_seq (sys_db sample_served) = 1"
    by (simp add: sample_served_def opened_store_def empty_db_def)
  note st = subscribe_steps [OF sample_over_store sample_served_ok(2) sample_checked(1) sample_accepted run]
  have "sub_stop_id (request_subscription sample_checked_request (- 1)) = ''A''"
    by (simp add: request_subscription_def sample_checked_request_def)
  then obtain d i where d: "save_stmt (request_subscription sample_checked_request (- 1)) (sys_db sample_served) = Inr (d, i)"
    and w: "w = on_db (\<lambda>_. d) sample_served" and rp: "rp = write_json 201 (J_obj [(''id'', J_int i)])"
    using st sample_known by auto
  have "i = 1 \<and> map fst (db_subscriptions d) = [1]"
    using d by (auto simp: save_stmt_def find_endpoint_def sample_served_ok(3) seq split: if_splits)
  then show "fst (handle_subscribe sample_server sample_post sample_served) = write_json 201 (J_obj [(''id'', J_int 1)])"
    and "map fst (db_subscriptions (sys_db (snd (handle_subscribe sample_server sample_post sample_served)))) = [1]"
    by (simp_all add: run rp w)
qed

lemma sample_post_endpoint: "endpoint_of sample_post = Ep_subscribe"
  by code_simp

theorem other_requests_read_only_witness:
  "\<exists>f. snd (serve_request sample_server (sample_request ''GET'' [''api'', ''stops'', ''A''] []) sample_served) =
     on_db (\<lambda>d. d\<lparr>db_faults := f\<rparr>) sample_served"
proof -
  have "endpoint_of (sample_request ''GET'' [''api'', ''stops'', ''A''] []) = Ep_stop ''A''" by code_simp
  then show ?thesis
    using other_requests_read_only [of sample_server "\<lambda>s. s" "\<lambda>s. s" "\<lambda>s. s"
        "sample_request ''GET'' [''api'', ''stops'', ''A''] []" sample_served] sample_over_store
    by (metis endpoint.distinct prod.collapse)
qed

theorem subscriptions_stay_valid_witness:
  "list_all (\<lambda>(i, r). valid_row sample_lib r) (db_subscriptions (sys_db (snd (serve_request sample_server sample_post sample_served)))) \<and>
   map fst (db_subscriptions (sys_db (snd (serve_request sample_server sample_post sample_served)))) = [1]"
proof -
  have "serve_request sample_server sample_post sample_served = handle_subscribe sample_server sample_post sample_served"
    unfolding serve_request_def sample_post_endpoint by simp
  moreover have "good_rows (sv_lib sample_server) sample_served" using sample_served_ok by (simp add: good_rows_def)
  then have "good_rows (sv_lib sample_server) (snd (serve_request sample_server sample_post sample_served))"
    using subscriptions_stay_valid [OF sample_over_store] by (metis prod.collapse)
  ultimately show ?thesis using sample_subscribed(2) by (simp add: good_rows_def sample_server_sel)
qed

theorem subscribe_effect_witness:
  "rp_status (fst (handle_subscribe sample_server sample_post sample_served)) = 201 \<and>
   find_endpoint ''https://p/1'' (db_subscriptions (sys_db (snd (handle_subscribe sample_server sample_post sample_served)))) \<noteq> None"
proof -
  obtain rp w where run: "handle_subscribe sample_server sample_post sample_served = (rp, w)" by (metis surj_pair)
  have "sub_stop_id (request_subscription sample_checked_request (- 1)) = ''A''"
    "sub_endpoint (request_subscription sample_checked_request (- 1)) = ''https://p/1''"
    by (simp_all add: request_subscription_def sample_checked_request_def)
  with subscribe_effect [OF sample_over_store sample_served_ok(2,1) sample_checked(1) sample_accepted run]
  show ?thesis using sample_known by (auto simp: run)
qed

theorem subscribe_unsubscribe_witness:
  "rp_status (fst (handle_unsubscribe sample_server sample_delete
      (snd (handle_subscribe sample_server sample_post sample_served)))) = 204"
proof -
  obtain rp w1 where run: "handle_subscribe sample_server sample_post sample_served = (rp, w1)" by (metis surj_pair)
  obtain rp' w2 where run': "handle_unsubscribe sample_server sample_delete w1 = (rp', w2)" by (metis surj_pair)
  have status: "rp_status rp = 201" using sample_subscribed(1) by (simp add: run)
  have e: "sub_endpoint (request_subscription sample_checked_request (- 1)) = ''https://p/1''"
    by (simp add: request_subscription_def sample_checked_request_def)
  have none: "find_endpoint (sub_endpoint (request_subscription sample_checked_request (- 1)))
      (db_subscriptions (sys_db sample_served)) = None"
    by (simp add: sample_served_ok(3) find_endpoint_def)
  from subscribe_unsubscribe [OF sample_over_store sample_served_ok(2,1) none sample_checked(1) sample_accepted run status _ _ run']
  show ?thesis by (simp add: run run' e sample_checked(2))
qed

theorem trailing_bracket_accepted_witness:
  "decode_strict sample_scan (decode_struct [(''endpoint'', string_field (\<lambda>s r. s))]) []
     (sample_unsubscribe @ ''} and more'') = Inr ''https://p/1''"
proof -
  have "sample_scan (take max_subscription_body (sample_unsubscribe @ ''} and more'')) =
      Scanned (J_obj [(''endpoint'', J_str ''https://p/1'')]) (CHR ''}'' # '' and more'')"
    unfolding sample_bodies(3) by (rule sample_scans(3))
  from trailing_bracket_accepted [of sample_scan, OF this _,
      of "decode_struct [(''endpoint'', string_field (\<lambda>s r. s))]" "[]" "''https://p/1''"]
  show ?thesis using sample_decoded(2) by simp
qed

theorem parse_bbox_bounds_witness:
  "case parse_bbox (gl_parse_float sample_lib) ''NaN,0,0,NaN'' of
     Inr (min_lon, min_lat, max_lon, max_lat) \<Rightarrow> f64_nan min_lon \<and> f64_key f64_m90 \<le> f64_key min_lat \<and> f64_nan max_lat
   | Inl e \<Rightarrow> False"
proof -
  have p: "parse_bbox (gl_parse_float sample_lib) ''NaN,0,0,NaN'' = Inr (0x7FF8000000000001, 0, 0, 0x7FF8000000000001)"
    by code_simp
  show ?thesis
    unfolding p using parse_bbox_bounds [OF p] by (simp add: f64_nan_def f64_magnitude_def)
qed

theorem static_files_only_witness:
  "case rp_body (handle_static sample_server (sample_request ''GET'' [''..'', ''secret'', ''..'', ''app.js''] [])) of
     Bytes content \<Rightarrow> content \<in> {''<html>'', ''js''} | _ \<Rightarrow> False"
proof -
  let ?rp = "handle_static sample_server (sample_request ''GET'' [''..'', ''secret'', ''..'', ''app.js''] [])"
  obtain content where c: "rp_body ?rp = Bytes content"
  proof -
    have "case rp_body ?rp of Bytes content \<Rightarrow> True | _ \<Rightarrow> False" by code_simp
    then show thesis using that by (auto split: body.splits)
  qed
  then have "content \<in> snd ` set (sf_files (sv_static sample_server))" using static_files_only by blast
  then have "content = ''<html>'' \<or> content = ''js''" by (simp add: sample_server_def)
  then show ?thesis using c by (auto simp: c)
qed

end
