(* ===== verification/Service.thy ===== *)
theory Service
  imports Push Replay Partitions Static_Load Rollup Api
begin

text \<open>
  \<open>cmd/ridewatch/main.go\<close>: the command line's dates and the replay, the start of the server,
  the nightly jobs, and the server as a whole: one state that the pollers, the tickers and
  the requests change in turn. A step is one run of a handler; the interleaving of two
  handlers between their calls to the database is not modelled.
\<close>

section \<open>Dates on the command line\<close>

text \<open>The numbers of \<open>time.Parse\<close>: four digits, two digits, one or two.\<close>

definition four_digits :: "string \<Rightarrow> (int \<times> string) option" where
  "four_digits s =
     (if length (take 4 s) = 4 \<and> list_all is_digit (take 4 s) then Some (int (digits_val (take 4 s)), drop 4 s) else None)"

definition two_digits :: "string \<Rightarrow> (int \<times> string) option" where
  "two_digits s =
     (if length (take 2 s) = 2 \<and> list_all is_digit (take 2 s) then Some (int (digits_val (take 2 s)), drop 2 s) else None)"

definition hour_digits :: "string \<Rightarrow> (int \<times> string) option" where
  "hour_digits s =
     (case two_digits s of
        Some x \<Rightarrow> Some x
      | None \<Rightarrow> (case s of [] \<Rightarrow> None | c # r \<Rightarrow> if is_digit c then Some (int (digit_val c), r) else None))"

definition scan_ymd :: "string \<Rightarrow> ((int \<times> int \<times> int) \<times> string) option" where
  "scan_ymd s =
     (case four_digits s of
        None \<Rightarrow> None
      | Some (y, s1) \<Rightarrow>
          (case Option.bind (scan_lit (CHR ''-'') s1) two_digits of
             None \<Rightarrow> None
           | Some (m, s2) \<Rightarrow>
               (case Option.bind (scan_lit (CHR ''-'') s2) two_digits of
                  None \<Rightarrow> None
                | Some (d, s3) \<Rightarrow> if valid_civil y m d then Some ((y, m, d), s3) else None)))"

text \<open>\<open>15:04:05\<close> and the fraction of a second that may follow it.\<close>

definition scan_hms :: "string \<Rightarrow> (int \<times> string) option" where
  "scan_hms s =
     (case hour_digits s of
        None \<Rightarrow> None
      | Some (h, s1) \<Rightarrow>
          (case Option.bind (scan_lit (CHR '':'') s1) two_digits of
             None \<Rightarrow> None
           | Some (m, s2) \<Rightarrow>
               (case Option.bind (scan_lit (CHR '':'') s2) two_digits of
                  None \<Rightarrow> None
                | Some (sec, s3) \<Rightarrow>
                    if h < 24 \<and> m < 60 \<and> sec < 60 then Some (h * 3600 + m * 60 + sec, s3) else None)))"

definition scan_fraction :: "string \<Rightarrow> int \<times> string" where
  "scan_fraction s =
     (case s of
        c # d # r \<Rightarrow>
          if (c = CHR ''.'' \<or> c = CHR '','') \<and> is_digit d
          then (let ds = takeWhile is_digit (d # r); ns = take 9 ds
                in (int (digits_val ns) * 10 ^ (9 - length ns), dropWhile is_digit (d # r)))
          else (0, s)
      | _ \<Rightarrow> (0, s))"

text \<open>\<open>Z07:00\<close>: \<open>None\<close> is the zone \<open>Z\<close>. The ranges are those of the library, 24:60 included.\<close>

definition scan_offset :: "string \<Rightarrow> int option option" where
  "scan_offset s =
     (case s of
        [] \<Rightarrow> None
      | sign # s1 \<Rightarrow>
          if s = ''Z'' then Some None
          else (case two_digits s1 of
              None \<Rightarrow> None
            | Some (h, s2) \<Rightarrow>
                (case Option.bind (scan_lit (CHR '':'') s2) two_digits of
                   None \<Rightarrow> None
                 | Some (m, s3) \<Rightarrow>
                     if h > 24 \<or> m > 60 \<or> s3 \<noteq> [] then None
                     else if sign = CHR ''+'' then Some (Some ((h * 60 + m) * 60))
                     else if sign = CHR ''-'' then Some (Some (- ((h * 60 + m) * 60)))
                     else None)))"

text \<open>
  \<open>time.Parse(time.RFC3339, s)\<close>: the instant and its location, which is the local one of the
  process when that has the offset at this instant.
\<close>

definition parse_rfc3339 :: "location \<Rightarrow> string \<Rightarrow> (instant \<times> location) option" where
  "parse_rfc3339 local s =
     (case scan_ymd s of
        None \<Rightarrow> None
      | Some ((y, m, d), s1) \<Rightarrow>
          (case Option.bind (scan_lit (CHR ''T'') s1) scan_hms of
             None \<Rightarrow> None
           | Some (secs, s2) \<Rightarrow>
               (case scan_fraction s2 of (ns, s3) \<Rightarrow>
                 (let t = go_date y m d secs utc + ns in
                  case scan_offset s3 of
                    None \<Rightarrow> None
                  | Some None \<Rightarrow> Some (t, utc)
                  | Some (Some off) \<Rightarrow>
                      (let u = t - off * second in
                       Some (u, if offset_at local (u div second - unix_to_internal) = off then local
                                else \<lparr>loc_base = off, loc_txs = []\<rparr>))))))"

definition parse_date :: "string \<Rightarrow> instant option" where
  "parse_date s = (case scan_ymd s of Some ((y, m, d), []) \<Rightarrow> Some (go_date y m d 0 utc) | _ \<Rightarrow> None)"

definition parse_when :: "location \<Rightarrow> string \<Rightarrow> bool \<Rightarrow> (instant \<times> location) result" where
  "parse_when local s end_of_day =
     (if s = [] then Inl (Message ''required'')
      else case parse_rfc3339 local s of
          Some t \<Rightarrow> Inr t
        | None \<Rightarrow>
            (case parse_date s of
               None \<Rightarrow> Inl (Message (''not RFC3339 or YYYY-MM-DD: '' @ s))
             | Some t \<Rightarrow> Inr (if end_of_day then go_add (add_date_utc t 1) (- second) else t, utc)))"

section \<open>Replay\<close>

text \<open>The values the process runs with, and the parts of other packages it is given.\<close>

record outside =
  xo_cfg :: config
  xo_local :: location
  xo_codec :: codec
  xo_zones :: "string \<Rightarrow> location result"
  xo_aggregates :: aggregates
  xo_float :: float_parser
  xo_unzip :: "string \<Rightarrow> zip_file"

text \<open>
  \<open>runReplay\<close> on an open store, with what it prints: the blobs replayed and the events
  finalized. \<open>clock\<close> is the time at which a snapshot is processed.
\<close>

definition run_replay ::
    "outside \<Rightarrow> (nat \<Rightarrow> bool) \<Rightarrow> (snapshot \<Rightarrow> instant) \<Rightarrow> instant \<Rightarrow> nat list \<Rightarrow> string \<Rightarrow> string \<Rightarrow> disk \<times> store sys \<Rightarrow>
     (int \<times> int) result \<times> disk \<times> store sys" where
  "run_replay xo cancelled clock now choices from_s to_s s =
     (case s of (d, w) \<Rightarrow>
       (case parse_when (xo_local xo) from_s False of
          Inl e \<Rightarrow> (Inl (Wrapped ''--from'' e), s)
        | Inr (lo, lo_loc) \<Rightarrow>
            (case parse_when (xo_local xo) to_s True of
               Inl e \<Rightarrow> (Inl (Wrapped ''--to'' e), s)
             | Inr (hi, hi_loc) \<Rightarrow>
                 (case ensure_partitions (add_date_in lo_loc lo (- 1)) (add_date_in hi_loc hi 7) w of
                    (Some e, w1) \<Rightarrow> (Inl e, d, w1)
                  | (None, w1) \<Rightarrow>
                      (case replay (xo_codec xo) cancelled
                          (\<lambda>snap. process (store_deps (xo_zones xo)) None (clock snap) (Some snap)) lo hi
                          (d, new_engine (cf_finalize_grace (xo_cfg xo)) choices, w1) of
                         ((n, Some e), d', en, w2) \<Rightarrow> (Inl e, d', w2)
                       | ((n, None), d', en, w2) \<Rightarrow>
                           (case finalize_due now (cf_finalize_grace (xo_cfg xo)) w2 of
                              ((k, Some e), w3) \<Rightarrow> (Inl e, d', w3)
                            | ((k, None), w3) \<Rightarrow> (Inr (n, k), d', w3)))))))"

section \<open>The nightly jobs\<close>

definition update_schedule_age :: "instant \<Rightarrow> store sys \<Rightarrow> store sys" where
  "update_schedule_age now w =
     (case store_active_version w of
        (Inl e, w') \<Rightarrow> w'
      | (Inr v, w') \<Rightarrow> on_metrics (\<lambda>m. m\<lparr>mt_schedule_version_age :=
          go_sub now (sv_fetched_at v) # mt_schedule_version_age m\<rparr>) w')"

text \<open>The latches, and a tick: its time, the time of what runs after it, the order of the map.\<close>

record nightly =
  ny_rollup_day :: string
  ny_retention_day :: string

record tick =
  tk_now :: instant
  tk_later :: instant
  tk_swap :: bool

text \<open>The rollup of a tick; \<open>False\<close> when it is skipped, which ends the tick.\<close>

definition rollup_job :: "outside \<Rightarrow> tick \<Rightarrow> store sys \<Rightarrow> bool \<times> store sys" where
  "rollup_job xo i w =
     (case store_active_version w of
        (Inl e, w1) \<Rightarrow> (False, w1)
      | (Inr v, w1) \<Rightarrow>
          (True, snd (rollup_run (xo_aggregates xo) (xo_zones xo) (tk_later i) (sv_agency_tz v)
                        (cf_rollup_window_weeks (xo_cfg xo)) w1)))"

definition kept_weeks :: "config \<Rightarrow> (string \<times> int) list" where
  "kept_weeks cfg =
     [(''stop_events'', cf_stop_event_retention_weeks cfg), (''vehicle_positions'', cf_vehicle_pos_retention_weeks cfg)]"

definition retention_job :: "outside \<Rightarrow> tick \<Rightarrow> disk \<times> store sys \<Rightarrow> disk \<times> store sys" where
  "retention_job xo i s =
     (case s of (d, w) \<Rightarrow>
       (let cfg = xo_cfg xo;
            w1 = snd (ensure_partitions (tk_now i) (add_date_utc (tk_now i) 28) w);
            w2 = snd (drop_old_partitions (if tk_swap i then rev (kept_weeks cfg) else kept_weeks cfg) (tk_later i) w1);
            d' = (if cf_raw_retention_days cfg > 0
                  then snd (prune_archive (add_date_utc (tk_now i) (- cf_raw_retention_days cfg)) d) else d)
        in (d', update_schedule_age (tk_later i) w2)))"

abbreviation tick_day :: "tick \<Rightarrow> int" where
  "tick_day i \<equiv> local_day utc (tk_now i)"

abbreviation tick_hour :: "tick \<Rightarrow> int" where
  "tick_hour i \<equiv> local_hour utc (tk_now i)"

definition retention_hour :: "config \<Rightarrow> int" where
  "retention_hour cfg = go_mod (wrap64 (cf_rollup_hour_utc cfg + 1)) 24"

definition nightly_tick :: "outside \<Rightarrow> tick \<Rightarrow> nightly \<times> disk \<times> store sys \<Rightarrow> nightly \<times> disk \<times> store sys" where
  "nightly_tick xo i s =
     (case s of (n, d, w) \<Rightarrow>
       (let day = format_iso (civil_of_days (tick_day i));
            (n1, go, w1) =
              (if tick_hour i = cf_rollup_hour_utc (xo_cfg xo) \<and> ny_rollup_day n \<noteq> day
               then (n\<lparr>ny_rollup_day := day\<rparr>, rollup_job xo i w) else (n, True, w))
        in if go \<and> tick_hour i = retention_hour (xo_cfg xo) \<and> ny_retention_day n1 \<noteq> day
           then (n1\<lparr>ny_retention_day := day\<rparr>, retention_job xo i (d, w1))
           else (n1, d, w1)))"

fun nightly_ticks :: "outside \<Rightarrow> tick list \<Rightarrow> nightly \<times> disk \<times> store sys \<Rightarrow> nightly \<times> disk \<times> store sys" where
  "nightly_ticks xo [] s = s"
| "nightly_ticks xo (i # is) s = nightly_ticks xo is (nightly_tick xo i s)"

section \<open>The start of the server\<close>

text \<open>One poller per URL, the vehicle positions first.\<close>

definition poller_configs :: "config \<Rightarrow> poller list" where
  "poller_configs cfg =
     map (\<lambda>u. new_poller feed_vehicle_positions u (cf_poll_interval cfg)) (split_list (cf_vehicle_positions_url cfg)) @
     map (\<lambda>u. new_poller feed_trip_updates u (cf_poll_interval cfg)) (split_list (cf_trip_updates_url cfg))"

definition refresh_static :: "outside \<Rightarrow> (nat \<Rightarrow> http_reply) \<Rightarrow> instant \<Rightarrow> disk \<times> store sys \<Rightarrow> go_error option \<times> disk \<times> store sys" where
  "refresh_static xo replies now s =
     load_static (xo_codec xo) (xo_float xo) (xo_unzip xo) (cf_archive_dir (xo_cfg xo))
       (cf_static_gtfs_url (xo_cfg xo)) replies now s"

definition serve_start ::
    "outside \<Rightarrow> (nat \<Rightarrow> http_reply) \<Rightarrow> instant \<Rightarrow> instant \<Rightarrow> disk \<times> store sys \<Rightarrow> go_error option \<times> disk \<times> store sys" where
  "serve_start xo replies now later s =
     (case s of (d, w) \<Rightarrow>
       (case ensure_partitions (add_date_in (xo_local xo) now (- 7)) (add_date_in (xo_local xo) now 28) w of
          (Some e, w1) \<Rightarrow> (Some e, d, w1)
        | (None, w1) \<Rightarrow>
            (case store_active_version w1 of
               (Inr v, w2) \<Rightarrow> (None, d, update_schedule_age later w2)
             | (Inl e, w2) \<Rightarrow>
                 if errors_is e Not_found
                 then (case refresh_static xo replies later (d, w2) of
                         (Some e', d', w3) \<Rightarrow> (Some (Wrapped ''initial static GTFS load'' e'), d', w3)
                       | (None, d', w3) \<Rightarrow> (None, d', update_schedule_age later w3))
                 else (Some e, d, w2))))"

section \<open>A bare date is a whole day\<close>

lemma digit_no_dash: "is_digit c \<Longrightarrow> c \<noteq> CHR ''-''"
  using digit_not_sign by blast

lemma two_digits_fmt: "0 \<le> n \<Longrightarrow> n < 100 \<Longrightarrow> two_digits (fmt_0d 2 n @ r) = Some (n, r)"
  using fmt_0d_length [of 2 n] fmt_0d_digits [of n _ 2] fmt_0d_val [of n 2] by (auto simp: two_digits_def list_all_iff)

lemma four_digits_fmt: "0 \<le> n \<Longrightarrow> n < 10000 \<Longrightarrow> four_digits (fmt_0d 4 n @ r) = Some (n, r)"
  using fmt_0d_length [of 4 n] fmt_0d_digits [of n _ 4] fmt_0d_val [of n 4] by (auto simp: four_digits_def list_all_iff)

lemma scan_ymd_iso:
  assumes "valid_civil y m d" and "0 \<le> y" "y \<le> 9999"
  shows "scan_ymd (format_iso (y, m, d)) = Some ((y, m, d), [])"
proof -
  have "1 \<le> m" "m \<le> 12" "1 \<le> d" "d \<le> 31"
    using assms(1) by (auto simp: valid_civil_def days_in_month_def split: if_splits)
  then show ?thesis
    using assms two_digits_fmt [of d "[]"]
    by (simp add: scan_ymd_def format_iso_def append_int_fmt_0d four_digits_fmt two_digits_fmt scan_lit_def)
qed

abbreviation iso_day :: "int \<Rightarrow> string" where
  "iso_day n \<equiv> format_iso (civil_of_days n)"

lemma scan_iso_day:
  assumes "four_digit_day n"
  shows "scan_ymd (iso_day n) = Some (civil_of_days n, [])"
proof -
  obtain y m d where c: "civil_of_days n = (y, m, d)" by (cases "civil_of_days n")
  show ?thesis
    using scan_ymd_iso [OF days_of_civil_inverse(2) [OF c] civil_year_bounds [OF c assms]] by (simp add: c)
qed

lemma iso_day_inj:
  assumes "four_digit_day a" and "four_digit_day b" and "iso_day a = iso_day b"
  shows "a = b"
  using assms scan_iso_day [of a] scan_iso_day [of b] days_of_civil_inverse(1) by (metis option.inject prod.inject surj_pair)

lemma parse_when_iso:
  assumes "four_digit_day n"
  shows "parse_when local (iso_day n) False = Inr (midnight n, utc)"
    and "parse_when local (iso_day n) True = Inr (midnight (n + 1) - second, utc)"
proof -
  obtain y m d where c: "civil_of_days n = (y, m, d)" by (cases "civil_of_days n")
  note scan = scan_iso_day [OF assms, unfolded c]
  have none: "iso_day n \<noteq> []" by (auto simp: c format_iso_def)
  have rfc: "parse_rfc3339 local (iso_day n) = None" by (simp add: parse_rfc3339_def c scan scan_lit_def)
  have date: "parse_date (iso_day n) = Some (midnight n)"
    using days_of_civil_inverse(1) [OF c] by (simp add: parse_date_def c scan go_date_utc)
  have "\<bar>n\<bar> \<le> 4000000" using assms by (rule four_digit_day_bound)
  then have "go_add (add_date_utc (midnight n) 1) (- second) = midnight (n + 1) - second"
    unfolding add_date_utc by (subst go_add_sane) (auto simp: second_def abs_le_iff algebra_simps)
  then show "parse_when local (iso_day n) False = Inr (midnight n, utc)"
    and "parse_when local (iso_day n) True = Inr (midnight (n + 1) - second, utc)"
    using none rfc date by (simp_all add: parse_when_def)
qed

text \<open>
  C37: a replay of bare dates covers whole days. From \<open>--from\<close> one date \<open>--to\<close> another, a blob
  is in the range exactly when the second in its name lies on one of the UTC days from the
  first to the last, both included, whatever the time zone of the process.
\<close>

theorem replay_dates_whole_days:
  assumes "four_digit_day a" and "four_digit_day b"
    and "parse_when local (iso_day a) False = Inr (lo, lo_loc)" and "parse_when local (iso_day b) True = Inr (hi, hi_loc)"
  shows "to_unix lo \<le> u \<and> u \<le> to_unix hi \<longleftrightarrow>
    a \<le> (u + unix_to_internal) div 86400 \<and> (u + unix_to_internal) div 86400 \<le> b"
proof -
  have t: "lo = midnight a" "hi = midnight (b + 1) - second"
    using assms parse_when_iso by simp_all
  have bounds: "\<bar>a\<bar> \<le> 4000000" "\<bar>b\<bar> \<le> 4000000" using assms(1,2) by (simp_all add: four_digit_day_bound)
  have "to_unix lo = a * 86400 - unix_to_internal"
    unfolding t by (subst to_unix_small) (use bounds in \<open>auto simp: second_def abs_le_iff\<close>)
  moreover have "to_unix hi = (b + 1) * 86400 - 1 - unix_to_internal"
  proof -
    have "hi = ((b + 1) * 86400 - 1) * second" by (simp add: t algebra_simps)
    then show ?thesis
      by (simp only:) (subst to_unix_small, use bounds in \<open>auto simp: second_def abs_le_iff\<close>)
  qed
  moreover have "a * 86400 - k \<le> u \<longleftrightarrow> a \<le> (u + k) div 86400" "u \<le> (b + 1) * 86400 - 1 - k \<longleftrightarrow> (u + k) div 86400 \<le> b" for k
  proof -
    define q r where "q = (u + k) div 86400" and "r = (u + k) mod 86400"
    have q: "u + k = q * 86400 + r" "0 \<le> r" "r < 86400" "(b + 1) * 86400 = b * 86400 + 86400"
      by (simp_all add: q_def r_def)
    show "a * 86400 - k \<le> u \<longleftrightarrow> a \<le> (u + k) div 86400"
      unfolding q_def [symmetric] by (cases "a \<le> q") (use q in linarith)+
    show "u \<le> (b + 1) * 86400 - 1 - k \<longleftrightarrow> (u + k) div 86400 \<le> b"
    proof (cases "q \<le> b")
      case True
      then have "u \<le> (b + 1) * 86400 - 1 - k" using q by linarith
      then show ?thesis using True by (simp add: q_def)
    next
      case False
      then have "b + 1 \<le> q" by simp
      then have "\<not> u \<le> (b + 1) * 86400 - 1 - k" using q by linarith
      then show ?thesis using False by (simp add: q_def)
    qed
  qed
  ultimately show ?thesis by simp
qed

theorem replay_dates_whole_days_witness:
  "\<exists>lo hi. parse_when utc ''2026-08-01'' False = Inr (lo, utc) \<and> parse_when utc ''2026-08-02'' True = Inr (hi, utc) \<and>
     to_unix lo \<le> 1785542400 \<and> 1785542400 \<le> to_unix hi \<and> 1785715200 > to_unix hi"
proof -
  have iso: "iso_day 739828 = ''2026-08-01''" "iso_day 739829 = ''2026-08-02''" by code_simp+
  have four: "four_digit_day 739828" "four_digit_day 739829" by (simp_all add: four_digit_day_def days_before_year_def)
  obtain lo hi where p: "parse_when utc ''2026-08-01'' False = Inr (lo, utc)" "parse_when utc ''2026-08-02'' True = Inr (hi, utc)"
    using parse_when_iso(1) [OF four(1)] parse_when_iso(2) [OF four(2)] unfolding iso by blast
  note range = replay_dates_whole_days [OF four, unfolded iso, OF p]
  have "to_unix lo \<le> 1785542400 \<and> 1785542400 \<le> to_unix hi" by (simp add: range unix_to_internal_def)
  moreover have "\<not> (to_unix lo \<le> 1785715200 \<and> 1785715200 \<le> to_unix hi)" by (simp add: range unix_to_internal_def)
  ultimately show ?thesis using p by fastforce
qed

section \<open>The latches keep the calendar\<close>

text \<open>The first tick of its day in the hour \<open>h\<close>, among the ticks that came before it.\<close>

definition first_of_day :: "int \<Rightarrow> tick list \<Rightarrow> tick \<Rightarrow> bool" where
  "first_of_day h past i \<longleftrightarrow> tick_hour i = h \<and>
     \<not> list_ex (\<lambda>j. tick_hour j = h \<and> tick_day j = tick_day i) past"

fun nightly_calendar :: "outside \<Rightarrow> tick list \<Rightarrow> tick list \<Rightarrow> disk \<times> store sys \<Rightarrow> disk \<times> store sys" where
  "nightly_calendar xo past [] s = s"
| "nightly_calendar xo past (i # is) s =
     nightly_calendar xo (past @ [i]) is
       (if first_of_day (cf_rollup_hour_utc (xo_cfg xo)) past i then (fst s, snd (rollup_job xo i (snd s)))
        else if first_of_day (retention_hour (xo_cfg xo)) past i then retention_job xo i s
        else s)"

text \<open>A latch holds the last day on which a tick came in its hour.\<close>

definition latched :: "int \<Rightarrow> tick list \<Rightarrow> string \<Rightarrow> bool" where
  "latched h past day \<longleftrightarrow> (\<forall>j \<in> set past. four_digit_day (tick_day j)) \<and>
     ((day = [] \<and> (\<forall>j \<in> set past. tick_hour j \<noteq> h)) \<or>
      (\<exists>j \<in> set past. tick_hour j = h \<and> day = iso_day (tick_day j) \<and>
         (\<forall>k \<in> set past. tick_hour k = h \<longrightarrow> tick_day k \<le> tick_day j)))"

lemma iso_day_nonempty [simp]: "iso_day n \<noteq> []"
  by (auto simp: format_iso_def split: prod.splits)

lemma latched_first:
  assumes l: "latched h past day" and four: "four_digit_day (tick_day i)" and late: "\<forall>j \<in> set past. tick_day j \<le> tick_day i"
    and h: "tick_hour i = h"
  shows "day \<noteq> iso_day (tick_day i) \<longleftrightarrow> first_of_day h past i"
proof -
  consider "day = []" "\<forall>j \<in> set past. tick_hour j \<noteq> h"
    | j where "j \<in> set past" "tick_hour j = h" "day = iso_day (tick_day j)"
        "\<forall>k \<in> set past. tick_hour k = h \<longrightarrow> tick_day k \<le> tick_day j"
    using l unfolding latched_def by blast
  then show ?thesis
  proof cases
    case 1
    then show ?thesis using h by (auto simp: first_of_day_def list_ex_iff eq_commute [of "[]"])
  next
    case 2
    have "day = iso_day (tick_day i) \<longleftrightarrow> tick_day j = tick_day i"
      using iso_day_inj [of "tick_day j" "tick_day i"] l four 2(1,3) by (auto simp: latched_def)
    moreover have "tick_day j = tick_day i" if "k \<in> set past" "tick_hour k = h" "tick_day k = tick_day i" for k
      using that 2(1,4) late by (metis order_antisym)
    ultimately show ?thesis using h 2(1,2) by (auto simp: first_of_day_def list_ex_iff)
  qed
qed

lemma latched_next:
  assumes "latched h past day" and "four_digit_day (tick_day i)" and "\<forall>j \<in> set past. tick_day j \<le> tick_day i"
  shows "tick_hour i = h \<Longrightarrow> latched h (past @ [i]) (iso_day (tick_day i))"
    and "tick_hour i \<noteq> h \<Longrightarrow> latched h (past @ [i]) day"
  using assms by (auto simp: latched_def)

lemma hours_apart:
  assumes "tick_hour i = cf_rollup_hour_utc cfg"
  shows "tick_hour i \<noteq> retention_hour cfg"
proof -
  have "0 \<le> cf_rollup_hour_utc cfg" "cf_rollup_hour_utc cfg \<le> 23"
    using local_hour_range [of utc "tk_now i"] assms by auto
  moreover from this have "wrap64 (cf_rollup_hour_utc cfg + 1) = cf_rollup_hour_utc cfg + 1" by (intro wrap64_id) auto
  ultimately show ?thesis
    unfolding assms retention_hour_def by (cases "cf_rollup_hour_utc cfg = 23") (auto simp: go_mod_def)
qed

lemma nightly_ticks_calendar:
  assumes "latched (cf_rollup_hour_utc (xo_cfg xo)) past (ny_rollup_day n)"
    and "latched (retention_hour (xo_cfg xo)) past (ny_retention_day n)"
    and "sorted (map tick_day (past @ is))" and "list_all (\<lambda>i. four_digit_day (tick_day i)) is"
  shows "snd (nightly_ticks xo is (n, s)) = nightly_calendar xo past is s"
  using assms
proof (induction "is" arbitrary: past n s)
  case (Cons i "is")
  obtain d w where s: "s = (d, w)" by force
  let ?h = "cf_rollup_hour_utc (xo_cfg xo)" and ?g = "retention_hour (xo_cfg xo)"
  have four: "four_digit_day (tick_day i)" using Cons.prems(4) by simp
  have late: "\<forall>j \<in> set past. tick_day j \<le> tick_day i" using Cons.prems(3) by (simp add: sorted_append)
  have sorted: "sorted (map tick_day ((past @ [i]) @ is))" using Cons.prems(3) by simp
  have rest: "list_all (\<lambda>i. four_digit_day (tick_day i)) is" using Cons.prems(4) by simp
  note step = Cons.IH [OF _ _ sorted rest]
  note first = latched_first [OF Cons.prems(1) four late] latched_first [OF Cons.prems(2) four late]
  note nxt = latched_next [OF Cons.prems(1) four late] latched_next [OF Cons.prems(2) four late]
  consider "tick_hour i = ?h" "tick_hour i \<noteq> ?g" | "tick_hour i \<noteq> ?h" "tick_hour i = ?g" | "tick_hour i \<noteq> ?h" "tick_hour i \<noteq> ?g"
    using hours_apart by blast
  then show ?case
  proof cases
    case 1
    have no: "\<not> first_of_day ?g past i" using 1 by (simp add: first_of_day_def)
    obtain go w1 where job: "rollup_job xo i w = (go, w1)" by force
    show ?thesis
    proof (cases "ny_rollup_day n = iso_day (tick_day i)")
      case True
      then have "\<not> first_of_day ?h past i" using first(1) [OF 1(1)] by simp
      moreover have "snd (nightly_ticks xo is (n, s)) = nightly_calendar xo (past @ [i]) is s"
        using nxt(1) [OF 1(1)] nxt(4) [OF 1(2)] True by (intro step) simp_all
      ultimately show ?thesis using True 1 no by (simp add: nightly_tick_def s)
    next
      case False
      then have "first_of_day ?h past i" using first(1) [OF 1(1)] by simp
      moreover have "snd (nightly_ticks xo is (n\<lparr>ny_rollup_day := iso_day (tick_day i)\<rparr>, d, w1)) =
          nightly_calendar xo (past @ [i]) is (d, w1)"
        using nxt(1) [OF 1(1)] nxt(4) [OF 1(2)] by (intro step) simp_all
      ultimately show ?thesis using False 1 job by (simp add: nightly_tick_def s Let_def)
    qed
  next
    case 2
    have no: "\<not> first_of_day ?h past i" using 2 by (simp add: first_of_day_def)
    show ?thesis
    proof (cases "ny_retention_day n = iso_day (tick_day i)")
      case True
      then have "\<not> first_of_day ?g past i" using first(2) [OF 2(2)] by simp
      moreover have "snd (nightly_ticks xo is (n, s)) = nightly_calendar xo (past @ [i]) is s"
        using nxt(3) [OF 2(2)] nxt(2) [OF 2(1)] True by (intro step) simp_all
      ultimately show ?thesis using True 2 no by (simp add: nightly_tick_def s)
    next
      case False
      then have "first_of_day ?g past i" using first(2) [OF 2(2)] by simp
      moreover have "snd (nightly_ticks xo is (n\<lparr>ny_retention_day := iso_day (tick_day i)\<rparr>, retention_job xo i s)) =
          nightly_calendar xo (past @ [i]) is (retention_job xo i s)"
        using nxt(3) [OF 2(2)] nxt(2) [OF 2(1)] by (intro step) simp_all
      ultimately show ?thesis using False 2 no by (simp add: nightly_tick_def s Let_def)
    qed
  next
    case 3
    have "\<not> first_of_day ?h past i" "\<not> first_of_day ?g past i" using 3 by (simp_all add: first_of_day_def)
    moreover have "snd (nightly_ticks xo is (n, s)) = nightly_calendar xo (past @ [i]) is s"
      using nxt(2) [OF 3(1)] nxt(4) [OF 3(2)] by (intro step) simp_all
    ultimately show ?thesis using 3 by (simp add: nightly_tick_def s)
  qed
qed simp

text \<open>
  C15: the latches do the work of a calendar. Over any run of the process, with one tick a
  minute or with ticks late or lost, the rollups run on exactly the first tick of each UTC day
  in their hour, the retention on exactly the first one in the hour after it, and no other
  tick does anything, whatever fails.
\<close>

theorem nightly_once_a_day:
  assumes "sorted (map tick_day is)" and "list_all (\<lambda>i. four_digit_day (tick_day i)) is"
  shows "snd (nightly_ticks xo is (\<lparr>ny_rollup_day = [], ny_retention_day = []\<rparr>, s)) = nightly_calendar xo [] is s"
  using assms by (intro nightly_ticks_calendar) (simp_all add: latched_def)

definition sample_tick :: "int \<Rightarrow> tick" where
  "sample_tick secs = \<lparr>tk_now = midnight 739829 + secs * second, tk_later = midnight 739829 + secs * second, tk_swap = False\<rparr>"

definition sample_outer :: outside where
  "sample_outer =
     \<lparr>xo_cfg = fst (load_config (\<lambda>s. Inl (Message s)) (\<lambda>_. [])), xo_local = utc, xo_codec = sample_codec,
      xo_zones = sample_load, xo_aggregates = sample_aggregates, xo_float = (\<lambda>_. Inl (Message [])), xo_unzip = sample_unzip\<rparr>"

lemma sample_outer_hours:
  "cf_rollup_hour_utc (xo_cfg sample_outer) = 7" "retention_hour (xo_cfg sample_outer) = 8"
  by code_simp+

text \<open>Two ticks in the hour of the rollups and one in the next: one rollup, one retention.\<close>

theorem nightly_once_a_day_witness:
  "\<forall>s. snd (nightly_ticks sample_outer [sample_tick 25200, sample_tick 25260, sample_tick 28800]
       (\<lparr>ny_rollup_day = [], ny_retention_day = []\<rparr>, s)) =
     retention_job sample_outer (sample_tick 28800) (fst s, snd (rollup_job sample_outer (sample_tick 25200) (snd s)))"
proof -
  let ?is = "[sample_tick 25200, sample_tick 25260, sample_tick 28800]"
  have days: "tick_day (sample_tick 25200) = 739829" "tick_day (sample_tick 25260) = 739829" "tick_day (sample_tick 28800) = 739829"
    by (simp_all add: sample_tick_def second_def)
  have hours: "tick_hour (sample_tick 25200) = 7" "tick_hour (sample_tick 25260) = 7" "tick_hour (sample_tick 28800) = 8"
    by (simp_all add: sample_tick_def local_hour_def second_def)
  have four: "four_digit_day 739829" by (simp add: four_digit_day_def days_before_year_def)
  have "nightly_calendar sample_outer [] ?is s =
      retention_job sample_outer (sample_tick 28800) (fst s, snd (rollup_job sample_outer (sample_tick 25200) (snd s)))" for s
    by (simp add: sample_outer_hours first_of_day_def days hours del: day_second)
  then show ?thesis using nightly_once_a_day [of ?is sample_outer] by (simp add: days four del: day_second)
qed

end
