(* ===== verification/Rederive.thy ===== *)
theory Rederive
  imports Service
begin

text \<open>
  The replay command applied to what it has already derived: \<open>runReplay\<close> of
  \<open>cmd/ridewatch/main.go\<close> through the engine and the store. Every snapshot of the range is
  settled after the first replay, and a settled snapshot changes no row.
\<close>

section \<open>What the preparation keeps\<close>

text \<open>The events and the schedule are as before, and calls still fail as they may.\<close>

definition keeps_events :: "store sys \<Rightarrow> store sys \<Rightarrow> bool" where
  "keeps_events w w' \<longleftrightarrow> stored w' = stored w \<and> (store_ok w \<longrightarrow> store_ok w' \<and>
     db_active (sys_db w') = db_active (sys_db w) \<and> store_lookup w' = store_lookup w)"

lemma keeps_events_refl [simp]: "keeps_events w w"
  by (simp add: keeps_events_def)

lemma keeps_events_trans: "keeps_events a b \<Longrightarrow> keeps_events b c \<Longrightarrow> keeps_events a c"
  by (simp add: keeps_events_def)

lemma keeps_eventsI: "stored w' = stored w \<Longrightarrow> keeps_schedule w w' \<Longrightarrow> keeps_events w w'"
  using keeps_schedule_ok by (auto simp: keeps_events_def)

lemma create_keeps:
  assumes "db_run (create_stmt p n lo hi) w = (r, w')"
  shows "keeps_events w w'"
proof (rule keeps_eventsI)
  show "stored w' = stored w"
    using assms by (auto simp: db_run_def create_stmt_def stored_def Let_def split: option.splits fault.splits if_splits)
  show "keeps_schedule w w'"
    using assms by (auto simp: db_run_def create_stmt_def keeps_schedule_def same_schedule_def Let_def
        split: option.splits fault.splits if_splits)
qed

text \<open>Whatever every statement keeps, the loops over the tables and the weeks keep.\<close>

lemma ensure_week_inv:
  assumes create: "\<And>p n lo hi w r w'. db_run (create_stmt p n lo hi) w = (r, w') \<Longrightarrow> R w w'"
    and refl: "\<And>w. R w w" and trans: "\<And>a b c. R a b \<Longrightarrow> R b c \<Longrightarrow> R a c"
  shows "ensure_week ps ws w = (e, w') \<Longrightarrow> R w w'"
proof (induction ps arbitrary: w)
  case Nil
  then show ?case using refl by simp
next
  case (Cons p ps)
  obtain r w1 where run: "db_run (create_stmt p (partition_name p ws) (local_day utc ws) (local_day utc (add_date_utc ws 7))) w = (r, w1)"
    by (metis surj_pair)
  have "w' = w1 \<or> ensure_week ps ws w1 = (e, w')"
    using Cons.prems run by (auto simp: Let_def simp del: day_second split: sum.splits if_splits)
  then show ?case using create [OF run] Cons.IH trans by blast
qed

lemma ensure_weeks_inv:
  assumes create: "\<And>p n lo hi w r w'. db_run (create_stmt p n lo hi) w = (r, w') \<Longrightarrow> R w w'"
    and refl: "\<And>w. R w w" and trans: "\<And>a b c. R a b \<Longrightarrow> R b c \<Longrightarrow> R a c"
  shows "ensure_weeks ws stop w = (e, w') \<Longrightarrow> R w w'"
proof (induction ws stop w rule: ensure_weeks.induct)
  case (1 ws stop w)
  show ?case
  proof (cases "ws > stop")
    case True
    then show ?thesis using "1.prems" refl by (simp add: ensure_weeks.simps)
  next
    case False
    obtain x w1 where wk: "ensure_week partitioned_tables ws w = (x, w1)" by (metis surj_pair)
    have k: "R w w1" by (rule ensure_week_inv [where R = R, OF create refl trans wk])
    show ?thesis
    proof (cases x)
      case None
      then have "ensure_weeks (add_date_utc ws 7) stop w1 = (e, w')"
        using "1.prems" False wk by (simp add: ensure_weeks.simps [of ws])
      then show ?thesis using "1.IH" [OF False wk [symmetric] None] k trans by blast
    next
      case (Some y)
      then show ?thesis using "1.prems" False wk k by (simp add: ensure_weeks.simps [of ws])
    qed
  qed
qed

lemma ensure_partitions_keeps: "ensure_partitions lo hi w = (e, w') \<Longrightarrow> keeps_events w w'"
  unfolding ensure_partitions_def
  by (rule ensure_weeks_inv [where R = keeps_events]) (use create_keeps keeps_events_refl keeps_events_trans in blast)+

lemma ensure_partitions_db: "ensure_partitions lo hi w = (e, w') \<Longrightarrow> \<exists>d. w' = on_db (\<lambda>_. d) w"
  unfolding ensure_partitions_def
proof (erule ensure_weeks_inv [where R = "\<lambda>w w'. \<exists>d. w' = on_db (\<lambda>_. d) w", rotated -1])
  show "\<exists>d. w' = on_db (\<lambda>_. d) w" if "db_run (create_stmt p n a b) w = (r, w')" for p n a b w r w'
    using that by (auto simp: db_run_def Let_def on_db_def split: option.splits fault.splits)
  show "\<exists>d. w = on_db (\<lambda>_. d) w" for w by (auto intro: exI [of _ "sys_db w"] simp: on_db_def)
  show "\<exists>d. c = on_db (\<lambda>_. d) a" if "\<exists>d. b = on_db (\<lambda>_. d) a" "\<exists>d. c = on_db (\<lambda>_. d) b" for a b c
    using that by (auto simp: on_db_def)
qed

section \<open>Settled snapshots\<close>

text \<open>A snapshot is settled when every event it expands to is covered by its row.\<close>

definition settled :: "(string \<Rightarrow> location result) \<Rightarrow> snapshot \<Rightarrow> store sys \<Rightarrow> bool" where
  "settled zones sn w \<longleftrightarrow> (sn_feed sn = feed_trip_updates \<longrightarrow>
     (\<forall>vl. map_option fst vl = db_active (sys_db w) \<longrightarrow> (\<forall>v loc. vl = Some (v, loc) \<longrightarrow> zones (sv_agency_tz v) = Inr loc) \<longrightarrow>
        pg_engine.all_covered (snapshot_events (store_lookup w) sn vl (sn_trip_updates sn)) w))"

lemma settled_forward:
  assumes "settled zones sn w" and fw: "pg.forward w w'"
    and same: "db_active (sys_db w') = db_active (sys_db w)" "store_lookup w' = store_lookup w"
  shows "settled zones sn w'"
  unfolding settled_def same
proof (intro impI allI)
  fix vl
  assume f: "sn_feed sn = feed_trip_updates" and v1: "map_option fst vl = db_active (sys_db w)"
    and v2: "\<forall>v loc. vl = Some (v, loc) \<longrightarrow> zones (sv_agency_tz v) = Inr loc"
  have "pg_engine.all_covered (snapshot_events (store_lookup w) sn vl (sn_trip_updates sn)) w"
    by (rule mp [OF mp [OF spec [OF mp [OF assms(1) [unfolded settled_def] f], of vl] v1] v2])
  then show "pg_engine.all_covered (snapshot_events (store_lookup w) sn vl (sn_trip_updates sn)) w'"
    by (rule pg_engine.all_covered_forward [OF _ fw])
qed

lemma settled_later: "settled zones sn (snd s) \<Longrightarrow> pg_engine.advances zones s s' \<Longrightarrow> settled zones sn (snd s')"
  by (erule settled_forward) (simp_all add: pg_engine.advances_def)

lemma settled_same: "settled zones sn w \<Longrightarrow> keeps_events w w' \<Longrightarrow> store_ok w \<Longrightarrow> settled zones sn w'"
  by (erule settled_forward) (simp_all add: keeps_events_def pg.forward_same)

lemma process_settles:
  assumes ok: "pg_engine.ok zones s" and run: "process (store_deps zones) None now (Some sn) s = (None, s')"
  shows "pg_engine.advances zones s s' \<and> settled zones sn (snd s')"
proof
  show adv: "pg_engine.advances zones s s'" by (rule pg_engine.process_result [OF ok run])
  show "settled zones sn (snd s')"
    unfolding settled_def
  proof (intro impI allI)
    fix vl
    assume feed: "sn_feed sn = feed_trip_updates" and vl: "map_option fst vl = db_active (sys_db (snd s'))"
      "\<forall>v loc. vl = Some (v, loc) \<longrightarrow> zones (sv_agency_tz v) = Inr loc"
    obtain vl' where vl': "map_option fst vl' = db_active (sys_db (snd s))"
      "\<forall>v loc. vl' = Some (v, loc) \<longrightarrow> zones (sv_agency_tz v) = Inr loc"
      "pg_engine.all_covered (snapshot_events (store_lookup (snd s)) sn vl' (sn_trip_updates sn)) (snd s')"
      using pg_engine.process_covers [OF ok run feed] by (auto simp: store_deps_def)
    have same: "db_active (sys_db (snd s')) = db_active (sys_db (snd s))" "store_lookup (snd s') = store_lookup (snd s)"
      using adv by (simp_all add: pg_engine.advances_def)
      have "map_option fst vl = map_option fst vl'" using vl(1) vl'(1) same by simp
    then have "vl = vl'" using vl(2) vl'(2) by (cases vl; cases vl') auto
    then show "pg_engine.all_covered (snapshot_events (store_lookup (snd s')) sn vl (sn_trip_updates sn)) (snd s')"
      using vl'(3) same by simp
  qed
qed

lemma process_other_feed:
  assumes ok: "pg_engine.ok zones s" and run: "process (store_deps zones) ctx now (Some sn) s = (err, s')"
    and feed: "sn_feed sn \<noteq> feed_trip_updates"
  shows "stored (snd s') = stored (snd s)"
proof (cases ctx)
  case (Some e)
  then show ?thesis using run by (auto simp: process_def)
next
  case None
  obtain en w where s: "s = (en, w)" by force
  obtain r en1 w1 where rv: "resolve_version (store_deps zones) (en, w) = (r, en1, w1)" by (metis prod_cases3)
  have ok1: "pg_engine.ok zones (en1, w1)" and row1: "stored w1 = stored w"
    using pg_engine.resolve_version_result [OF ok [unfolded s] rv] by (auto simp: pg_engine.same_world_def)
  show ?thesis
  proof (cases r)
    case (Inl e)
    then show ?thesis using run row1 by (auto simp: process_def s rv None)
  next
    case (Inr vl)
    obtain q s2 where q: "(if sn_feed sn = feed_vehicle_positions
        then process_vehicle_positions (store_deps zones) sn (map_option fst vl) (en1, w1) else (None, (en1, w1))) = (q, s2)"
      by (metis surj_pair)
    have s2: "pg_engine.ok zones s2 \<and> stored (snd s2) = stored w"
      using q pg_engine.vehicle_positions_result [OF ok1, of sn "map_option fst vl"] ok1 row1
      by (auto simp: pg_engine.advances_def split: if_splits)
    have "s' = s2 \<or> s' = note_header now sn s2"
      using run [unfolded process_def s None option.case rv prod.case Inr sum.case if_not_P [OF feed] q]
      by (cases q) simp_all
    then show ?thesis using s2 pg_engine.note_header_advances [of zones s2 now sn] by (auto simp: s)
  qed
qed

lemma process_settled:
  assumes ok: "pg_engine.ok zones s" and run: "process (store_deps zones) ctx now (Some sn) s = (err, s')"
    and "settled zones sn (snd s)"
  shows "stored (snd s') = stored (snd s)"
proof (cases "sn_feed sn = feed_trip_updates")
  case True
  show ?thesis
    by (rule pg_engine.process_covered_noop [OF ok run True]) (use assms(3) True in \<open>auto simp: settled_def store_deps_def\<close>)
next
  case False
  then show ?thesis using process_other_feed [OF ok run] by simp
qed


section \<open>Two replays\<close>

lemma count_poll_advances: "pg_engine.ok zones (en, w) \<Longrightarrow> pg_engine.advances zones (en, w) (en, count_poll feed label w)"
  by (rule pg_engine.same_world_advances [OF pg_engine.same_world_metrics])

lemma stored_count_poll [simp]: "stored (count_poll feed label w) = stored w"
  by (rule pg.metrics_keep)

abbreviation engine_sink :: "(string \<Rightarrow> location result) \<Rightarrow> (snapshot \<Rightarrow> instant) \<Rightarrow> (engine, store) sink" where
  "engine_sink zones clock \<equiv> (\<lambda>snap. process (store_deps zones) None (clock snap) (Some snap))"

text \<open>A replay that ends without an error has settled every snapshot of its blobs.\<close>

lemma replay_settles:
  assumes disk: "dk_faults d = []"
    and "replay_blobs c cancelled (engine_sink zones clock) k bs n (d, en, w) = ((m, None), d', en', w')"
    and "pg_engine.ok zones (en, w)"
  shows "d' = d \<and> pg_engine.advances zones (en, w) (en', w') \<and>
    (\<forall>b \<in> set bs. \<forall>sn. blob_snapshot c d b = Some sn \<longrightarrow> settled zones sn w')"
  using assms(2,3)
proof (induction bs arbitrary: k n en w)
  case Nil
  then show ?case using pg_engine.same_world_advances by (auto simp: pg_engine.advances_def)
next
  case (Cons b bs)
  have live: "\<not> cancelled k" using Cons.prems(1) by (auto split: if_splits)
  obtain r where r: "read_blob c b d = (r, d)" using read_blob_pure [OF disk] by (metis prod.collapse)
  show ?case
  proof (cases "blob_snapshot c d b")
    case None
    then obtain e where "r = Inl e" using read_blob_pure [OF disk, of c b] r by auto
    then have go: "replay_blobs c cancelled (engine_sink zones clock) (Suc k) bs n
        (d, en, count_poll (bl_feed b) ''decode_error'' w) = ((m, None), d', en', w')"
      using Cons.prems(1) live r by simp
    note a = count_poll_advances [OF Cons.prems(2), of "bl_feed b" "''decode_error''"]
    then have "pg_engine.ok zones (en, count_poll (bl_feed b) ''decode_error'' w)" by (simp add: pg_engine.advances_def)
    from Cons.IH [OF go this] show ?thesis using None pg_engine.advances_trans [OF a] by auto
  next
    case (Some sn)
    then have rs: "r = Inr sn" using read_blob_pure [OF disk, of c b] r by auto
    obtain x en1 w1 where p: "process (store_deps zones) None (clock sn) (Some sn) (en, w) = (x, en1, w1)" by (metis prod_cases3)
    have x: "x = None" using Cons.prems(1) live r rs p by (cases x) auto
    then have go: "replay_blobs c cancelled (engine_sink zones clock) (Suc k) bs (n + 1) (d, en1, w1) = ((m, None), d', en', w')"
      using Cons.prems(1) live r rs p by simp
    note s1 = process_settles [OF Cons.prems(2) p [unfolded x]]
    then have "pg_engine.ok zones (en1, w1)" by (simp add: pg_engine.advances_def)
    note ih = Cons.IH [OF go this]
    have "settled zones sn w'" using settled_later [of zones sn "(en1, w1)" "(en', w')"] s1 ih by simp
    then show ?thesis using ih s1 Some pg_engine.advances_trans by auto
  qed
qed

text \<open>A replay of settled snapshots changes no row, however it ends.\<close>

lemma replay_settled:
  assumes disk: "dk_faults d = []"
    and "replay_blobs c cancelled (engine_sink zones clock) k bs n (d, en, w) = (r, d', en', w')"
    and "pg_engine.ok zones (en, w)"
    and "\<forall>b \<in> set bs. \<forall>sn. blob_snapshot c d b = Some sn \<longrightarrow> settled zones sn w"
  shows "d' = d \<and> stored w' = stored w \<and> pg_engine.ok zones (en', w')"
  using assms(2-4)
proof (induction bs arbitrary: k n en w)
  case (Cons b bs)
  show ?case
  proof (cases "cancelled k")
    case True
    then show ?thesis using Cons.prems by simp
  next
    case live: False
    obtain q where q: "read_blob c b d = (q, d)" using read_blob_pure [OF disk] by (metis prod.collapse)
    show ?thesis
    proof (cases "blob_snapshot c d b")
      case None
      then obtain e where "q = Inl e" using read_blob_pure [OF disk, of c b] q by auto
      then have go: "replay_blobs c cancelled (engine_sink zones clock) (Suc k) bs n
          (d, en, count_poll (bl_feed b) ''decode_error'' w) = (r, d', en', w')"
        using Cons.prems(1) live q by simp
      note a = count_poll_advances [OF Cons.prems(2), of "bl_feed b" "''decode_error''"]
      have ok: "pg_engine.ok zones (en, count_poll (bl_feed b) ''decode_error'' w)"
        using a by (simp add: pg_engine.advances_def)
      have "\<forall>b \<in> set bs. \<forall>sn. blob_snapshot c d b = Some sn \<longrightarrow> settled zones sn (count_poll (bl_feed b') ''decode_error'' w)" for b'
        using Cons.prems(3) settled_later [of zones _ "(en, w)"] count_poll_advances [OF Cons.prems(2)] by fastforce
      from Cons.IH [OF go ok this] show ?thesis by simp
    next
      case (Some sn)
      then have qs: "q = Inr sn" using read_blob_pure [OF disk, of c b] q by auto
      obtain x en1 w1 where p: "process (store_deps zones) None (clock sn) (Some sn) (en, w) = (x, en1, w1)" by (metis prod_cases3)
      note adv = pg_engine.process_result [OF Cons.prems(2) p]
      have ok: "pg_engine.ok zones (en1, w1)" using adv by (simp add: pg_engine.advances_def)
      have row: "stored w1 = stored w" using process_settled [OF Cons.prems(2) p] Cons.prems(3) Some by simp
      show ?thesis
      proof (cases x)
        case None
        then have go: "replay_blobs c cancelled (engine_sink zones clock) (Suc k) bs (n + 1) (d, en1, w1) = (r, d', en', w')"
          using Cons.prems(1) live q qs p by simp
        have "\<forall>b \<in> set bs. \<forall>sn. blob_snapshot c d b = Some sn \<longrightarrow> settled zones sn w1"
          using Cons.prems(3) settled_later [OF _ adv] by simp
        from Cons.IH [OF go ok this] show ?thesis using row by simp
      next
        case (Some e)
        then show ?thesis using Cons.prems(1) live q qs p ok row by auto
      qed
    qed
  qed
qed simp

lemma replay_archived:
  assumes "dk_faults d = []"
  shows "replay c cancelled sink lo hi (d, e, w) = replay_blobs c cancelled sink 0 (archived_blobs d lo hi) 0 (d, e, w)"
proof -
  have "d\<lparr>dk_faults := []\<rparr> = d" using assms by simp
  then have "discover_blobs d = (Inr (sort (List.map_filter parse_blob_path (map fst (dk_files d)))), d)"
    using assms by (simp add: discover_blobs_def next_disk_fault_def)
  then show ?thesis by (simp add: replay_def archived_blobs_def not_less)
qed

lemma finalize_rows:
  assumes "finalize_due now grace w = (r, w')"
  shows "stored w' key = stored w key \<or> (\<exists>row. stored w key = Some row \<and>
    due (finalize_cutoff now grace) row \<and> stored w' key = Some (finalize_row now row))"
  using finalize_table [OF assms] by (cases "stored w key") (auto simp: stored_def finalize_stmt_row split: if_splits)

text \<open>What a replay that succeeded leaves: the range settled, the archive as it was.\<close>

lemma run_replay_settles:
  assumes store: "store_ok w" and disk: "dk_faults d = []"
    and run: "run_replay xo cancelled clock now choices from_s to_s (d, w) = (Inr (n, k), d1, w1)"
  shows "\<exists>lo lo_loc hi hi_loc. parse_when (xo_local xo) from_s False = Inr (lo, lo_loc) \<and>
    parse_when (xo_local xo) to_s True = Inr (hi, hi_loc) \<and> d1 = d \<and> store_ok w1 \<and>
    (\<forall>b \<in> set (archived_blobs d lo hi). \<forall>sn. blob_snapshot (xo_codec xo) d b = Some sn \<longrightarrow> settled (xo_zones xo) sn w1)"
proof -
  let ?grace = "cf_finalize_grace (xo_cfg xo)"
  obtain lo lo_loc hi hi_loc wa en wb where
    range: "parse_when (xo_local xo) from_s False = Inr (lo, lo_loc)" "parse_when (xo_local xo) to_s True = Inr (hi, hi_loc)"
    and ens: "ensure_partitions (add_date_in lo_loc lo (- 1)) (add_date_in hi_loc hi 7) w = (None, wa)"
    and rep: "replay (xo_codec xo) cancelled (engine_sink (xo_zones xo) clock) lo hi (d, new_engine ?grace choices, wa) =
      ((n, None), d1, en, wb)"
    and fin: "finalize_due now ?grace wb = ((k, None), w1)"
    using run by (auto simp: run_replay_def split: sum.splits prod.splits option.splits)
  have ka: "keeps_events w wa" by (rule ensure_partitions_keeps [OF ens])
  have oka: "pg_engine.ok (xo_zones xo) (new_engine ?grace choices, wa)"
    using ka store engine_ok_new by (simp add: keeps_events_def engine_ok_pg)
  note settles = replay_settles [OF disk rep [unfolded replay_archived [OF disk]] oka]
  have okb: "store_ok wb" using settles by (simp add: pg_engine.advances_def pg_engine.ok_def)
  have fw: "pg.forward wb w1" using pg.forward_finalize [of wb now ?grace] fin by (simp add: store_events_def)
  have s1: "store_ok w1 \<and> db_active (sys_db w1) = db_active (sys_db wb) \<and> store_lookup w1 = store_lookup wb"
    using keeps_schedule_ok [OF finalize_keeps_schedule okb, of now ?grace] by (simp add: fin)
  have "settled (xo_zones xo) sn w1" if "b \<in> set (archived_blobs d lo hi)" "blob_snapshot (xo_codec xo) d b = Some sn" for b sn
    using settled_forward [OF _ fw] settles that s1 by blast
  then show ?thesis using range settles s1 by blast
qed

text \<open>
  C4: the derived events are a function of the archive. When a replay has succeeded, a second
  one of the same range, by the same process or another, at any time, cut short or with the
  database failing, changes no row but to freeze those that have become due in between, and
  neither of them changes the archive.
\<close>

theorem replay_twice:
  assumes store: "store_ok w" and disk: "dk_faults d = []"
    and first: "run_replay xo cancelled clock now choices from_s to_s (d, w) = (Inr (n, k), d1, w1)"
    and again: "store_ok w2" "sys_db w2 = (sys_db w1)\<lparr>db_faults := f\<rparr>"
    and second: "run_replay xo cancelled' clock' now' choices' from_s to_s (d1, w2) = (r, d2, w3)"
  shows "d1 = d \<and> d2 = d \<and> (\<forall>key. stored w3 key = stored w1 key \<or>
    (\<exists>row. stored w1 key = Some row \<and> due (finalize_cutoff now' (cf_finalize_grace (xo_cfg xo))) row \<and>
       stored w3 key = Some (finalize_row now' row)))"
proof -
  let ?grace = "cf_finalize_grace (xo_cfg xo)" and ?sink = "engine_sink (xo_zones xo)"
  obtain lo lo_loc hi hi_loc where range: "parse_when (xo_local xo) from_s False = Inr (lo, lo_loc)"
      "parse_when (xo_local xo) to_s True = Inr (hi, hi_loc)"
    and d1: "d1 = d" and ok1: "store_ok w1"
    and set1: "\<forall>b \<in> set (archived_blobs d lo hi). \<forall>sn. blob_snapshot (xo_codec xo) d b = Some sn \<longrightarrow> settled (xo_zones xo) sn w1"
    using run_replay_settles [OF store disk first] by blast
  obtain x wc where ens: "ensure_partitions (add_date_in lo_loc lo (- 1)) (add_date_in hi_loc hi 7) w2 = (x, wc)" by force
  have "same_schedule (sys_db w1) (sys_db w2)" by (simp add: again(2) same_schedule_def)
  then have "keeps_events w1 w2" using again by (auto simp: keeps_events_def stored_def same_schedule_reads)
  moreover have "keeps_events w2 wc" by (rule ensure_partitions_keeps [OF ens])
  ultimately have kc: "keeps_events w1 wc" by (rule keeps_events_trans)
  have okc: "pg_engine.ok (xo_zones xo) (new_engine ?grace choices', wc)"
    using kc ok1 engine_ok_new by (simp add: keeps_events_def engine_ok_pg)
  obtain y d3 en3 wd where rep: "replay (xo_codec xo) cancelled' (?sink clock') lo hi (d, new_engine ?grace choices', wc) = (y, d3, en3, wd)"
    by (rule prod_cases4)
  have "\<forall>b \<in> set (archived_blobs d lo hi). \<forall>sn. blob_snapshot (xo_codec xo) d b = Some sn \<longrightarrow> settled (xo_zones xo) sn wc"
    using set1 settled_same [OF _ kc ok1] by blast
  note same = replay_settled [OF disk rep [unfolded replay_archived [OF disk]] okc this]
  obtain q we where fin: "finalize_due now' ?grace wd = (q, we)" by (cases "finalize_due now' ?grace wd")
  have rows: "stored wd = stored w1" "stored wc = stored w1" using same kc by (simp_all add: keeps_events_def)
  have "d2 = d \<and> (w3 = wc \<or> w3 = wd \<or> w3 = we)"
    using second [unfolded d1] same
    by (auto simp: run_replay_def range ens rep fin split: sum.splits prod.splits option.splits)
  then show ?thesis using d1 rows finalize_rows [OF fin] by metis
qed

section \<open>A sample\<close>

text \<open>An archive of one response, with a trip update of the sample schedule.\<close>

definition sample_message :: pb_message where
  "sample_message =
     \<lparr>pm_timestamp = Some 1785578000,
      pm_entities = [\<lparr>pe_trip_update = Some
        \<lparr>pb_trip = Some \<lparr>pt_trip_id = Some ''T1'', pt_route_id = None, pt_direction_id = None, pt_start_time = None,
           pt_start_date = Some ''20260801'', pt_relationship = None\<rparr>,
         pb_vehicle = None,
         pb_stop_updates = [\<lparr>pu_stop_sequence = Some 2, pu_stop_id = None,
           pu_arrival = Some \<lparr>pv_delay = None, pv_time = Some 1785578760\<rparr>, pu_departure = None, pu_relationship = None\<rparr>],
         pb_timestamp = None, pb_delay = None\<rparr>, pe_vehicle = None\<rparr>]\<rparr>"

definition sample_feed :: codec where
  "sample_feed = sample_codec\<lparr>cd_proto := (cd_proto sample_codec)\<lparr>pr_unmarshal := (\<lambda>_. Inr sample_message)\<rparr>\<rparr>"

definition sample_path :: string where
  "sample_path = blob_path feed_trip_updates (unix_time 1785578000) (replicate 8 (CHR ''0''))"

definition sample_archive :: disk where
  "sample_archive = \<lparr>dk_files = [(sample_path, ''x'')], dk_dirs = [], dk_faults = []\<rparr>"

definition sample_seen :: "string \<Rightarrow> string \<Rightarrow> snapshot" where
  "sample_seen sha path =
     \<lparr>sn_feed = feed_trip_updates, sn_polled_at = unix_time 1785578000, sn_feed_timestamp = 1785578000,
      sn_raw_sha256 = sha, sn_raw_path = path,
      sn_trip_updates =
        [\<lparr>tu_trip_id = ''T1'', tu_route_id = [], tu_direction_id = - 1, tu_start_date = ''20260801'', tu_start_time = [],
          tu_schedule_relationship = ''SCHEDULED'', tu_vehicle_id = [], tu_timestamp = 0, tu_delay_secs = 0,
          tu_delay_set = False,
          tu_stop_time_updates =
            [\<lparr>stu_stop_sequence = 2, stu_stop_id = [], stu_arrival_time = 1785578760, stu_arrival_delay = 0,
              stu_arrival_delay_set = False, stu_departure_time = 0, stu_departure_delay = 0,
              stu_departure_delay_set = False, stu_relationship = ''SCHEDULED''\<rparr>]\<rparr>],
      sn_vehicles = []\<rparr>"

definition sample_rederiver :: outside where
  "sample_rederiver = sample_outer\<lparr>xo_codec := sample_feed, xo_zones := (\<lambda>_. Inr utc)\<rparr>"

lemma sample_rederiver_sel [simp]:
  "xo_codec sample_rederiver = sample_feed" "xo_zones sample_rederiver = (\<lambda>_. Inr utc)" "xo_local sample_rederiver = utc"
  by (simp_all add: sample_rederiver_def sample_outer_def)

lemma sample_grace [simp]: "cf_finalize_grace (xo_cfg sample_rederiver) = 10 * minute"
  by code_simp

lemma sample_parsed: "parse_blob_path sample_path = Some (Blob feed_trip_updates 1785578000 sample_path)"
proof -
  have "to_unix (unix_time 1785578000) = 1785578000" by (intro to_unix_unix_time) simp
  moreover have "list_all is_hex (replicate 8 (CHR ''0''))" by code_simp
  ultimately show ?thesis
    using blob_path_round_trip_parse [of feed_trip_updates "unix_time 1785578000" "replicate 8 (CHR ''0'')"]
    by (simp add: sample_path_def known_feed_def)
qed

lemma sample_message_decoded: "decode_feed (cd_proto sample_feed) feed_trip_updates ''x'' (unix_time 1785578000) = Inr (sample_seen [] [])"
  by code_simp

lemma sample_read:
  "read_blob sample_feed (Blob feed_trip_updates 1785578000 sample_path) sample_archive =
     (Inr (sample_seen (cd_sha sample_feed ''x'') sample_path), sample_archive)"
proof -
  have "cd_gunzip sample_feed ''x'' = Inr ''x''" by (simp add: sample_feed_def sample_codec_def)
  then show ?thesis
    by (simp add: read_blob_def sample_archive_def next_disk_fault_def sample_message_decoded) (simp add: sample_seen_def)
qed

text \<open>Over any partitions: one snapshot, three stops ahead of the vehicle, all of them past at noon.\<close>

lemma sample_replayed:
  "case process (store_deps (\<lambda>_. Inr utc)) None (unix_time 1785585600) (Some (sample_seen sha path))
       (new_engine (10 * minute) [], on_db (\<lambda>d. sample_db\<lparr>db_partitions := ps\<rparr>) (opened_store [])) of
     (err, en, w) \<Rightarrow> err = None \<and>
       (case finalize_due (unix_time 1785585600) (10 * minute) w of
          ((k, e), w') \<Rightarrow> k = 3 \<and> e = None \<and> length (db_stop_events (sys_db w')) = 3 \<and>
            list_all (\<lambda>(key, row). re_final row) (db_stop_events (sys_db w')))"
  by code_simp

text \<open>The first replay, through the partitions it adds.\<close>

definition sample_tables :: "store sys" where
  "sample_tables = on_db (\<lambda>_. sample_db) (opened_store [])"

lemma sample_tables_ok: "store_ok sample_tables"
  by (simp add: sample_tables_def store_ok_def faults_ok_def opened_store_def empty_db_def sample_db_def on_db_def)

lemma sample_prepared: "\<exists>ps. ensure_partitions lo hi sample_tables = (None, on_db (\<lambda>d. sample_db\<lparr>db_partitions := ps\<rparr>) (opened_store []))"
proof -
  have "weekly_ok sample_db" "db_faults sample_db = []" by (simp_all add: weekly_ok_def sample_db_def empty_db_def al_wf_def)
  then obtain w' where w': "ensure_partitions lo hi sample_tables = (None, w')" "grown sample_db (sys_db w')"
    using ensure_weeks_up [of sample_tables "monday (local_day utc lo)" "monday (local_day utc hi)"]
    by (auto simp: ensure_partitions_def week_start sample_tables_def on_db_def monday_def simp del: day_second)
  then obtain ps where ps: "sys_db w' = sample_db\<lparr>db_partitions := ps\<rparr>" by (auto simp: grown_def)
  obtain d where "w' = on_db (\<lambda>_. d) sample_tables" using ensure_partitions_db [OF w'(1)] ..
  then have "w' = on_db (\<lambda>d. sample_db\<lparr>db_partitions := ps\<rparr>) (opened_store [])"
    using ps by (simp add: on_db_def sample_tables_def)
  then show ?thesis using w'(1) by blast
qed

abbreviation sample_run :: "instant \<Rightarrow> nat list \<Rightarrow> disk \<times> store sys \<Rightarrow> (int \<times> int) result \<times> disk \<times> store sys" where
  "sample_run now choices s \<equiv> run_replay sample_rederiver (\<lambda>_. False) (\<lambda>_. now) now choices ''2026-08-01'' ''2026-08-01'' s"

lemma sample_first:
  "\<exists>w1. sample_run (unix_time 1785585600) [] (sample_archive, sample_tables) = (Inr (1, 3), sample_archive, w1) \<and>
     length (db_stop_events (sys_db w1)) = 3 \<and> list_all (\<lambda>(key, row). re_final row) (db_stop_events (sys_db w1))"
proof -
  have iso: "iso_day 739828 = ''2026-08-01''" by code_simp
  have "four_digit_day 739828" by (simp add: four_digit_day_def days_before_year_def)
  note dates = parse_when_iso [OF this, of utc, unfolded iso]
  obtain ps where ens: "ensure_partitions (add_date_in utc (midnight 739828) (- 1)) (add_date_in utc (midnight (739828 + 1) - second) 7)
      sample_tables = (None, on_db (\<lambda>d. sample_db\<lparr>db_partitions := ps\<rparr>) (opened_store []))"
    using sample_prepared by blast
  have lo: "to_unix (midnight 739828) = 1785542400" and hi: "to_unix (midnight (739828 + 1) - second) = 1785628799" by code_simp+
  have blobs: "archived_blobs sample_archive (midnight 739828) (midnight (739828 + 1) - second) =
      [Blob feed_trip_updates 1785578000 sample_path]"
    by (simp only: archived_blobs_def lo hi) (simp add: sample_archive_def map_filter_simps sample_parsed)
  have disk: "dk_faults sample_archive = []" by (simp add: sample_archive_def)
  obtain err en w2 where p: "process (store_deps (\<lambda>_. Inr utc)) None (unix_time 1785585600)
      (Some (sample_seen (cd_sha sample_feed ''x'') sample_path))
      (new_engine (10 * minute) [], on_db (\<lambda>d. sample_db\<lparr>db_partitions := ps\<rparr>) (opened_store [])) = (err, en, w2)"
    by (rule prod_cases3)
  obtain k e w3 where f: "finalize_due (unix_time 1785585600) (10 * minute) w2 = ((k, e), w3)" by (metis prod.exhaust)
  have res: "err = None" "k = 3" "e = None" "length (db_stop_events (sys_db w3)) = 3"
    "list_all (\<lambda>(key, row). re_final row) (db_stop_events (sys_db w3))"
    using sample_replayed [of "cd_sha sample_feed ''x''" sample_path ps] by (simp_all add: p f)
  have "sample_run (unix_time 1785585600) [] (sample_archive, sample_tables) = (Inr (1, 3), sample_archive, w3)"
    by (simp only: run_replay_def prod.case sample_rederiver_sel dates sum.case ens option.case sample_grace replay_archived [OF disk] blobs
        replay_blobs.simps if_False sample_read p res f add_0)
  then show ?thesis using res by blast
qed

theorem replay_twice_witness:
  "\<exists>w1. sample_run (unix_time 1785585600) [] (sample_archive, sample_tables) = (Inr (1, 3), sample_archive, w1) \<and>
     length (db_stop_events (sys_db w1)) = 3 \<and>
     stored (snd (snd (sample_run (unix_time 1785672000) [1] (sample_archive, w1)))) = stored w1"
proof -
  obtain w1 where first: "sample_run (unix_time 1785585600) [] (sample_archive, sample_tables) = (Inr (1, 3), sample_archive, w1)"
    and rows: "length (db_stop_events (sys_db w1)) = 3" "list_all (\<lambda>(key, row). re_final row) (db_stop_events (sys_db w1))"
    using sample_first by blast
  have disk: "dk_faults sample_archive = []" by (simp add: sample_archive_def)
  have ok: "store_ok w1" using run_replay_settles [OF sample_tables_ok disk first] by blast
  obtain r d2 w3 where second: "sample_run (unix_time 1785672000) [1] (sample_archive, w1) = (r, d2, w3)" by (rule prod_cases3)
  have "\<not> due c row" if "stored w1 key = Some row" for c key row
    using rows(2) map_of_SomeD [OF that [unfolded stored_def]] by (auto simp: list_all_iff due_def)
  then have "stored w3 key = stored w1 key" for key
    using replay_twice [OF sample_tables_ok disk first ok _ second, of "db_faults (sys_db w1)"] by fastforce
  then show ?thesis using first rows second by auto
qed

end
