(* ===== verification/Serving.thy ===== *)
theory Serving
  imports Service
begin

text \<open>
  The server as one state: \<open>runServe\<close> of \<open>cmd/ridewatch/main.go\<close>, whose pollers, tickers and
  requests change the same tables, engine and archive in turn; and what holds of that state in
  every history, restarts and failures included.
\<close>

section \<open>What the parts promise of the tables\<close>

definition tables_ok :: "go_lib \<Rightarrow> db \<Rightarrow> bool" where
  "tables_ok lib d \<longleftrightarrow> schedule_ok d \<and> events_ok (db_stop_events d) \<and> weekly_ok d \<and> subs_ok d \<and> rows_valid lib d"

text \<open>A step is safe when it keeps the tables good and lets no spent alert be used again.\<close>

definition safe :: "go_lib \<Rightarrow> store sys \<Rightarrow> store sys \<Rightarrow> bool" where
  "safe lib w w' \<longleftrightarrow> (tables_ok lib (sys_db w) \<longrightarrow>
     tables_ok lib (sys_db w') \<and> (\<forall>x. spent (sys_db w) x \<longrightarrow> spent (sys_db w') x))"

lemma safe_refl [simp, intro]: "safe lib w w"
  by (simp add: safe_def)

lemma safe_trans: "safe lib a b \<Longrightarrow> safe lib b c \<Longrightarrow> safe lib a c"
  by (auto simp: safe_def)

lemma safe_on_metrics [simp]: "safe lib (on_metrics f w) w' = safe lib w w'" "safe lib w (on_metrics f w') = safe lib w w'"
  by (simp_all add: safe_def)

lemma tables_ok_faults [simp]: "tables_ok lib (d\<lparr>db_faults := f\<rparr>) = tables_ok lib d"
  by (simp add: tables_ok_def)

lemma spent_faults [simp]: "spent (d\<lparr>db_faults := f\<rparr>) = spent d"
  by (simp add: spent_def fun_eq_iff)

lemma safe_faults: "sys_db w' = (sys_db w)\<lparr>db_faults := f\<rparr> \<Longrightarrow> safe lib w w'"
  by (simp add: safe_def)

lemma safe_only: "only_faults w w' \<Longrightarrow> safe lib w w'"
  using only_faults_db safe_faults by blast

text \<open>The tables that are not part of any promise.\<close>

definition promised :: "db \<Rightarrow> db" where
  "promised d = d\<lparr>db_positions := [], db_raw_polls := [], db_poll_seq := 0, db_stop_hour := [], db_departure := [],
     db_route_hour := [], db_loose_tables := [], db_migrations := [], db_clock := 0, db_faults := []\<rparr>"

lemma promised_ok:
  assumes "promised d' = promised d"
  shows "tables_ok lib d' = tables_ok lib d" "spent d' = spent d"
proof -
  have "table_rows tb (promised d) = table_rows tb d" for tb d
    by (cases tb) (simp_all add: promised_def)
  then have p: "schedule_part (promised d) = schedule_part d" "db_version_seq (promised d) = db_version_seq d" for d
    by (simp_all add: schedule_part_eq) (simp_all add: promised_def)
  have q: "schedule_ok (promised d) = schedule_ok d" for d by (rule schedule_ok_part(1) [OF p])
  have r: "events_ok (db_stop_events (promised d)) = events_ok (db_stop_events d)" "weekly_ok (promised d) = weekly_ok d"
    "subs_ok (promised d) = subs_ok d" "rows_valid lib (promised d) = rows_valid lib d" "spent (promised d) = spent d" for d
    by (simp_all add: promised_def weekly_ok_def subs_ok_def spent_def fun_eq_iff)
  show "tables_ok lib d' = tables_ok lib d" unfolding tables_ok_def using assms q r by metis
  show "spent d' = spent d" using assms r(5) by metis
qed

lemma safe_promised: "promised (sys_db w') = promised (sys_db w) \<Longrightarrow> safe lib w w'"
  using promised_ok by (metis safe_def)

section \<open>The engine\<close>

text \<open>Whatever is reflexive, transitive and holds of the calls an engine makes holds of its passes.\<close>

locale engine_calls =
  fixes dp :: "'s deps" and leads :: "'s sys \<Rightarrow> 's sys \<Rightarrow> bool"
  assumes leads_refl: "leads w w" and leads_trans: "leads a b \<Longrightarrow> leads b c \<Longrightarrow> leads a c"
    and counts: "leads w (on_metrics f w)"
    and active: "sr_active_version (dp_sched dp) w = (r, w') \<Longrightarrow> leads w w'"
    and trip_lookup: "sr_trip_schedule (dp_sched dp) v t w = (x, w') \<Longrightarrow> leads w w'"
    and upsert: "es_upsert (dp_events dp) evs w = (y, w') \<Longrightarrow> leads w w'"
    and insert_positions: "es_insert_positions (dp_events dp) vps w = (y, w') \<Longrightarrow> leads w w'"
    and finalize: "es_finalize_due (dp_events dp) now grace w = (z, w') \<Longrightarrow> leads w w'"
begin

lemma lookup_leads: "engine_trip_schedule dp v t (en, w) = (r, en', w') \<Longrightarrow> leads w w'"
  by (auto simp: engine_trip_schedule_def intro: leads_refl dest: trip_lookup
      split: option.splits sum.splits prod.splits if_splits)

lemma reconcile_leads: "reconcile_trip dp tu snap ver loc (en, w) = (r, en', w') \<Longrightarrow> leads w w'"
  by (auto simp: reconcile_trip_def intro: leads_trans [OF _ counts] dest: lookup_leads
      split: option.splits sum.splits prod.splits if_splits)

lemma collect_leads: "collect_events dp snap vl tus (en, w) = (r, en', w') \<Longrightarrow> leads w w'"
proof (induction tus arbitrary: en w r en' w')
  case Nil
  then show ?case by (simp add: leads_refl)
next
  case (Cons tu tus)
  show ?case
  proof (cases vl)
    case None
    then have "leads (inc_unmatched w) w'" using Cons.IH Cons.prems by simp
    then show ?thesis using leads_trans [OF counts] by blast
  next
    case (Some vl')
    obtain ver loc where vl: "vl' = (ver, loc)" by force
    obtain q en1 w1 where q: "reconcile_trip dp tu snap ver loc (en, w) = (q, en1, w1)" by (metis prod_cases3)
    obtain q2 en2 w2 where rest: "collect_events dp snap vl tus (en1, w1) = (q2, en2, w2)" by (metis prod_cases3)
    have "w' = w1 \<or> w' = w2" using Cons.prems q rest by (auto simp: Some vl split: sum.splits)
    then show ?thesis using reconcile_leads [OF q] Cons.IH [OF rest] leads_trans by blast
  qed
qed

lemma trip_updates_leads: "process_trip_updates dp snap vl (en, w) = (r, en', w') \<Longrightarrow> leads w w'"
  by (auto simp: process_trip_updates_def dest!: collect_leads intro: leads_trans dest: upsert
      split: sum.splits prod.splits option.splits if_splits)

lemma live_entries_leads: "live_entries dp snap ver vps (en, w) = (les, en', w') \<Longrightarrow> leads w w'"
proof (induction vps arbitrary: en w les)
  case (Cons vp vps)
  obtain le en1 w1 where l: "live_entry_of dp snap ver vp (en, w) = (le, en1, w1)" by (metis prod_cases3)
  have "leads w w1"
    using l by (auto simp: live_entry_of_def Let_def intro: leads_refl dest: lookup_leads
        split: option.splits prod.splits sum.splits if_splits)
  then show ?case using Cons l leads_trans by (auto split: if_splits prod.splits)
qed (simp add: leads_refl)

lemma positions_leads: "process_vehicle_positions dp snap ver (en, w) = (r, en', w') \<Longrightarrow> leads w w'"
  by (auto simp: process_vehicle_positions_def Let_def dest!: live_entries_leads insert_positions
      intro: leads_refl leads_trans [OF _ counts] leads_trans split: prod.splits option.splits if_splits)

lemma process_leads:
  assumes "process dp ctx now snap (en, w) = (r, en', w')"
  shows "leads w w'"
proof (cases "snap = None \<or> ctx \<noteq> None")
  case True
  then show ?thesis using assms by (auto simp: process_def leads_refl split: option.splits)
next
  case False
  then obtain sn where sn: "snap = Some sn" "ctx = None" by auto
  obtain q en1 w1 where rv: "resolve_version dp (en, w) = (q, en1, w1)" by (metis prod_cases3)
  have 1: "leads w w1"
    using rv by (auto simp: resolve_version_def dest!: active split: prod.splits sum.splits if_splits)
  show ?thesis
  proof (cases q)
    case (Inl e)
    then show ?thesis using assms 1 by (simp add: process_def sn rv)
  next
    case (Inr vl)
    obtain x en2 w2 where x: "(if sn_feed sn = feed_trip_updates then process_trip_updates dp sn vl (en1, w1)
        else if sn_feed sn = feed_vehicle_positions then process_vehicle_positions dp sn (map_option fst vl) (en1, w1)
        else (None, (en1, w1))) = (x, en2, w2)" by (metis prod_cases3)
    have 2: "leads w1 w2"
      using x trip_updates_leads positions_leads leads_refl by (auto split: if_splits)
    have "w' = w2 \<or> (\<exists>f. w' = on_metrics f w2)"
      using assms [unfolded process_def sn option.case rv prod.case Inr sum.case x]
      by (auto simp: note_header_def Let_def split: option.splits)
    then show ?thesis using leads_trans [OF 1 2] counts leads_trans by blast
  qed
qed

lemma sweep_leads: "sweep dp ctx now (en, w) = (r, en', w') \<Longrightarrow> leads w w'"
  by (auto simp: sweep_def Let_def dest!: finalize intro: leads_refl leads_trans [OF counts] leads_trans [OF leads_trans [OF counts] counts]
      split: option.splits prod.splits)

end

section \<open>The engine over the store\<close>

lemma events_ok_filter: "events_ok t \<Longrightarrow> events_ok (filter P t)"
  by (auto simp: events_ok_def al_wf_def list_all_iff distinct_map_filter)

lemma safe_events:
  assumes "promised (sys_db w') = (promised (sys_db w))\<lparr>db_stop_events := db_stop_events (sys_db w')\<rparr>"
    and "events_ok (db_stop_events (sys_db w)) \<Longrightarrow> events_ok (db_stop_events (sys_db w'))"
  shows "safe lib w w'"
proof -
  have "tables_ok lib ((sys_db w)\<lparr>db_stop_events := t\<rparr>)" if "tables_ok lib (sys_db w)" "events_ok t" for t
  proof -
    have "table_rows tb ((sys_db w)\<lparr>db_stop_events := t\<rparr>) = table_rows tb (sys_db w)" for tb by (cases tb) simp_all
    then have "schedule_ok ((sys_db w)\<lparr>db_stop_events := t\<rparr>) = schedule_ok (sys_db w)"
      by (intro schedule_ok_part(1)) (simp_all add: schedule_part_eq)
    then show ?thesis using that by (simp add: tables_ok_def weekly_ok_def subs_ok_def)
  qed
  moreover have p: "promised (sys_db w') = promised ((sys_db w)\<lparr>db_stop_events := db_stop_events (sys_db w')\<rparr>)"
    using assms(1) by (simp add: promised_def)
  moreover have "events_ok (db_stop_events (sys_db w'))" if "tables_ok lib (sys_db w)"
    using assms(2) that by (simp add: tables_ok_def)
  ultimately have "tables_ok lib (sys_db w')" if "tables_ok lib (sys_db w)" using that promised_ok(1) [OF p] by blast
  moreover have "spent (sys_db w') = spent (sys_db w)"
    unfolding promised_ok(2) [OF p] by (simp add: spent_def fun_eq_iff)
  ultimately show ?thesis by (simp add: safe_def)
qed

lemma upsert_safe: "upsert_stop_events evs w = (r, w') \<Longrightarrow> safe lib w w'"
proof (rule safe_events)
  assume run: "upsert_stop_events evs w = (r, w')"
  then show "promised (sys_db w') = (promised (sys_db w))\<lparr>db_stop_events := db_stop_events (sys_db w')\<rparr>"
    by (auto simp: upsert_stop_events_def promised_def split: sum.splits prod.splits if_splits)
  show "events_ok (db_stop_events (sys_db w'))" if "events_ok (db_stop_events (sys_db w))"
    using events_step_ok [OF Upsert [OF run] that] .
qed

lemma positions_safe: "insert_vehicle_positions ps w = (r, w') \<Longrightarrow> safe lib w w'"
  by (rule safe_promised) (auto simp: insert_vehicle_positions_def promised_def Let_def split: prod.splits if_splits)

lemma finalize_safe: "finalize_due now grace w = (r, w') \<Longrightarrow> safe lib w w'"
proof (rule safe_events)
  assume run: "finalize_due now grace w = (r, w')"
  then show "promised (sys_db w') = (promised (sys_db w))\<lparr>db_stop_events := db_stop_events (sys_db w')\<rparr>"
    by (auto simp: finalize_due_def db_exec_def finalize_stmt_def promised_def split: option.splits fault.splits)
  show "events_ok (db_stop_events (sys_db w'))" if "events_ok (db_stop_events (sys_db w))"
    using events_step_ok [OF Finalize [OF run] that] .
qed

lemma query_faults: "db_query q w = (r, w') \<Longrightarrow> \<exists>f. sys_db w' = (sys_db w)\<lparr>db_faults := f\<rparr>"
  using db_query_only only_faults_db by blast

lemma active_safe: "store_active_version w = (r, w') \<Longrightarrow> safe lib w w'"
  by (auto simp: store_active_version_def dest!: query_faults intro: safe_faults split: prod.splits sum.splits option.splits)

lemma load_trip_safe: "load_trip_schedule v trip w = (r, w') \<Longrightarrow> safe lib w w'"
  by (auto simp: load_trip_schedule_def dest!: query_faults intro: safe_faults
      split: prod.splits sum.splits option.splits)

lemma cache_put_db: "st_db (store_cache_put v trip ts s) = st_db s"
  by (simp add: store_cache_put_def store_evict_def Let_def)

lemma trip_schedule_safe:
  assumes "store_trip_schedule v trip w = (r, w')"
  shows "safe lib w w'"
proof -
  define w0 where "w0 = on_store (\<lambda>s. if st_trip_cache_version s \<noteq> v
      then s\<lparr>st_trip_cache := [], st_trip_cache_version := v\<rparr> else s) w"
  have db0: "sys_db w0 = sys_db w" by (simp add: w0_def)
  obtain x w1 where load: "load_trip_schedule v trip w0 = (x, w1)" by (metis surj_pair)
  have "sys_db w' = sys_db w0 \<or> sys_db w' = sys_db w1"
    using assms load unfolding store_trip_schedule_def w0_def [symmetric] Let_def
    by (auto simp: cache_put_db split: option.splits sum.splits)
  then show ?thesis using load_trip_safe [OF load, of lib] by (auto simp: safe_def db0)
qed

interpretation live: engine_calls "store_deps zones" "safe lib" for zones lib
  by unfold_locales
    (auto simp: store_deps_def store_schedule_def store_events_def
      intro: safe_trans upsert_safe positions_safe finalize_safe active_safe trip_schedule_safe)

section \<open>Passes of the evaluator\<close>

locale pass_calls =
  fixes pe :: "'s evaluator" and leads :: "'s sys \<Rightarrow> 's sys \<Rightarrow> bool"
  assumes leads_refl: "leads w w" and leads_trans: "leads a b \<Longrightarrow> leads b c \<Longrightarrow> leads a c"
    and counts: "leads w (on_metrics f w)"
    and list_all_subs: "ss_all (pe_subs pe) w = (l, w') \<Longrightarrow> leads w w'"
    and mark: "ss_mark_sent (pe_subs pe) i k w = (m, w') \<Longrightarrow> leads w w'"
    and record_result: "ss_record_result (pe_subs pe) i success gone w = (x, w') \<Longrightarrow> leads w w'"
    and ask_stop: "sq_stop (pe_queries pe) q w = (y, w') \<Longrightarrow> leads w w'"
    and ask_route: "sq_route (pe_queries pe) q w = (z, w') \<Longrightarrow> leads w w'"
begin

lemma names_leads:
  "stop_name (pe_queries pe) a c w = (n, c', w') \<Longrightarrow> leads w w'"
  "route_name (pe_queries pe) a c w = (n, c', w') \<Longrightarrow> leads w w'"
  by (auto simp: stop_name_def route_name_def Let_def intro: leads_refl dest: ask_stop ask_route
      split: option.splits prod.splits)

lemma deliver_leads: "leads (ps_sys p) (ps_sys (deliver pe sub ev d p))"
proof -
  obtain route routes w1 where r: "route_name (pe_queries pe) (se_route_id ev) (ps_route_names p) (ps_sys p) = (route, routes, w1)"
    by (metis prod_cases3)
  obtain stop stops w2 where s: "stop_name (pe_queries pe) (sub_stop_id sub) (ps_stop_names p) w1 = (stop, stops, w2)"
    by (metis prod_cases3)
  have "leads (ps_sys p) w2" using names_leads(2) [OF r] names_leads(1) [OF s] leads_trans by blast
  then have "leads (ps_sys p) (on_metrics f w2)" for f using counts leads_trans by blast
  then show ?thesis
    by (auto simp: deliver_def r s Let_def intro: leads_trans dest: record_result split: prod.split)
qed

lemma event_leads: "leads (ps_sys p) (ps_sys (evaluate_event pe sub ev p))"
proof (cases "alertable sub ev")
  case None
  then show ?thesis by (simp add: evaluate_event_def leads_refl)
next
  case (Some d)
  obtain m w1 where m: "ss_mark_sent (pe_subs pe) (sub_id sub) (event_key_of ev) (ps_sys p) = (m, w1)" by force
  have "leads w1 (ps_sys (deliver pe sub ev d (p\<lparr>ps_sys := w1\<rparr>)))" using deliver_leads [of "p\<lparr>ps_sys := w1\<rparr>"] by simp
  then have "leads (ps_sys p) (ps_sys (deliver pe sub ev d (p\<lparr>ps_sys := w1\<rparr>)))" by (rule leads_trans [OF mark [OF m]])
  moreover have "leads (ps_sys p) w1" by (rule mark [OF m])
  ultimately show ?thesis by (simp add: evaluate_event_def Some m split: sum.split)
qed

lemma subscription_leads: "leads (ps_sys p) (ps_sys (evaluate_subscription pe sub p))"
  unfolding evaluate_subscription_def
  by (rule fold_inv [where P = "\<lambda>q. leads (ps_sys p) (ps_sys q)"]) (use leads_refl event_leads leads_trans in blast)+

lemma all_leads: "evaluate_all pe cancelled n subs p = (e, p') \<Longrightarrow> leads (ps_sys p) (ps_sys p')"
proof (induction subs arbitrary: n p)
  case (Cons sub subs)
  then show ?case by (auto intro: leads_refl leads_trans [OF subscription_leads] split: if_splits)
qed (simp add: leads_refl)

lemma evaluate_leads: "evaluate pe cancelled (sent, w) = (e, sent', w') \<Longrightarrow> leads w w'"
  by (auto simp: evaluate_def dest!: list_all_subs all_leads intro: leads_trans split: prod.splits sum.splits)

end

lemma safe_subs:
  assumes p: "promised d' = (promised d)\<lparr>db_subscriptions := db_subscriptions d', db_push_sent := db_push_sent d',
      db_subscription_seq := db_subscription_seq d'\<rparr>"
    and step: "subs_step d d'" and valid: "subs_ok d \<Longrightarrow> rows_valid lib d \<Longrightarrow> rows_valid lib d'"
    and w: "sys_db w = d" "sys_db w' = d'\<lparr>db_faults := f\<rparr>"
  shows "safe lib w w'"
proof -
  let ?d = "d\<lparr>db_subscriptions := db_subscriptions d', db_push_sent := db_push_sent d', db_subscription_seq := db_subscription_seq d'\<rparr>"
  have eq: "promised d' = promised ?d" using p by (simp add: promised_def)
  have "table_rows tb ?d = table_rows tb d" for tb by (cases tb) simp_all
  then have "schedule_ok ?d = schedule_ok d" by (intro schedule_ok_part(1)) (simp_all add: schedule_part_eq)
  moreover have "subs_ok ?d = subs_ok d'" by (simp add: subs_ok_def)
  moreover have "rows_valid lib ?d = rows_valid lib d'" by simp
  ultimately have "tables_ok lib ?d" if "tables_ok lib d"
    using that step valid by (simp add: tables_ok_def subs_step_def weekly_ok_def)
  then have "tables_ok lib d'" if "tables_ok lib d" using that promised_ok(1) [OF eq] by blast
  then show ?thesis using step by (simp add: safe_def w subs_step_def tables_ok_def)
qed

lemma mark_safe:
  assumes "mark_push_sent i k w = (r, w')"
  shows "safe lib w w'"
proof (cases "date_from_service_date (ek_service_date k)")
  case (Inr day)
  obtain x w1 where run: "db_run (mark_stmt i (key_row day k)) w = (x, w1)" by force
  have "w' = w1" using assms run by (auto simp: mark_push_sent_def Inr split: sum.splits)
  moreover have "safe lib w w1"
    using db_run_effect [OF run]
  proof (elim conjE disjE exE)
    fix d n
    assume st: "mark_stmt i (key_row day k) (sys_db w) = Inr (d, n)" "sys_db w1 = drop_fault d"
    note step = conjunct1 [OF mark_stmt_step [OF st(1)]]
    consider "d = sys_db w" | ps where "d = (sys_db w)\<lparr>db_push_sent := ps\<rparr>"
      using st(1) by (auto simp: mark_stmt_def split: if_splits)
    then show ?thesis
    proof cases
      case 1
      then show ?thesis using st(2) safe_faults by simp
    next
      case 2
      show ?thesis by (rule safe_subs [OF _ step _ refl st(2)]) (simp_all add: 2 promised_def)
    qed
  qed (use safe_faults in blast)
  ultimately show ?thesis by simp
qed (use assms in \<open>auto simp: mark_push_sent_def\<close>)

lemma delete_safe:
  assumes "db_exec (delete_subscriptions P) w = (r, w')"
  shows "safe lib w w'"
  using db_exec_effect [OF assms]
proof (elim conjE disjE)
  assume w': "sys_db w' = drop_fault (fst (delete_subscriptions P (sys_db w)))"
  show ?thesis
    by (rule safe_subs [OF _ delete_subscriptions_step _ refl w'])
      (auto simp: delete_subscriptions_def Let_def promised_def list_all_iff)
qed (use safe_faults in blast)

lemma update_safe:
  assumes "db_exec (update_subscription i f) w = (r, w')" and "\<And>d x. rb_endpoint (f d x) = rb_endpoint x"
    and "\<And>d x. valid_row lib (f d x) = valid_row lib x"
  shows "safe lib w w'"
  using db_exec_effect [OF assms(1)]
proof (elim conjE disjE)
  assume w': "sys_db w' = drop_fault (fst (update_subscription i f (sys_db w)))"
  show ?thesis
    by (rule safe_subs [OF _ update_subscription_step _ refl w'])
      (use assms(2,3) in \<open>auto simp: update_subscription_def promised_def list_all_iff\<close>)
qed (use safe_faults in blast)

lemma record_safe: "record_push_result i success gone w = (x, w') \<Longrightarrow> safe lib w w'"
  by (auto simp: record_push_result_def Let_def valid_row_def split: prod.splits sum.splits if_splits
      intro: delete_safe update_safe)

lemma list_safe: "all_subscriptions w = (l, w') \<Longrightarrow> safe lib w w'"
  by (auto simp: all_subscriptions_def dest!: query_faults intro: safe_faults split: prod.splits sum.splits)

interpretation alerts: pass_calls
  "new_evaluator horizon store_subscriptions src (store_queries collate go_lower pg_lower) send agency zone" "safe lib"
  for horizon src collate go_lower pg_lower send agency zone lib
  by unfold_locales
    (auto simp: new_evaluator_def store_subscriptions_def store_queries_def query_stop_def query_route_def
      intro: safe_trans mark_safe record_safe list_safe safe_only row_query_only)

section \<open>Requests\<close>

lemma save_stmt_promised:
  assumes "save_stmt sub d = Inr (d', i)"
  shows "promised d' = (promised d)\<lparr>db_subscriptions := db_subscriptions d', db_push_sent := db_push_sent d',
    db_subscription_seq := db_subscription_seq d'\<rparr>"
  using assms by (auto simp: save_stmt_def promised_def split: if_splits option.splits)

lemma save_safe:
  assumes run: "save_subscription sub w = (x, w')" and valid: "\<And>r. stored_as sub r \<Longrightarrow> valid_row lib r"
  shows "safe lib w w'"
proof -
  obtain y w1 where db: "db_run (save_stmt sub) w = (y, w1)" by force
  have "w' = w1" using run db by (auto simp: save_subscription_def split: sum.splits)
  moreover have "safe lib w w1"
    using db_run_effect [OF db]
  proof (elim conjE disjE exE)
    fix d i
    assume st: "save_stmt sub (sys_db w) = Inr (d, i)" "sys_db w1 = drop_fault d"
    show ?thesis
      by (rule safe_subs [OF save_stmt_promised [OF st(1)] save_stmt_step [OF st(1)] _ refl st(2)])
        (use save_stmt_valid [OF st(1) _ _ valid] in blast)
  qed (use safe_faults in blast)
  ultimately show ?thesis by simp
qed

lemma request_safe:
  assumes "over_store collate go_lower pg_lower sv" and "serve_request sv rq w = (rp, w')" and "sv_lib sv = lib"
  shows "safe lib w w'"
  using request_writes [OF assms(1,2)]
proof cases
  case 1
  then show ?thesis by (rule safe_only)
next
  case (2 e x)
  then show ?thesis by (auto simp: delete_subscription_def intro: delete_safe split: prod.splits sum.splits)
next
  case (3 req sub w1 x)
  have "\<And>r. stored_as sub r \<Longrightarrow> valid_row lib r" using check_request_valid [OF 3(1)] assms(3) by blast
  then show ?thesis using safe_trans [OF safe_only [OF 3(2)] save_safe [OF 3(3)]] by blast
qed

section \<open>Loads of the schedule\<close>

definition besides_schedule :: "db \<Rightarrow> db" where
  "besides_schedule d = d\<lparr>db_versions := [], db_trips := [], db_stop_times := [], db_routes := [], db_stops := [],
     db_calendar := [], db_calendar_dates := [], db_version_seq := 0, db_faults := []\<rparr>"

abbreviation only_schedule :: "store sys \<Rightarrow> store sys \<Rightarrow> bool" where
  "only_schedule w w' \<equiv> besides_schedule (sys_db w') = besides_schedule (sys_db w)"

lemma besides_schedule_faults [simp]: "besides_schedule (d\<lparr>db_faults := f\<rparr>) = besides_schedule d"
  by (simp add: besides_schedule_def)

lemma first_error_besides:
  assumes "first_error f xs d = Inr d'" and "\<And>x d d'. f x d = Inr d' \<Longrightarrow> g d' = g d"
  shows "g d' = g d"
  using assms(1) by (induction xs arbitrary: d) (auto dest: assms(2) split: sum.splits)

lemma insert_row_besides: "insert_row r d = Inr d' \<Longrightarrow> besides_schedule d' = besides_schedule d"
  by (cases r) (auto simp: insert_row_def besides_schedule_def split: if_splits)

lemma apply_stmt_besides: "apply_stmt st d = Inr d' \<Longrightarrow> besides_schedule d' = besides_schedule d"
  by (cases st)
    (auto simp: update_version_def Let_def besides_schedule_def split: if_splits
      dest!: first_error_besides [where g = besides_schedule, unfolded besides_schedule_def]
      dest: insert_row_besides [unfolded besides_schedule_def])

lemma tx_view_besides: "tx_view t d = Inr d' \<Longrightarrow> besides_schedule d' = besides_schedule d"
  unfolding tx_view_def by (erule first_error_besides) (rule apply_stmt_besides)

lemma load_exec_only: "load_exec st lw = (e, lw') \<Longrightarrow> only_schedule (snd lw) (snd lw')"
  by (cases lw) (auto simp: load_exec_def tx_exec_def split: prod.splits tx_state.splits option.splits fault.splits sum.splits)

lemma load_flush_only: "load_flush tb lw = (e, lw') \<Longrightarrow> only_schedule (snd lw) (snd lw')"
  by (auto simp: load_flush_def dest!: load_exec_only split: if_splits prod.splits option.splits)

lemma writer_call_only: "writer_call load_writer c lw = (e, lw') \<Longrightarrow> only_schedule (snd lw) (snd lw')"
  by (cases c; cases lw)
    (auto simp: load_writer_def load_meta_def load_route_def load_stop_def load_trip_def load_stop_time_def
      load_calendar_def load_calendar_date_def load_maybe_flush_def buffer_row_def
      dest!: load_exec_only load_flush_only split: prod.splits if_splits sum.splits)

lemma run_plan_only: "run_plan load_writer p lw = (e, lw') \<Longrightarrow> only_schedule (snd lw) (snd lw')"
  by (induction load_writer p lw rule: run_plan.induct) (auto dest: writer_call_only split: prod.splits option.splits)

lemma parse_zips_only: "parse_zips pf unzip d paths lw = (e, lw') \<Longrightarrow> only_schedule (snd lw) (snd lw')"
  by (induction paths arbitrary: lw) (auto simp: parse_zip_steps dest: run_plan_only split: prod.splits option.splits)

lemma flush_all_only: "flush_all tbs lw = (e, lw') \<Longrightarrow> only_schedule (snd lw) (snd lw')"
  by (induction tbs arbitrary: lw) (auto dest: load_flush_only split: prod.splits option.splits)

lemma exec_all_only: "exec_all ss lw = (e, lw') \<Longrightarrow> only_schedule (snd lw) (snd lw')"
  by (induction ss arbitrary: lw e) (auto dest!: load_exec_only split: prod.splits option.splits)

lemma tx_end_only:
  "tx_commit t w = (e, t', w') \<Longrightarrow> only_schedule w w'" "tx_rollback t w = (e, t', w') \<Longrightarrow> only_schedule w w'"
  by (auto simp: tx_commit_def tx_rollback_def Let_def dest: tx_view_besides
      split: tx_state.splits option.splits fault.splits sum.splits if_splits)

lemma delete_version_only:
  assumes "db_exec (delete_version_stmt v) w = (r, w')"
  shows "only_schedule w w'"
  using db_exec_effect [OF assms] by (auto simp: delete_version_stmt_def delete_version_def besides_schedule_def)

lemma load_commit_only: "load_commit lw = (r, lw') \<Longrightarrow> only_schedule (snd lw) (snd lw')"
  by (auto simp: load_commit_def dest!: flush_all_only exec_all_only tx_end_only split: if_splits prod.splits option.splits)

lemma load_abort_only: "load_abort lw = (r, lw') \<Longrightarrow> only_schedule (snd lw) (snd lw')"
  by (cases lw) (auto simp: load_abort_def Let_def dest!: tx_end_only delete_version_only
      split: if_splits prod.splits option.splits sum.splits)

lemma query_only_schedule: "db_query q w = (r, w') \<Longrightarrow> only_schedule w w'"
  by (auto dest: query_faults)

lemma start_load_only:
  assumes "start_load sha t w = (r, w')"
  shows "only_schedule w w'"
proof -
  obtain x w1 where run: "db_run (insert_version sha t) w = (x, w1)" by force
  have "only_schedule w w1"
    using db_run_effect [OF run] by (auto simp: insert_version_def besides_schedule_def split: if_splits)
  then show ?thesis
    using assms run by (auto simp: start_load_def dest!: query_only_schedule split: sum.splits prod.splits)
qed

lemma new_schedule_load_only: "new_schedule_load sha t w = (r, w') \<Longrightarrow> only_schedule w w'"
  by (auto simp: new_schedule_load_def dest!: query_only_schedule start_load_only delete_version_only
      split: sum.splits prod.splits option.splits if_splits)

lemma load_zips_only:
  assumes run: "load_zips c pf unzip zips now d w = (e, w')"
  shows "only_schedule w w'"
proof -
  obtain r w1 where new: "new_schedule_load (version_sha c (map snd zips)) now w = (r, w1)" by force
  note 1 = new_schedule_load_only [OF new]
  show ?thesis
  proof (cases r)
    case (Inl x)
    then show ?thesis using run new 1 by (auto simp: load_zips_def split: if_splits)
  next
    case (Inr l)
    obtain x lw2 where pz: "parse_zips pf unzip d (map fst zips) (l, w1) = (x, lw2)" by (metis surj_pair)
    obtain e3 lw3 where ab: "load_abort lw2 = (e3, lw3)" by (metis surj_pair)
    obtain r4 lw4 where co: "load_commit lw2 = (r4, lw4)" by (metis surj_pair)
    obtain e5 lw5 where ab': "load_abort lw4 = (e5, lw5)" by (metis surj_pair)
    have "sys_db w' \<in> {sys_db (snd lw3), sys_db (snd lw4), sys_db (snd lw5)}"
      using run new Inr pz ab co ab' by (auto simp: load_zips_def split: option.splits sum.splits)
    then show ?thesis
      using 1 parse_zips_only [OF pz] load_abort_only [OF ab] load_commit_only [OF co] load_abort_only [OF ab'] by auto
  qed
qed

lemma schedule_ok_besides:
  "besides_schedule d' = besides_schedule d \<Longrightarrow> schedule_ok d' \<Longrightarrow> tables_ok lib d \<Longrightarrow> tables_ok lib d' \<and> spent d' = spent d"
proof -
  assume b: "besides_schedule d' = besides_schedule d" and "schedule_ok d'" and ok: "tables_ok lib d"
  have "events_ok (db_stop_events (besides_schedule d)) = events_ok (db_stop_events d)"
    "weekly_ok (besides_schedule d) = weekly_ok d" "subs_ok (besides_schedule d) = subs_ok d"
    "rows_valid lib (besides_schedule d) = rows_valid lib d" "spent (besides_schedule d) = spent d" for d
    by (simp_all add: besides_schedule_def weekly_ok_def subs_ok_def spent_def fun_eq_iff)
  then show ?thesis using b \<open>schedule_ok d'\<close> ok unfolding tables_ok_def by metis
qed

lemma load_static_safe:
  assumes "load_static c pf unzip dir urls replies now (d, w) = (e, d', w')"
  shows "safe lib w w'"
proof -
  have "safe lib w w1" if run: "load_zips c pf unzip zips now d1 w = (x, w1)" for zips d1 x w1
    unfolding safe_def
  proof (intro impI)
    assume ok: "tables_ok lib (sys_db w)"
    then have "schedule_ok (sys_db w)" by (simp add: tables_ok_def)
    from schedule_ok_besides [OF load_zips_only [OF run] conjunct1 [OF load_zips_exact [OF this run]] ok]
    show "tables_ok lib (sys_db w1) \<and> (\<forall>x. spent (sys_db w) x \<longrightarrow> spent (sys_db w1) x)" by simp
  qed
  then show ?thesis
    using assms by (auto simp: load_static_def split: if_splits sum.splits prod.splits)
qed

section \<open>The nightly jobs\<close>

lemma safe_partitions:
  assumes "sys_db w' = (sys_db w)\<lparr>db_partitions := ps, db_faults := f\<rparr>"
    and "weekly_ok (sys_db w) \<Longrightarrow> weekly_ok ((sys_db w)\<lparr>db_partitions := ps\<rparr>)"
  shows "safe lib w w'"
proof -
  let ?d = "(sys_db w)\<lparr>db_partitions := ps\<rparr>"
  have "table_rows tb ?d = table_rows tb (sys_db w)" for tb by (cases tb) simp_all
  then have "schedule_ok ?d = schedule_ok (sys_db w)" by (intro schedule_ok_part(1)) (simp_all add: schedule_part_eq)
  then have "tables_ok lib ?d" if "tables_ok lib (sys_db w)"
    using that assms(2) by (simp add: tables_ok_def subs_ok_def)
  moreover have "spent ?d = spent (sys_db w)" by (simp add: spent_def fun_eq_iff)
  ultimately show ?thesis by (simp add: safe_def assms(1))
qed

lemma create_run_safe:
  assumes run: "db_run (create_stmt p (partition_name p (midnight m)) m (m + 7)) w = (r, w')"
    and p: "p \<in> set partitioned_tables" and m: "monday m = m"
  shows "safe lib w w'"
  using db_run_effect [OF run]
proof (elim conjE disjE exE)
  fix d x
  assume st: "create_stmt p (partition_name p (midnight m)) m (m + 7) (sys_db w) = Inr (d, x)" "sys_db w' = drop_fault d"
  have "\<exists>ps. d = (sys_db w)\<lparr>db_partitions := ps\<rparr>"
    using st(1) by (auto simp: create_stmt_def split: if_splits intro: exI [of _ "db_partitions (sys_db w)"])
  then obtain ps where d: "d = (sys_db w)\<lparr>db_partitions := ps\<rparr>" ..
  show ?thesis
  proof (rule safe_partitions)
    show "sys_db w' = (sys_db w)\<lparr>db_partitions := ps, db_faults := tl (db_faults (sys_db w))\<rparr>"
      using st(2) by (simp add: d)
    show "weekly_ok ((sys_db w)\<lparr>db_partitions := ps\<rparr>)" if "weekly_ok (sys_db w)"
      using create_week [OF that p m] by (simp add: st(1)) (simp add: d)
  qed
qed (use safe_faults in blast)

lemma ensure_week_safe:
  assumes "ensure_week ps (midnight m) w = (e, w')" and "set ps \<subseteq> set partitioned_tables" and m: "monday m = m"
  shows "safe lib w w'"
  using assms(1,2)
proof (induction ps arbitrary: w e)
  case (Cons p ps)
  have days: "local_day utc (midnight m) = m" "local_day utc (add_date_utc (midnight m) 7) = m + 7"
    by (simp_all add: add_date_utc algebra_simps)
  obtain r w1 where run: "db_run (create_stmt p (partition_name p (midnight m)) m (m + 7)) w = (r, w1)" by force
  have 1: "safe lib w w1" using create_run_safe [OF run _ m] Cons.prems(2) by simp
  have "w' = w1 \<or> ensure_week ps (midnight m) w1 = (e, w')"
    using Cons.prems(1) by (auto simp: Let_def days run simp del: day_second split: sum.splits if_splits)
  then show ?case using 1 Cons.IH Cons.prems(2) safe_trans by auto
qed simp

lemma ensure_weeks_safe:
  assumes "ensure_weeks (midnight a) stop w = (e, w')" and "monday a = a"
  shows "safe lib w w'"
  using assms
proof (induction "midnight a" stop w arbitrary: a rule: ensure_weeks.induct)
  case (1 stop w)
  show ?case
  proof (cases "midnight a > stop")
    case True
    then show ?thesis using 1(2) by (simp add: ensure_weeks.simps)
  next
    case False
    obtain x w1 where wk: "ensure_week partitioned_tables (midnight a) w = (x, w1)" by force
    have s: "safe lib w w1" using ensure_week_safe [OF wk] 1(3) by simp
    have later: "add_date_utc (midnight a) 7 = midnight (a + 7)" by (simp add: add_date_utc algebra_simps)
    show ?thesis
    proof (cases x)
      case None
      have "monday (a + 7) = a + 7" using 1(3) by (simp add: monday_def)
      moreover have "ensure_weeks (midnight (a + 7)) stop w1 = (e, w')"
        using 1(2) False wk None by (subst (asm) ensure_weeks.simps) (simp add: later)
      ultimately have "safe lib w1 w'" using 1(1) [OF False wk [symmetric] None] later by metis
      then show ?thesis using s safe_trans by blast
    next
      case (Some y)
      then show ?thesis using 1(2) False wk s by (subst (asm) ensure_weeks.simps) simp
    qed
  qed
qed

lemma ensure_partitions_safe: "ensure_partitions lo hi w = (e, w') \<Longrightarrow> safe lib w w'"
  unfolding ensure_partitions_def week_start by (erule ensure_weeks_safe) (simp add: monday_def)

lemma drop_old_safe:
  assumes "drop_old_partitions keeps now w = (e, w')"
  shows "safe lib w w'"
  unfolding safe_def
proof (intro impI)
  assume ok: "tables_ok lib (sys_db w)"
  then have "weekly_ok (sys_db w)" by (simp add: tables_ok_def)
  from drop_old_thin [OF assms this] obtain P Q ps loose f where wk: "weekly_ok (sys_db w')"
    and w': "sys_db w' = (sys_db w)\<lparr>db_stop_events := filter P (db_stop_events (sys_db w)),
      db_positions := filter Q (db_positions (sys_db w)), db_partitions := ps, db_loose_tables := loose, db_faults := f\<rparr>"
    unfolding thinned_def by blast
  have "table_rows tb (sys_db w') = table_rows tb (sys_db w)" for tb by (cases tb) (simp_all add: w')
  then have "schedule_ok (sys_db w') = schedule_ok (sys_db w)"
    by (intro schedule_ok_part(1)) (simp_all add: schedule_part_eq, simp_all add: w')
  then have "tables_ok lib (sys_db w')"
    using ok wk by (simp add: tables_ok_def) (simp add: w' subs_ok_def events_ok_filter)
  then show "tables_ok lib (sys_db w') \<and> (\<forall>x. spent (sys_db w) x \<longrightarrow> spent (sys_db w') x)"
    by (simp add: w' spent_def)
qed

lemma rollup_safe: "rollup_run ag zones now tz weeks w = (e, w') \<Longrightarrow> safe lib w w'"
proof -
  have "safe lib w w1" if "rebuild_all (rollup_tables ag loc a b) w = (x, w1)" for loc a b x w1
  proof (rule safe_promised)
    have "promised d = promised (besides_rollups d)" for d by (simp add: promised_def besides_rollups_def)
    then show "promised (sys_db w1) = promised (sys_db w)" using rebuild_all_effect [OF that] by metis
  qed
  then show "rollup_run ag zones now tz weeks w = (e, w') \<Longrightarrow> safe lib w w'"
    by (auto simp: rollup_run_def split: if_splits sum.splits prod.splits option.splits)
qed

lemma schedule_age_safe: "safe lib w (update_schedule_age now w)"
  unfolding update_schedule_age_def by (auto dest: active_safe split: prod.splits sum.splits)

lemma nightly_tick_safe:
  assumes "nightly_tick xo i (n, d, w) = (n', d', w')"
  shows "safe lib w w'"
proof -
  obtain go w1 where job: "rollup_job xo i w = (go, w1)" by force
  have 1: "safe lib w w1"
    using job by (auto simp: rollup_job_def dest!: active_safe intro: safe_trans [OF _ rollup_safe] prod.collapse [symmetric]
        split: prod.splits sum.splits)
  have 2: "safe lib a (snd (retention_job xo i (d, a)))" for a
    unfolding retention_job_def Let_def prod.case snd_conv
    by (rule safe_trans [OF safe_trans [OF ensure_partitions_safe drop_old_safe] schedule_age_safe]) (rule prod.collapse [symmetric])+
  have "w' \<in> {w, w1} \<union> {snd (retention_job xo i (d, w)), snd (retention_job xo i (d, w1))}"
    using assms job by (auto simp: nightly_tick_def Let_def split: if_splits prod.splits)
  then show ?thesis using 1 2 safe_trans by blast
qed

section \<open>Polls\<close>

lemma archive_safe:
  "last_sha feed w = (r, w') \<Longrightarrow> safe lib w w'"
  "record_raw_poll feed t ts sha path n k w = (e, w') \<Longrightarrow> safe lib w w'"
proof -
  show "last_sha feed w = (r, w') \<Longrightarrow> safe lib w w'"
    by (auto simp: last_sha_def dest!: query_faults intro: safe_faults split: prod.splits sum.splits option.splits)
  assume run: "record_raw_poll feed t ts sha path n k w = (e, w')"
  then obtain row x where db: "db_run (poll_stmt row) w = (x, w')"
    by (auto simp: record_raw_poll_def split: prod.splits sum.splits)
  have "promised (sys_db w') = promised (sys_db w)"
    using db_run_effect [OF db] by (auto simp: poll_stmt_def promised_def split: if_splits)
  then show "safe lib w w'" by (rule safe_promised)
qed

text \<open>What a poll leaves of a sink's promises.\<close>

lemma poll_once_keeps:
  assumes sink: "\<And>snap e w x e' w'. f snap (e, w) = (x, e', w') \<Longrightarrow> safe lib w w' \<and> (good e \<longrightarrow> good e')"
    and run: "poll_once c store_archive (Some f) i (p, d, e, w) = (err, p', d', e', w')"
  shows "safe lib w w' \<and> (good e \<longrightarrow> good e') \<and> pl_feed p' = pl_feed p"
proof -
  have sunk: "safe lib a b \<and> (good e1 \<longrightarrow> good e2) \<and> pl_feed q2 = pl_feed q1"
    if r: "sink_snapshot (Some f) t snap (q1, d1, e1, a) = (x, q2, d2, e2, b)" for t snap q1 d1 e1 a x q2 d2 e2 b
  proof -
    obtain y e3 w3 where s: "f snap (e1, a) = (y, e3, w3)" by (metis prod_cases3)
    then show ?thesis
      using r sink [OF s] by (cases y) (auto simp: sink_snapshot_def note_staleness_def)
  qed
  have changed: "safe lib a b \<and> (good e1 \<longrightarrow> good e2) \<and> pl_feed q2 = pl_feed q1"
    if r: "poll_changed c store_archive (Some f) i raw (q1, d1, e1, a) = (x, q2, d2, e2, b)" for raw q1 d1 e1 a x q2 d2 e2 b
  proof -
    let ?path = "blob_path (pl_feed q1) (pi_start i) (cd_sha c raw)"
    obtain n d3 where wr: "write_blob c ?path raw d1 = (n, d3)" by force
    show ?thesis
    proof (cases n)
      case (Inl y)
      then show ?thesis using r wr by (auto simp: poll_changed_def Let_def)
    next
      case (Inr bytes)
      let ?dec = "decode_feed (cd_proto c) (pl_feed q1) raw (pi_start i)"
      obtain ts k where tk: "(case ?dec of Inl _ \<Rightarrow> (0, 0) | Inr snap \<Rightarrow> (sn_feed_timestamp snap, snapshot_size snap)) = (ts, k)"
        by force
      define a1 where "a1 = on_metrics (\<lambda>m. m\<lparr>mt_raw_archive_bytes := mt_raw_archive_bytes m + bytes\<rparr>) a"
      obtain y b1 where rec: "record_raw_poll (pl_feed q1) (pi_start i) ts (cd_sha c raw) ?path bytes k a1 = (y, b1)" by force
      have 1: "safe lib a b1" using archive_safe(2) [OF rec, of lib] by (simp add: a1_def)
      note u = r [unfolded poll_changed_def prod.case Let_def wr Inr sum.case tk store_archive_def raw_archive.simps,
          folded a1_def, unfolded rec prod.case]
      have "(\<exists>label. q2 = q1 \<and> e2 = e1 \<and> b = count_poll (pl_feed q1) label b1) \<or>
          (\<exists>snap. sink_snapshot (Some f) (pi_later i) snap (q1, d3, e1, b1) = (x, q2, d2, e2, b))"
        using u by (auto split: option.splits sum.splits)
      then show ?thesis
      proof (elim disjE exE)
        fix snap
        assume "sink_snapshot (Some f) (pi_later i) snap (q1, d3, e1, b1) = (x, q2, d2, e2, b)"
        from sunk [OF this] show ?thesis using safe_trans [OF 1] by blast
      qed (use 1 in auto)
    qed
  qed
  show ?thesis
  proof (cases "fetched p i")
    case (Inl y)
    then show ?thesis using run by (auto simp: poll_once_def split: option.splits)
  next
    case (Inr raw)
    obtain r w1 where l: "last_sha (pl_feed p) w = (r, w1)" by force
    have 1: "safe lib w w1" using archive_safe(1) [OF l] .
    have "poll_changed c store_archive (Some f) i raw (p, d, e, w1) = (err, p', d', e', w') \<or>
        p' = p \<and> e' = e \<and> safe lib w w'"
      using run 1 by (auto simp: poll_once_def Inr store_archive_def l Let_def note_staleness_def split: if_splits)
    then show ?thesis using changed 1 safe_trans by blast
  qed
qed

section \<open>The server\<close>

text \<open>What the web side is given: the collation and case rules, the assets, the push service.\<close>

record web =
  wb_collate :: "string \<Rightarrow> string"
  wb_go_lower :: "string \<Rightarrow> string"
  wb_pg_lower :: "string \<Rightarrow> string"
  wb_files :: static_fs
  wb_lib :: go_lib
  wb_send :: "push_request list \<Rightarrow> subscription \<Rightarrow> push_payload \<Rightarrow> int result"
  wb_agency :: location

text \<open>
  The state: that of the process, and outside of it the database with the metrics, the blobs,
  the static zips and the alerts that the push service was asked to deliver.
\<close>

record service =
  sy_engine :: engine
  sy_pollers :: "poller list"
  sy_nightly :: nightly
  sy_world :: "store sys"
  sy_archive :: disk
  sy_static :: disk
  sy_sent :: "push_request list"

definition poll_tick :: "outside \<Rightarrow> nat \<Rightarrow> instant \<Rightarrow> poll_input \<Rightarrow> service \<Rightarrow> service" where
  "poll_tick xo k now i s =
     (case poll_once (xo_codec xo) store_archive
         (Some (\<lambda>snap. process (store_deps (xo_zones xo)) (pi_ctx_err i) now (Some snap))) i
         (sy_pollers s ! k, sy_archive s, sy_engine s, sy_world s) of
        (err, p, d, en, w) \<Rightarrow>
          s\<lparr>sy_pollers := (sy_pollers s)[k := p], sy_archive := d, sy_engine := en, sy_world := w\<rparr>)"

definition sweep_tick :: "outside \<Rightarrow> go_error option \<Rightarrow> instant \<Rightarrow> service \<Rightarrow> service" where
  "sweep_tick xo ctx now s =
     (case sweep (store_deps (xo_zones xo)) ctx now (sy_engine s, sy_world s) of
        (err, en, w) \<Rightarrow> s\<lparr>sy_engine := en, sy_world := w\<rparr>)"

definition refresh_tick :: "outside \<Rightarrow> (nat \<Rightarrow> http_reply) \<Rightarrow> instant \<Rightarrow> instant \<Rightarrow> service \<Rightarrow> service" where
  "refresh_tick xo replies now later s =
     (case refresh_static xo replies now (sy_static s, sy_world s) of
        (err, d, w) \<Rightarrow> s\<lparr>sy_static := d, sy_world := update_schedule_age later w\<rparr>)"

text \<open>No evaluator runs unless both keys are set.\<close>

definition push_tick :: "outside \<Rightarrow> web \<Rightarrow> (nat \<Rightarrow> bool) \<Rightarrow> instant \<Rightarrow> service \<Rightarrow> service" where
  "push_tick xo wb cancelled now s =
     (if cf_vapid_public_key (xo_cfg xo) = [] \<or> cf_vapid_private_key (xo_cfg xo) = [] then s
      else case evaluate
          (new_evaluator (cf_push_horizon (xo_cfg xo)) store_subscriptions (engine_live now (sy_engine s))
             (store_queries (wb_collate wb) (wb_go_lower wb) (wb_pg_lower wb)) (wb_send wb) (wb_agency wb) (xo_local xo))
          cancelled (sy_sent s, sy_world s) of
        (err, sent, w) \<Rightarrow> s\<lparr>sy_sent := sent, sy_world := w\<rparr>)"

definition night_tick :: "outside \<Rightarrow> tick \<Rightarrow> service \<Rightarrow> service" where
  "night_tick xo i s =
     (case nightly_tick xo i (sy_nightly s, sy_archive s, sy_world s) of
        (n, d, w) \<Rightarrow> s\<lparr>sy_nightly := n, sy_archive := d, sy_world := w\<rparr>)"

definition server_of :: "outside \<Rightarrow> web \<Rightarrow> instant \<Rightarrow> service \<Rightarrow> store server" where
  "server_of xo wb now s =
     \<lparr>sv_cfg = xo_cfg xo, sv_q = store_queries (wb_collate wb) (wb_go_lower wb) (wb_pg_lower wb),
      sv_live = engine_live now (sy_engine s), sv_subs = store_subscriptions, sv_static = wb_files wb, sv_lib = wb_lib wb\<rparr>"

definition answer :: "outside \<Rightarrow> web \<Rightarrow> instant \<Rightarrow> request \<Rightarrow> service \<Rightarrow> response \<times> service" where
  "answer xo wb now rq s =
     (case serve_request (server_of xo wb now s) rq (sy_world s) of (rp, w) \<Rightarrow> (rp, s\<lparr>sy_world := w\<rparr>))"

text \<open>
  A new process over what is left of the last one: \<open>runServe\<close> up to the pollers. The choices
  are those of the evictions from the two caches.
\<close>

definition start_service ::
    "outside \<Rightarrow> (nat \<Rightarrow> http_reply) \<Rightarrow> instant \<Rightarrow> instant \<Rightarrow> nat list \<Rightarrow> nat list \<Rightarrow> service \<Rightarrow> go_error option \<times> service" where
  "start_service xo replies now later choices evictions s =
     (let opened = \<lparr>sys_store = \<lparr>st_db = sys_db (sy_world s), st_trip_cache = [], st_trip_cache_version = 0,
            st_evictions = evictions\<rparr>, sys_metrics = zero_metrics\<rparr>
      in case serve_start xo replies now later (sy_static s, opened) of
          (err, d, w) \<Rightarrow>
            (err, s\<lparr>sy_engine := new_engine (cf_finalize_grace (xo_cfg xo)) choices,
                    sy_pollers := poller_configs (xo_cfg xo),
                    sy_nightly := \<lparr>ny_rollup_day = [], ny_retention_day = []\<rparr>, sy_world := w, sy_static := d\<rparr>))"

text \<open>
  A history of the server: the steps of its goroutines in any order, and new processes, started
  with success or without. (After a start that failed nothing runs; that the relation lets
  steps follow it only adds histories.)
\<close>

inductive service_step :: "outside \<Rightarrow> web \<Rightarrow> service \<Rightarrow> service \<Rightarrow> bool" for xo wb where
  step_poll: "k < length (sy_pollers s) \<Longrightarrow> service_step xo wb s (poll_tick xo k now i s)"
| step_sweep: "service_step xo wb s (sweep_tick xo ctx now s)"
| step_refresh: "service_step xo wb s (refresh_tick xo replies now later s)"
| step_push: "service_step xo wb s (push_tick xo wb cancelled now s)"
| step_night: "service_step xo wb s (night_tick xo i s)"
| step_request: "answer xo wb now rq s = (rp, s') \<Longrightarrow> service_step xo wb s s'"
| step_start: "start_service xo replies now later choices evictions s = (err, s') \<Longrightarrow> service_step xo wb s s'"

inductive_cases service_stepE: "service_step xo wb s s'"

section \<open>The invariant\<close>

definition service_ok :: "web \<Rightarrow> service \<Rightarrow> bool" where
  "service_ok wb s \<longleftrightarrow> tables_ok (wb_lib wb) (sys_db (sy_world s)) \<and> live_ok (sy_engine s) \<and>
     list_all (\<lambda>p. known_feed (pl_feed p)) (sy_pollers s) \<and> distinct (map (alert_claim claim_row) (sy_sent s)) \<and>
     list_all (\<lambda>r. store_used (sy_world s) (sub_id (pr_subscription r)) (claim_row (event_key_of (pr_event r))) \<and>
       alertable (pr_subscription r) (pr_event r) \<noteq> None) (sy_sent s)"

lemma service_ok_sent:
  "service_ok wb s \<longleftrightarrow> tables_ok (wb_lib wb) (sys_db (sy_world s)) \<and> live_ok (sy_engine s) \<and>
     list_all (\<lambda>p. known_feed (pl_feed p)) (sy_pollers s) \<and> pg_push.sent_ok (sy_sent s, sy_world s)"
  by (auto simp: service_ok_def pg_push.sent_ok_def tables_ok_def list_all_iff)

lemma safe_sent:
  assumes "safe lib w w'" and "tables_ok lib (sys_db w)" and "pg_push.sent_ok (sent, w)"
  shows "pg_push.sent_ok (sent, w')"
proof (rule pg_push.sent_ok_later [OF assms(3)])
  show "store_alerts_ok w'" using assms(1,2) by (simp add: safe_def tables_ok_def)
  show "store_used w \<le> store_used w'"
    using assms(1,2) by (auto simp: safe_def store_used_def le_fun_def split: option.splits)
qed

lemma service_ok_safe:
  assumes "service_ok wb s" and "safe (wb_lib wb) (sy_world s) (sy_world s')" and "live_ok (sy_engine s')"
    and "list_all (\<lambda>p. known_feed (pl_feed p)) (sy_pollers s')" and "sy_sent s' = sy_sent s"
  shows "service_ok wb s'"
  using assms safe_sent [OF assms(2)] by (auto simp: service_ok_sent safe_def)

lemma live_ok_process: "process dp ctx now snap (en, w) = (r, en', w') \<Longrightarrow> live_ok en \<Longrightarrow> live_ok en'"
  using process_live [of dp ctx now snap en w r en' w'] by (simp add: live_grows_def)

lemma live_ok_sweep:
  assumes "sweep dp ctx now (en, w) = (r, en', w')" and "live_ok en"
  shows "live_ok en'"
proof (cases ctx)
  case None
  then show ?thesis
    using assms(2) sweep_live [OF assms(1) [unfolded None]] by (auto simp: live_ok_def al_wf_filter list_all_iff)
qed (use assms in \<open>simp add: sweep_def\<close>)

lemma serve_start_safe:
  assumes "serve_start xo replies now later (d, w) = (e, d', w')"
  shows "safe lib w w'"
proof -
  obtain x w1 where ens: "ensure_partitions (add_date_in (xo_local xo) now (- 7)) (add_date_in (xo_local xo) now 28) w = (x, w1)"
    by force
  obtain y w2 where act: "store_active_version w1 = (y, w2)" by force
  obtain z d3 w3 where ref: "refresh_static xo replies later (d, w2) = (z, d3, w3)" by (metis prod_cases3)
  have 1: "safe lib w w1" using ensure_partitions_safe [OF ens] .
  have 2: "safe lib w w2" using 1 active_safe [OF act] safe_trans by blast
  have 3: "safe lib w w3" using 2 load_static_safe [OF ref [unfolded refresh_static_def]] safe_trans by blast
  have "w' \<in> {w1, w2, w3, update_schedule_age later w2, update_schedule_age later w3}"
    using assms ens act ref by (auto simp: serve_start_def split: option.splits sum.splits if_splits)
  then show ?thesis using 1 2 3 safe_trans [OF _ schedule_age_safe] by blast
qed

lemma poller_configs_known: "list_all (\<lambda>p. known_feed (pl_feed p)) (poller_configs cfg)"
  by (auto simp: poller_configs_def list_all_iff new_poller_def known_feed_def Let_def)

lemma service_step_ok:
  assumes "service_step xo wb s s'" and ok: "service_ok wb s"
  shows "service_ok wb s'"
  using assms(1)
proof (rule service_stepE)
  note known = ok [unfolded service_ok_def, THEN conjunct2, THEN conjunct2, THEN conjunct1]
  have live: "live_ok (sy_engine s)" using ok by (simp add: service_ok_def)
  fix k now i
  assume k: "k < length (sy_pollers s)" and s': "s' = poll_tick xo k now i s"
  obtain err p d en w where run: "poll_once (xo_codec xo) store_archive
      (Some (\<lambda>snap. process (store_deps (xo_zones xo)) (pi_ctx_err i) now (Some snap))) i
      (sy_pollers s ! k, sy_archive s, sy_engine s, sy_world s) = (err, p, d, en, w)" by (metis prod_cases5)
  have "safe (wb_lib wb) (sy_world s) w \<and> (live_ok (sy_engine s) \<longrightarrow> live_ok en) \<and> pl_feed p = pl_feed (sy_pollers s ! k)"
    using live.process_leads live_ok_process by (intro poll_once_keeps [OF _ run]) blast
  then show ?thesis
    using live k known by (intro service_ok_safe [OF ok]) (auto simp: s' poll_tick_def run list_all_length nth_list_update)
next
  fix ctx now
  assume s': "s' = sweep_tick xo ctx now s"
  obtain err en w where run: "sweep (store_deps (xo_zones xo)) ctx now (sy_engine s, sy_world s) = (err, en, w)"
    by (metis prod_cases3)
  show ?thesis
    using ok live.sweep_leads [OF run] live_ok_sweep [OF run]
    by (intro service_ok_safe [OF ok]) (auto simp: s' sweep_tick_def run service_ok_def)
next
  fix replies now later
  assume s': "s' = refresh_tick xo replies now later s"
  obtain err d w where run: "refresh_static xo replies now (sy_static s, sy_world s) = (err, d, w)" by (metis prod_cases3)
  show ?thesis
    using ok safe_trans [OF load_static_safe [OF run [unfolded refresh_static_def]] schedule_age_safe]
    by (intro service_ok_safe [OF ok]) (auto simp: s' refresh_tick_def run service_ok_def)
next
  fix cancelled now
  assume s': "s' = push_tick xo wb cancelled now s"
  let ?pe = "new_evaluator (cf_push_horizon (xo_cfg xo)) store_subscriptions (engine_live now (sy_engine s))
    (store_queries (wb_collate wb) (wb_go_lower wb) (wb_pg_lower wb)) (wb_send wb) (wb_agency wb) (xo_local xo)"
  obtain err sent w where run: "evaluate ?pe cancelled (sy_sent s, sy_world s) = (err, sent, w)" by (metis prod_cases3)
  have pe: "pe_subs ?pe = store_subscriptions"
    "pe_queries ?pe = store_queries (wb_collate wb) (wb_go_lower wb) (wb_pg_lower wb)" by (simp_all add: new_evaluator_def)
  have "pg_push.sent_ok (sent, w)"
    using pg_push.evaluate_result [OF pe _ run] ok by (simp add: service_ok_sent)
  moreover have "tables_ok (wb_lib wb) (sys_db w)"
    using alerts.evaluate_leads [OF run, of "wb_lib wb"] ok by (simp add: safe_def service_ok_def)
  ultimately show ?thesis using ok by (auto simp: s' push_tick_def run service_ok_sent)
next
  fix i
  assume s': "s' = night_tick xo i s"
  obtain n d w where run: "nightly_tick xo i (sy_nightly s, sy_archive s, sy_world s) = (n, d, w)" by (metis prod_cases3)
  show ?thesis
    using ok nightly_tick_safe [OF run]
    by (intro service_ok_safe [OF ok]) (auto simp: s' night_tick_def run service_ok_def)
next
  fix now rq rp
  assume run: "answer xo wb now rq s = (rp, s')"
  obtain rp1 w where srv: "serve_request (server_of xo wb now s) rq (sy_world s) = (rp1, w)" by force
  have "safe (wb_lib wb) (sy_world s) w"
    by (rule request_safe [OF _ srv]) (simp_all add: server_of_def)
  then show ?thesis
    using ok run by (intro service_ok_safe [OF ok]) (auto simp: answer_def srv service_ok_def)
next
  fix replies now later choices evictions err
  assume run: "start_service xo replies now later choices evictions s = (err, s')"
  define opened where "opened = \<lparr>sys_store = \<lparr>st_db = sys_db (sy_world s), st_trip_cache = [], st_trip_cache_version = 0,
    st_evictions = evictions\<rparr>, sys_metrics = zero_metrics\<rparr>"
  obtain e d w where st: "serve_start xo replies now later (sy_static s, opened) = (e, d, w)" by (metis prod_cases3)
  have "safe (wb_lib wb) opened w" by (rule serve_start_safe [OF st])
  then have "safe (wb_lib wb) (sy_world s) w" by (simp add: safe_def opened_def)
  then show ?thesis
    using run st by (intro service_ok_safe [OF ok])
      (auto simp: start_service_def opened_def [symmetric] live_ok_new poller_configs_known)
qed

text \<open>
  C1: the server keeps its promises as a whole. In every history of polls, sweeps, refreshes
  of the schedule, push passes, nightly jobs, requests and restarts, with the database, the
  disk and the feeds failing anywhere, at most one schedule is active and complete, no row is
  without its version, the stop events are well formed, every partition holds its week, every
  subscription is one the API accepts, the live state has one entry per key, and no subscriber
  has been alerted twice about an arrival or about one that does not match.
\<close>

theorem service_invariant:
  assumes "service_ok wb s" and "(service_step xo wb)\<^sup>*\<^sup>* s s'"
  shows "service_ok wb s'"
  using assms(2,1) by (induction rule: rtranclp_induct) (auto intro: service_step_ok)

definition sample_web :: web where
  "sample_web =
     \<lparr>wb_collate = id, wb_go_lower = id, wb_pg_lower = id, wb_files = sv_static sample_server, wb_lib = sample_lib,
      wb_send = (\<lambda>reqs sub payload. Inr 201), wb_agency = utc\<rparr>"

definition sample_service :: service where
  "sample_service =
     \<lparr>sy_engine = new_engine 0 [], sy_pollers = [], sy_nightly = \<lparr>ny_rollup_day = [], ny_retention_day = []\<rparr>,
      sy_world = opened_store [], sy_archive = \<lparr>dk_files = [], dk_dirs = [], dk_faults = []\<rparr>,
      sy_static = \<lparr>dk_files = [], dk_dirs = [], dk_faults = []\<rparr>, sy_sent = []\<rparr>"

text \<open>A process on the migrated database, a night and a request.\<close>

theorem service_invariant_witness:
  "service_ok sample_web (snd (answer sample_outer sample_web 0 sample_post (night_tick sample_outer (sample_tick 28800)
     (snd (start_service sample_outer (\<lambda>k. No_reply (Message ''down'')) 0 0 [] [] sample_service)))))"
proof -
  let ?s1 = "snd (start_service sample_outer (\<lambda>k. No_reply (Message ''down'')) 0 0 [] [] sample_service)"
  let ?s2 = "night_tick sample_outer (sample_tick 28800) ?s1"
  have "schedule_ok (sys_db (opened_store []))" by (rule schedule_ok_opened)
  then have ok: "service_ok sample_web sample_service"
    by (simp add: service_ok_def sample_service_def tables_ok_def live_ok_new)
      (simp add: opened_store_def empty_db_def events_ok_def weekly_ok_def subs_ok_def al_wf_def)
  have steps: "service_step sample_outer sample_web sample_service ?s1" "service_step sample_outer sample_web ?s1 ?s2"
    "service_step sample_outer sample_web ?s2 (snd (answer sample_outer sample_web 0 sample_post ?s2))"
    by (auto intro: step_start step_night step_request simp: prod_eq_iff)
  then have "(service_step sample_outer sample_web)\<^sup>*\<^sup>* sample_service (snd (answer sample_outer sample_web 0 sample_post ?s2))"
    by (meson converse_rtranclp_into_rtranclp r_into_rtranclp)
  then show ?thesis by (rule service_invariant [OF ok])
qed

end
