(* ===== verification/Spec2Isabelle.thy ===== *)
theory Spec2Isabelle
  imports Migrations Rederive Serving
begin

text \<open>
  RideWatch, a transit reliability tracker in Go (\<open>cmd/ridewatch\<close>, \<open>internal/\<close>).

  The program polls the realtime feeds of an agency, archives every response on disk,
  reconciles trip updates with the static schedule into stop events, freezes those events when
  their time has passed, rolls them up each night into statistics per hour and departure, and
  serves statistics, live vehicles and push alerts over HTTP. PostgreSQL holds the derived
  data; the archive on disk is the system of record, from which it can be derived again.

  Parts and theories, in the order of their imports:

  \<^item> \<open>Prelude\<close>, \<open>Go_Strings\<close>, \<open>Go_Time\<close>, \<open>Go_Floats\<close>, \<open>Csv\<close>: what the program uses of Go and of
    its standard library. Integers are \<open>int\<close> with the wrap-around written out, strings are byte
    lists, instants are nanoseconds, a time zone is an arbitrary list of transitions, floats are
    bit patterns with their values rounded as IEEE 754 says.
  \<^item> \<open>Gtfs_Time\<close> and \<open>Domain_Types\<close> (\<open>internal/domain\<close>, \<open>internal/metrics\<close>): service dates and
    GTFS times, the records that flow between the parts, the interfaces as records of functions.
  \<^item> \<open>Database\<close> and \<open>Transactions\<close>: the tables, the store over them, and the calls and
    transactions that fail as a stream of faults says.
  \<^item> \<open>Event_Store\<close>, \<open>Schedule_Repo\<close>, \<open>Schedule_Load\<close>, \<open>Queries\<close>, \<open>Subscriptions\<close>, \<open>Raw_Archive\<close>,
    \<open>Partitions\<close>, \<open>Migrations\<close> (\<open>internal/store\<close>): one theory per file, one definition per method,
    the SQL of each method as a function on the tables.
  \<^item> \<open>Reconcile\<close>, \<open>Trip_Cache\<close>, \<open>Engine\<close> (\<open>internal/reconcile\<close>): a trip update against its
    schedule, the cache of schedules, and the engine that threads both through a snapshot.
  \<^item> \<open>Decode\<close>, \<open>Poller\<close>, \<open>Replay\<close> (\<open>internal/ingest\<close>): the message of a feed as a snapshot, the
    poll cycle from the HTTP reply to the sink, the archive read back and pruned.
  \<^item> \<open>Static_Parse\<close>, \<open>Static_Load\<close> (\<open>internal/gtfsstatic\<close>, \<open>loadStatic\<close> of \<open>main.go\<close>): the static
    zips, downloaded, parsed row by row and streamed into one load.
  \<^item> \<open>Rollup\<close> (\<open>internal/rollup\<close>): the three aggregate tables.
  \<^item> \<open>Push\<close> (\<open>internal/push\<close>): one pass over the subscriptions and the live events.
  \<^item> \<open>Config\<close> (\<open>internal/config\<close>), \<open>Http\<close>, \<open>Sentences\<close>, \<open>Api\<close> (\<open>internal/api\<close>): the settings,
    and the requests with the JSON, errors and files they are answered with.
  \<^item> \<open>Service\<close>, \<open>Rederive\<close> and \<open>Serving\<close> (\<open>cmd/ridewatch/main.go\<close>): the replay command, the nightly
    jobs, the start of the server, and the server as one state that pollers, tickers, requests
    and restarts change in turn.

  State and operations. An operation of the code is a function from the state it reads to its
  result and the state it leaves; \<open>'s sys\<close> is the store with the metrics, \<open>disk\<close> a directory of
  files, \<open>engine\<close> the state of the process behind the locks of \<open>Engine\<close>. Errors are values of
  \<open>go_error\<close> in a sum, or an option where Go returns an error alone; \<open>errors.Is\<close> looks through
  their wrappings. A context is the error it reports, or a function that says from which call
  on it is cancelled. Go maps and tables are association lists whose order no statement
  relies on; where Go iterates over a map, the choice is an argument.

  Interfaces are locales: \<open>event_contract\<close> and \<open>schedule_contract\<close> are what the engine relies on
  (\<open>engine_env\<close> joins them), \<open>alert_contract\<close> what the evaluator relies on (\<open>push_env\<close>),
  \<open>archive_index\<close> what the poller relies on, \<open>read_only\<close> what the handlers rely on, and
  \<open>engine_calls\<close>, \<open>pass_calls\<close> whatever every call of the engine and the evaluator keeps. Each is
  interpreted on the model of the store (\<open>pg\<close>, \<open>pg_schedule\<close>, \<open>pg_engine\<close>, \<open>pg_alerts\<close>, \<open>pg_push\<close>,
  \<open>pg_archive\<close>, \<open>pg_reads\<close>, \<open>live\<close>, \<open>alerts\<close>), and the properties rest on these.

  What the theorems show, by group:

  \<^item> The whole server (\<open>Serving\<close>): one invariant of all tables, the live state and the alerts,
    over every history of steps, failures and restarts.
  \<^item> The system of record (\<open>Replay\<close>, \<open>Rederive\<close>): nothing is acted on that is not archived, a
    replay delivers everything that was ever acted on, and a second replay changes no event but
    to freeze those that have become due.
  \<^item> Stop events (\<open>Event_Store\<close>, \<open>Engine\<close>): the upsert is idempotent and independent of order,
    final rows are frozen, finalization takes exactly the rows that are due, and the caches
    are transparent.
  \<^item> Reconciliation (\<open>Reconcile\<close>, \<open>Gtfs_Time\<close>): delays, propagation and service dates against
    their specification, across midnight and changes of the clock.
  \<^item> The static schedule (\<open>Static_Parse\<close>, \<open>Static_Load\<close>, \<open>Schedule_Load\<close>, \<open>Queries\<close>): the parser
    does what the whole feed says, a load is all or nothing, and what was loaded is what is read.
  \<^item> Push alerts (\<open>Push\<close>): at most once per arrival, and every alert that is due is requested.
  \<^item> Nightly work (\<open>Service\<close>, \<open>Rollup\<close>, \<open>Partitions\<close>): once a day, exact aggregates, partitions
    ahead, and nothing dropped before its time.
  \<^item> The API (\<open>Api\<close>, \<open>Http\<close>, \<open>Sentences\<close>, \<open>Config\<close>): validation, read-only requests, bounds.

  Bounds and termination. There is no fuel: loops over lists are structural, and the others
  (numbers, CSV rows, weeks, parser rows) have termination proofs by the length of what is
  left or the distance to the end. Dates are four-digit years where a format has four digits;
  sums of observations stay below 2 ^ 53, which the counts of the database cannot reach.

  Parameters, for code that is not in the repository: the protobuf decoder and the enum names,
  gzip and SHA-256 (\<open>codec\<close>, with \<open>codec_ok\<close> as documented), the zip container, the parsers of
  floats, durations, JSON text and URLs, the time-zone database, the collation and case rules
  of PostgreSQL, its float4 aggregates, the SQL of the migrations, the replies of HTTP servers
  and of the push service, and where and when the database and the disk fail.

  Not modelled:

  \<^item> Preemption inside an operation of the server: a step of \<open>service_step\<close> is one whole run of a
    handler or ticker. Within the engine the locks make this so for the live state. Inside a
    static load, other sessions may write the other tables between any two calls.
  \<^item> Crashes in the middle of an operation, other than as the failure of every further call.
  \<^item> The middleware of the API (access log, recovery from panics), the usage text, flags, signals
    and the shutdown: process I/O without effect on the state. The generation of VAPID keys
    and the opening of the connection pool are calls of third-party packages.
  \<^item> Histograms of durations and lag; the microsecond precision of PostgreSQL's timestamps; the
    overflow of float arithmetic, which shares and 32-bit counts cannot reach.
  \<^item> The static zips lie on a disk of their own, although the directory is below the archive's:
    their names are no blob names, so that pruning and replay pass over them.
\<close>

end
